(* ===== verification/Prelude.thy ===== *)
theory Prelude
  imports Main "HOL-Library.AList" "HOL-Library.Char_ord" "HOL-Library.List_Lexorder"
    "HOL-Library.Multiset"
begin

text \<open>
  Shared vocabulary of the development: the JavaScript and SQL idioms the sources use on
  every page (decimal rendering of numbers, sets and maps in insertion order, the stable
  \<open>Array.sort\<close>, \<open>slice\<close>, row updates), each with the lemmas the components need.

  Conventions. A JavaScript string is a \<open>string\<close>, its UTF-8 bytes; \<open><\<close> on strings is the
  lexicographic order of those bytes, which is the order of \<open><\<close> in JavaScript on the
  ASCII identifiers the code compares. An integer-valued \<open>number\<close> is an \<open>int\<close>. A
  \<open>Map\<close> (insertion ordered, one entry per key) is an association list read with
  \<open>map_of\<close> and written with \<open>AList.update\<close>, which keeps a present key in place and
  appends a new one. A table is the list of its rows in \<open>rowid\<close> order.
\<close>

named_theorems js_simps "unfolding rules for the JavaScript idioms"
named_theorems sql_simps "unfolding rules for the table idioms"

type_synonym pubkey = string
type_synonym tag = "string list"

section \<open>Characters, hexadecimal and decimal strings\<close>

definition is_digit :: "char \<Rightarrow> bool" where
  "is_digit c \<longleftrightarrow> c \<in> set ''0123456789''"

definition is_lower_hex :: "char \<Rightarrow> bool" where
  "is_lower_hex c \<longleftrightarrow> c \<in> set ''0123456789abcdef''"

text \<open>The regular expressions \<open>/^[0-9a-f]{64}$/\<close> and \<open>/^[0-9a-f]{128}$/\<close>.\<close>

definition hex32 :: "string \<Rightarrow> bool" where
  "hex32 s \<longleftrightarrow> length s = 64 \<and> list_all is_lower_hex s"

definition hex64 :: "string \<Rightarrow> bool" where
  "hex64 s \<longleftrightarrow> length s = 128 \<and> list_all is_lower_hex s"

definition digit_char :: "nat \<Rightarrow> char" where
  "digit_char d = ''0123456789'' ! d"

definition digit_val :: "char \<Rightarrow> nat" where
  "digit_val c = of_char c - 48"

lemma digit_cases: "d < 10 \<Longrightarrow> d \<in> {0, 1, 2, 3, 4, 5, 6, 7, 8, 9::nat}"
  by auto

lemma digit_val_char [simp]: "d < 10 \<Longrightarrow> digit_val (digit_char d) = d"
  by (drule digit_cases) (auto simp: digit_val_def digit_char_def numeral_eq_Suc)

lemma is_digit_char [simp]: "d < 10 \<Longrightarrow> is_digit (digit_char d)"
  by (drule digit_cases) (auto simp: is_digit_def digit_char_def numeral_eq_Suc)

lemma digit_char_val: "is_digit c \<Longrightarrow> digit_char (digit_val c) = c"
  by (auto simp: is_digit_def digit_val_def digit_char_def)

lemma digit_val_less: "is_digit c \<Longrightarrow> digit_val c < 10"
  by (auto simp: is_digit_def digit_val_def)

lemma digit_char_zero: "d < 10 \<Longrightarrow> digit_char d = CHR ''0'' \<longleftrightarrow> d = 0"
  by (drule digit_cases) (auto simp: digit_char_def numeral_eq_Suc)

text \<open>\<open>String(n)\<close> of a non-negative integer, most significant digit first.\<close>

fun show_nat :: "nat \<Rightarrow> string" where
  "show_nat n = (if n < 10 then [digit_char n]
                 else show_nat (n div 10) @ [digit_char (n mod 10)])"

declare show_nat.simps [simp del]

definition show_int :: "int \<Rightarrow> string" where
  "show_int i = (if i < 0 then CHR ''-'' # show_nat (nat (- i)) else show_nat (nat i))"

text \<open>\<open>Number(s)\<close> of a string of decimal digits.\<close>

definition read_nat :: "string \<Rightarrow> nat" where
  "read_nat s = foldl (\<lambda>n c. 10 * n + digit_val c) 0 s"

lemma read_nat_snoc: "read_nat (s @ [c]) = 10 * read_nat s + digit_val c"
  by (simp add: read_nat_def)

lemma read_show_nat [simp]: "read_nat (show_nat n) = n"
proof (induction n rule: show_nat.induct)
  case (1 n)
  show ?case
  proof (cases "n < 10")
    case True
    then show ?thesis by (simp add: show_nat.simps [of n] read_nat_def)
  next
    case False
    then have "read_nat (show_nat (n div 10)) = n div 10" by (rule 1)
    with False show ?thesis by (simp add: show_nat.simps [of n] read_nat_snoc)
  qed
qed

lemma show_nat_inject [simp]: "show_nat m = show_nat n \<longleftrightarrow> m = n"
  by (metis read_show_nat)

lemma show_nat_digits: "list_all is_digit (show_nat n)"
proof (induction n rule: show_nat.induct)
  case (1 n)
  then show ?case by (simp add: show_nat.simps [of n])
qed

lemma show_nat_neq_Nil [simp]: "show_nat n \<noteq> []"
  by (simp add: show_nat.simps [of n])

text \<open>The regular expression \<open>/^(0|[1-9][0-9]*)$/\<close>: a decimal with no leading zero.\<close>

definition canonical_decimal :: "string \<Rightarrow> bool" where
  "canonical_decimal s \<longleftrightarrow> s = ''0'' \<or> (s \<noteq> [] \<and> hd s \<noteq> CHR ''0'' \<and> list_all is_digit s)"

lemma hd_show_nat: "0 < n \<Longrightarrow> hd (show_nat n) \<noteq> CHR ''0''"
proof (induction n rule: show_nat.induct)
  case (1 n)
  then show ?case
    by (cases "n < 10") (simp_all add: show_nat.simps [of n] digit_char_zero)
qed

lemma canonical_show_nat: "canonical_decimal (show_nat n)"
proof (cases "n = 0")
  case True
  then show ?thesis
    by (simp add: canonical_decimal_def show_nat.simps digit_char_def)
next
  case False
  then show ?thesis
    by (simp add: canonical_decimal_def hd_show_nat show_nat_digits)
qed

lemma read_nat_pos: "s \<noteq> [] \<Longrightarrow> hd s \<noteq> CHR ''0'' \<Longrightarrow> list_all is_digit s \<Longrightarrow> 0 < read_nat s"
proof (induction s rule: rev_induct)
  case Nil
  then show ?case by simp
next
  case (snoc c s)
  show ?case
  proof (cases "s = []")
    case True
    with snoc.prems have "is_digit c" and "c \<noteq> CHR ''0''" by auto
    then have "0 < digit_val c"
      using digit_char_val digit_char_zero digit_val_less by fastforce
    with True show ?thesis by (simp add: read_nat_def)
  next
    case False
    with snoc have "0 < read_nat s" by (simp add: hd_append)
    then show ?thesis by (simp add: read_nat_snoc)
  qed
qed

text \<open>A canonical decimal is the rendering of its own value, so no two spell one number.\<close>

lemma show_read_nat: "canonical_decimal s \<Longrightarrow> show_nat (read_nat s) = s"
proof (induction s rule: rev_induct)
  case Nil
  then show ?case by (simp add: canonical_decimal_def)
next
  case (snoc c s)
  show ?case
  proof (cases "s = []")
    case True
    with snoc.prems have "is_digit c" by (auto simp: canonical_decimal_def is_digit_def)
    then show ?thesis using True
      by (simp add: read_nat_def show_nat.simps digit_val_less digit_char_val)
  next
    case False
    with snoc.prems have c: "is_digit c" and s: "hd s \<noteq> CHR ''0''" "list_all is_digit s"
      by (auto simp: canonical_decimal_def append_eq_Cons_conv)
    have "show_nat (read_nat s) = s"
      using s False by (intro snoc.IH) (simp add: canonical_decimal_def)
    moreover have "0 < read_nat s" using False s by (rule read_nat_pos)
    ultimately show ?thesis using c
      by (simp add: read_nat_snoc show_nat.simps [of "10 * read_nat s + digit_val c"]
          digit_val_less digit_char_val)
  qed
qed

lemma is_digit_colon [simp]: "\<not> is_digit CHR '':''"
  by (simp add: is_digit_def)

lemma is_lower_hex_colon [simp]: "\<not> is_lower_hex CHR '':''"
  by (simp add: is_lower_hex_def)

lemma colon_not_digit: "list_all is_digit s \<Longrightarrow> CHR '':'' \<notin> set s"
  unfolding list_all_iff
  using is_digit_colon by blast

lemma colon_not_hex: "list_all is_lower_hex s \<Longrightarrow> CHR '':'' \<notin> set s"
  unfolding list_all_iff using is_lower_hex_colon by blast

lemma colon_show_nat [simp]: "CHR '':'' \<notin> set (show_nat n)"
  using colon_not_digit show_nat_digits by blast

text \<open>The first separator of a string splits it, as \<open>indexOf\<close> and \<open>slice\<close> do.\<close>

fun split_first :: "'a \<Rightarrow> 'a list \<Rightarrow> ('a list \<times> 'a list) option" where
  "split_first x [] = None"
| "split_first x (c # s) = (if c = x then Some ([], s)
     else map_option (\<lambda>(a, b). (c # a, b)) (split_first x s))"

lemma split_first_Some:
  "split_first x s = Some (a, b) \<longleftrightarrow> s = a @ x # b \<and> x \<notin> set a"
proof (induction s arbitrary: a)
  case Nil
  then show ?case by simp
next
  case (Cons c s)
  show ?case
  proof (cases a)
    case Nil
    then show ?thesis by (auto split: option.split)
  next
    case (Cons d a')
    then show ?thesis using Cons.IH [of a'] by auto
  qed
qed

lemma split_first_append [simp]:
  "x \<notin> set a \<Longrightarrow> split_first x (a @ x # b) = Some (a, b)"
  by (simp add: split_first_Some)

lemma append_sep_inject:
  "x \<notin> set a \<Longrightarrow> x \<notin> set b \<Longrightarrow> a @ x # r = b @ x # r' \<longleftrightarrow> a = b \<and> r = r'"
proof (induction a arbitrary: b)
  case Nil
  then show ?case by (cases b) auto
next
  case (Cons c a)
  then show ?case by (cases b) auto
qed

section \<open>Lists: sets and maps in insertion order\<close>

text \<open>\<open>[...new Set(xs)]\<close>: the first occurrence of every element, in order.\<close>

fun js_distinct :: "'a list \<Rightarrow> 'a list" where
  "js_distinct [] = []"
| "js_distinct (x # xs) = x # filter (\<lambda>y. y \<noteq> x) (js_distinct xs)"

lemma set_js_distinct [simp]: "set (js_distinct xs) = set xs"
  by (induction xs) auto

lemma distinct_js_distinct [simp]: "distinct (js_distinct xs)"
  by (induction xs) auto

lemma js_distinct_id [simp]: "distinct xs \<Longrightarrow> js_distinct xs = xs"
  by (induction xs) (auto simp: filter_id_conv)

lemma length_js_distinct [simp]: "length (js_distinct xs) = card (set xs)"
  by (metis distinct_card distinct_js_distinct set_js_distinct)

lemma js_distinct_snoc:
  "js_distinct (xs @ [x]) = js_distinct xs @ (if x \<in> set xs then [] else [x])"
  by (induction xs) auto

text \<open>\<open>tags.find((t) => t[0] === name)?.[1]\<close>: the value of the first tag of that name.\<close>

definition tag_value :: "string \<Rightarrow> tag list \<Rightarrow> string option" where
  "tag_value name tags =
     (case List.find (\<lambda>t. t \<noteq> [] \<and> hd t = name) tags of
        Some (_ # v # _) \<Rightarrow> Some v
      | _ \<Rightarrow> None)"

text \<open>\<open>xs.slice(-n)\<close> for a positive \<open>n\<close>: the last \<open>n\<close> elements.\<close>

definition slice_last :: "nat \<Rightarrow> 'a list \<Rightarrow> 'a list" where
  "slice_last n xs = drop (length xs - n) xs"

lemma length_slice_last [simp]: "length (slice_last n xs) = min n (length xs)"
  by (simp add: slice_last_def)

lemma set_slice_last: "set (slice_last n xs) \<subseteq> set xs"
  by (simp add: slice_last_def set_drop_subset)

lemma slice_last_id [simp]: "length xs \<le> n \<Longrightarrow> slice_last n xs = xs"
  by (simp add: slice_last_def)

lemma distinct_slice_last [simp]: "distinct xs \<Longrightarrow> distinct (slice_last n xs)"
  by (simp add: slice_last_def)

text \<open>\<open>xs.find(p)\<close> is \<open>List.find\<close>; \<open>xs.some(p)\<close> is \<open>list_ex\<close>; \<open>xs.every(p)\<close> is \<open>list_all\<close>.\<close>

lemma find_Some_in: "List.find P xs = Some x \<Longrightarrow> x \<in> set xs \<and> P x"
  by (auto simp: find_Some_iff)

lemma find_ex: "(\<exists>x\<in>set xs. P x) \<Longrightarrow> \<exists>x. List.find P xs = Some x"
  using find_None_iff2 [of P xs] by (cases "List.find P xs") auto

section \<open>Trimming\<close>

text \<open>
  The UTF-8 forms of the white space and line terminators \<open>trim()\<close> removes: TAB, LF, VT,
  FF, CR, SP, U+00A0, U+1680, U+2000 to U+200A, U+2028, U+2029, U+202F, U+205F, U+3000, U+FEFF.
\<close>

definition js_whitespace :: "string list" where
  "js_whitespace =
     map (map char_of)
       ([[9], [10], [11], [12], [13], [32], [194, 160], [225, 154, 128 :: nat]]
        @ map (\<lambda>b. [226, 128, b]) ([128..<139] @ [168, 169, 175])
        @ [[226, 129, 159], [227, 128, 128], [239, 187, 191]])"

fun strip_fuel :: "nat \<Rightarrow> string list \<Rightarrow> string \<Rightarrow> string" where
  "strip_fuel 0 ws s = s"
| "strip_fuel (Suc n) ws s =
     (case List.find (\<lambda>w. w = take (length w) s) ws of
        None \<Rightarrow> s
      | Some w \<Rightarrow> strip_fuel n ws (drop (length w) s))"

text \<open>Each round removes a non-empty prefix, so \<open>length s\<close> rounds always suffice.\<close>

definition js_trim_start :: "string \<Rightarrow> string" where
  "js_trim_start s = strip_fuel (length s) js_whitespace s"

definition js_trim_end :: "string \<Rightarrow> string" where
  "js_trim_end s = rev (strip_fuel (length s) (map rev js_whitespace) (rev s))"

definition js_trim :: "string \<Rightarrow> string" where
  "js_trim s = js_trim_end (js_trim_start s)"

section \<open>The stable sort\<close>

text \<open>
  \<open>xs.sort(cmp)\<close> as insertion sort with \<open>le a b\<close> for \<open>cmp(a, b) <= 0\<close>; equal
  elements keep their order, as the language guarantees.
\<close>

fun insort_by :: "('a \<Rightarrow> 'a \<Rightarrow> bool) \<Rightarrow> 'a \<Rightarrow> 'a list \<Rightarrow> 'a list" where
  "insort_by le x [] = [x]"
| "insort_by le x (y # ys) = (if le x y then x # y # ys else y # insort_by le x ys)"

definition sort_by :: "('a \<Rightarrow> 'a \<Rightarrow> bool) \<Rightarrow> 'a list \<Rightarrow> 'a list" where
  "sort_by le xs = foldr (insort_by le) xs []"

lemma sort_by_simps [simp]:
  "sort_by le [] = []" "sort_by le (x # xs) = insort_by le x (sort_by le xs)"
  by (simp_all add: sort_by_def)

lemma mset_insort_by [simp]: "mset (insort_by le x xs) = add_mset x (mset xs)"
  by (induction xs) auto

lemma mset_sort_by [simp]: "mset (sort_by le xs) = mset xs"
  by (induction xs) auto

lemma set_sort_by [simp]: "set (sort_by le xs) = set xs"
  by (metis mset_sort_by set_mset_mset)

lemma length_sort_by [simp]: "length (sort_by le xs) = length xs"
  by (metis mset_sort_by size_mset)

lemma distinct_sort_by [simp]: "distinct (sort_by le xs) = distinct xs"
  by (metis mset_sort_by mset_eq_imp_distinct_iff)

definition total_preorder :: "('a \<Rightarrow> 'a \<Rightarrow> bool) \<Rightarrow> bool" where
  "total_preorder le \<longleftrightarrow> (\<forall>x y. le x y \<or> le y x) \<and> (\<forall>x y z. le x y \<longrightarrow> le y z \<longrightarrow> le x z)"

lemma set_insort_by [simp]: "set (insort_by le x xs) = insert x (set xs)"
  by (metis mset_insort_by set_mset_add_mset_insert set_mset_mset)

lemma sorted_insort_by:
  "total_preorder le \<Longrightarrow> sorted_wrt le xs \<Longrightarrow> sorted_wrt le (insort_by le x xs)"
  by (induction xs) (auto simp: total_preorder_def; blast)+

lemma sorted_sort_by: "total_preorder le \<Longrightarrow> sorted_wrt le (sort_by le xs)"
  by (induction xs) (auto intro: sorted_insort_by)

text \<open>Sorting by an order that is antisymmetric on the elements depends on the multiset only.\<close>

lemma sorted_wrt_unique:
  assumes "\<And>x y. x \<in> set xs \<Longrightarrow> y \<in> set xs \<Longrightarrow> le x y \<Longrightarrow> le y x \<Longrightarrow> x = y"
    and "sorted_wrt le xs" "sorted_wrt le ys" "mset xs = mset ys"
  shows "xs = ys"
  using assms
proof (induction xs arbitrary: ys)
  case Nil
  then show ?case by simp
next
  case (Cons x xs)
  from Cons.prems(4) obtain y zs where ys: "ys = y # zs" by (cases ys) auto
  have sets: "set ys = set (x # xs)" using Cons.prems(4) mset_eq_setD by metis
  have "x = y"
  proof (rule ccontr)
    assume "x \<noteq> y"
    with sets ys have "x \<in> set zs" "y \<in> set xs" by auto
    with Cons.prems(2,3) ys have "le y x" "le x y" by auto
    with \<open>x \<noteq> y\<close> \<open>y \<in> set xs\<close> show False using Cons.prems(1) [of x y] by simp
  qed
  moreover have "xs = zs"
    using Cons.prems ys \<open>x = y\<close> by (intro Cons.IH) auto
  ultimately show ?case using ys by simp
qed

lemma sort_by_cong:
  assumes "total_preorder le" "mset xs = mset ys"
    and "\<And>x y. x \<in> set xs \<Longrightarrow> y \<in> set xs \<Longrightarrow> le x y \<Longrightarrow> le y x \<Longrightarrow> x = y"
  shows "sort_by le xs = sort_by le ys"
  by (rule sorted_wrt_unique [where le = le]) (use assms in \<open>auto simp: sorted_sort_by\<close>)

lemma sort_by_id [simp]: "sorted_wrt le xs \<Longrightarrow> sort_by le xs = xs"
proof (induction xs)
  case (Cons x xs)
  then show ?case by (cases xs) auto
qed simp

section \<open>Tables\<close>

text \<open>
  \<open>UPDATE t SET ... WHERE P\<close> and \<open>DELETE FROM t WHERE P\<close>; the \<open>changes\<close> count of either
  is the number of rows that satisfy \<open>P\<close>.
\<close>

definition update_where :: "('r \<Rightarrow> bool) \<Rightarrow> ('r \<Rightarrow> 'r) \<Rightarrow> 'r list \<Rightarrow> 'r list" where
  "update_where P f t = map (\<lambda>r. if P r then f r else r) t"

definition delete_where :: "('r \<Rightarrow> bool) \<Rightarrow> 'r list \<Rightarrow> 'r list" where
  "delete_where P t = filter (\<lambda>r. \<not> P r) t"

definition count_where :: "('r \<Rightarrow> bool) \<Rightarrow> 'r list \<Rightarrow> nat" where
  "count_where P t = length (filter P t)"

lemma length_update_where [simp]: "length (update_where P f t) = length t"
  by (simp add: update_where_def)

lemma update_where_Nil [simp]: "update_where P f [] = []"
  by (simp add: update_where_def)

lemma update_where_Cons [simp]:
  "update_where P f (r # t) = (if P r then f r else r) # update_where P f t"
  by (simp add: update_where_def)

lemma delete_where_simps [simp]:
  "delete_where P [] = []"
  "delete_where P (r # t) = (if P r then delete_where P t else r # delete_where P t)"
  by (simp_all add: delete_where_def)

lemma count_where_simps [simp]:
  "count_where P [] = 0"
  "count_where P (r # t) = (if P r then Suc (count_where P t) else count_where P t)"
  by (simp_all add: count_where_def)

lemma count_where_append [simp]: "count_where P (t @ u) = count_where P t + count_where P u"
  by (simp add: count_where_def)

lemma set_update_where:
  "set (update_where P f t) = f ` {r \<in> set t. P r} \<union> {r \<in> set t. \<not> P r}"
  by (auto simp: update_where_def)

lemma set_delete_where [simp]: "set (delete_where P t) = {r \<in> set t. \<not> P r}"
  by (auto simp: delete_where_def)

lemma count_where_zero [simp]: "count_where P t = 0 \<longleftrightarrow> (\<forall>r\<in>set t. \<not> P r)"
  by (induction t) auto

lemma count_where_pos: "0 < count_where P t \<longleftrightarrow> (\<exists>r\<in>set t. P r)"
  by (induction t) auto

lemma update_where_id: "(\<And>r. r \<in> set t \<Longrightarrow> \<not> P r) \<Longrightarrow> update_where P f t = t"
  by (induction t) auto

lemma map_update_where_frame:
  "(\<And>r. g (f r) = g r) \<Longrightarrow> map g (update_where P f t) = map g t"
  by (induction t) auto

lemma count_where_le: "(\<And>r. r \<in> set t \<Longrightarrow> P r \<Longrightarrow> Q r) \<Longrightarrow> count_where P t \<le> count_where Q t"
  by (induction t) (auto intro: le_SucI)

lemma count_where_cong:
  "(\<And>r. r \<in> set t \<Longrightarrow> P r = Q r) \<Longrightarrow> count_where P t = count_where Q t"
  by (induction t) auto

lemma count_update_where_frame:
  "(\<And>r. Q (f r) = Q r) \<Longrightarrow> count_where Q (update_where P f t) = count_where Q t"
  by (induction t) auto

lemma count_where_card:
  "distinct (map g t) \<Longrightarrow> count_where P t = card (g ` {r \<in> set t. P r})"
proof (induction t)
  case Nil
  then show ?case by simp
next
  case (Cons r t)
  show ?case
  proof (cases "P r")
    case True
    then have "{x \<in> set (r # t). P x} = insert r {x \<in> set t. P x}" by auto
    moreover from Cons.prems have "g r \<notin> g ` {x \<in> set t. P x}" by auto
    ultimately show ?thesis using True Cons by simp
  next
    case False
    then have "{x \<in> set (r # t). P x} = {x \<in> set t. P x}" by auto
    then show ?thesis using False Cons by simp
  qed
qed

lemmas table_simps = set_update_where update_where_id

end
