(* ===== verification/Ordering.thy ===== *)
theory Ordering
  imports Prelude
begin

text \<open>
  The latest-event rule (\<open>packages/protocol/src/ordering.ts\<close>) and the relay deduper that
  rests on it (\<open>packages/app/src/lib/nostr/dedupe.ts\<close>).

  The locale \<open>latest_wins\<close> is the contract every replacement rule of the program keeps: a
  strict order, total on distinct keys. What the program needs of such a rule, that the
  surviving element depends on the set of deliveries and not on their order or multiplicity,
  is proved once inside it and used through its interpretations.
\<close>

section \<open>The contract of a replacement rule\<close>

locale latest_wins =
  fixes beats :: "'a \<Rightarrow> 'a \<Rightarrow> bool"
    and rank :: "'a \<Rightarrow> 'k"
  assumes beats_irrefl: "rank x = rank y \<Longrightarrow> \<not> beats x y"
    and beats_trans: "beats x y \<Longrightarrow> beats y z \<Longrightarrow> beats x z"
    and beats_total: "rank x \<noteq> rank y \<Longrightarrow> beats x y \<or> beats y x"
begin

definition deliver :: "'a \<Rightarrow> 'a list \<Rightarrow> 'a" where
  "deliver cur xs = foldl (\<lambda>b x. if beats x b then x else b) cur xs"

lemma deliver_simps [simp]:
  "deliver cur [] = cur"
  "deliver cur (x # xs) = deliver (if beats x cur then x else cur) xs"
  by (simp_all add: deliver_def)

lemma beats_asym: "beats x y \<Longrightarrow> \<not> beats y x"
  using beats_irrefl beats_trans by blast

lemma not_beats_trans: "\<not> beats x y \<Longrightarrow> \<not> beats y z \<Longrightarrow> \<not> beats x z"
  by (metis beats_asym beats_total beats_trans beats_irrefl)

lemma deliver_in: "deliver cur xs \<in> insert cur (set xs)"
proof (induction xs arbitrary: cur)
  case (Cons x xs)
  show ?case using Cons.IH [of "if beats x cur then x else cur"] by (auto split: if_splits)
qed simp

lemma deliver_unbeaten: "x \<in> insert cur (set xs) \<Longrightarrow> \<not> beats x (deliver cur xs)"
proof (induction xs arbitrary: cur x)
  case Nil
  then show ?case using beats_irrefl by auto
next
  case (Cons y ys)
  let ?c = "if beats y cur then y else cur"
  have step: "z \<in> insert ?c (set ys) \<Longrightarrow> \<not> beats z (deliver ?c ys)" for z
    by (rule Cons.IH)
  have c: "\<not> beats ?c (deliver ?c ys)" by (rule step) simp
  show ?case
  proof (cases "x \<in> insert ?c (set ys)")
    case True
    with step show ?thesis by simp
  next
    case False
    with Cons.prems have "x = cur \<or> x = y" by auto
    with False have "\<not> beats x ?c"
      using beats_asym beats_irrefl by (auto split: if_splits)
    then show ?thesis using not_beats_trans [OF _ c] by simp
  qed
qed

lemma unbeaten_rank:
  "\<not> beats x y \<Longrightarrow> \<not> beats y x \<Longrightarrow> rank x = rank y"
  using beats_total by blast

text \<open>Order and multiplicity of the deliveries do not matter.\<close>

lemma deliver_order_irrelevant:
  assumes "insert c (set xs) = insert d (set ys)"
  shows "rank (deliver c xs) = rank (deliver d ys)"
  using assms deliver_in deliver_unbeaten unbeaten_rank by metis

lemma deliver_idempotent: "deliver (deliver c xs) xs = deliver c xs"
proof -
  have "deliver d ys = d" if "\<forall>x\<in>set ys. \<not> beats x d" for d ys
    using that by (induction ys arbitrary: d) auto
  then show ?thesis using deliver_unbeaten by simp
qed

end

section \<open>The latest-event rule\<close>

text \<open>\<open>OrderableEvent\<close>; records with more fields extend it, as the generic code allows.\<close>

record orderable =
  ev_id :: string
  ev_created :: "int option"

definition created_or_0 :: "'r orderable_scheme \<Rightarrow> int" where
  "created_or_0 e = (case ev_created e of None \<Rightarrow> 0 | Some c \<Rightarrow> c)"

definition compareLatest :: "'r orderable_scheme \<Rightarrow> 's orderable_scheme \<Rightarrow> int" where
  "compareLatest a b =
     (let ca = created_or_0 a; cb = created_or_0 b
      in if ca \<noteq> cb then cb - ca
         else if ev_id a < ev_id b then -1
         else if ev_id a > ev_id b then 1
         else 0)"

definition supersedes :: "'r orderable_scheme \<Rightarrow> 's orderable_scheme \<Rightarrow> bool" where
  "supersedes candidate current \<longleftrightarrow> compareLatest candidate current < 0"

fun pickLatest_loop :: "'r orderable_scheme option \<Rightarrow> 'r orderable_scheme list \<Rightarrow> 'r orderable_scheme option" where
  "pickLatest_loop best [] = best"
| "pickLatest_loop best (e # es) =
     pickLatest_loop (case best of None \<Rightarrow> Some e
                      | Some b \<Rightarrow> if supersedes e b then Some e else Some b) es"

definition pickLatest :: "'r orderable_scheme list \<Rightarrow> 'r orderable_scheme option" where
  "pickLatest events = pickLatest_loop None events"

definition event_rank :: "'r orderable_scheme \<Rightarrow> int \<times> string" where
  "event_rank e = (created_or_0 e, ev_id e)"

lemma supersedes_iff:
  "supersedes a b \<longleftrightarrow> created_or_0 a > created_or_0 b
     \<or> created_or_0 a = created_or_0 b \<and> ev_id a < ev_id b"
  by (auto simp: supersedes_def compareLatest_def Let_def)

interpretation latest: latest_wins "supersedes :: 'r orderable_scheme \<Rightarrow> 'r orderable_scheme \<Rightarrow> bool" event_rank
  by unfold_locales (auto simp: supersedes_iff event_rank_def)

lemma pickLatest_loop_Some: "pickLatest_loop (Some b) es = Some (latest.deliver b es)"
  by (induction es arbitrary: b) auto

lemma pickLatest_simps [simp]:
  "pickLatest [] = None"
  "pickLatest (e # es) = Some (latest.deliver e es)"
  by (simp_all add: pickLatest_def pickLatest_loop_Some)

lemma pickLatest_None [simp]: "pickLatest es = None \<longleftrightarrow> es = []"
  by (cases es) auto

lemma pickLatest_SomeD:
  assumes "pickLatest es = Some w"
  shows "w \<in> set es" and "e \<in> set es \<Longrightarrow> \<not> supersedes e w"
proof -
  from assms obtain d ds where "es = d # ds" and w: "w = latest.deliver d ds" by (cases es) auto
  then show "w \<in> set es" using latest.deliver_in [of d ds] by simp
  assume "e \<in> set es"
  with \<open>es = d # ds\<close> w show "\<not> supersedes e w"
    using latest.deliver_unbeaten [of e d ds] by simp
qed

lemma pickLatest_snoc:
  "pickLatest (es @ [e]) =
     (case pickLatest es of None \<Rightarrow> Some e
      | Some b \<Rightarrow> if supersedes e b then Some e else Some b)"
proof (cases es)
  case (Cons d ds)
  have "latest.deliver c (xs @ [e]) =
      (if supersedes e (latest.deliver c xs) then e else latest.deliver c xs)" for c xs
    by (simp add: latest.deliver_def)
  with Cons show ?thesis by simp
qed simp

section \<open>Revisioned submissions\<close>

record revision_key =
  rk_rev :: int
  rk_created_at :: int
  rk_id :: string

definition revisionSupersedes :: "revision_key \<Rightarrow> revision_key \<Rightarrow> bool" where
  "revisionSupersedes candidate current =
     (if rk_rev candidate \<noteq> rk_rev current then rk_rev candidate > rk_rev current
      else if rk_created_at candidate \<noteq> rk_created_at current
      then rk_created_at candidate > rk_created_at current
      else rk_id candidate < rk_id current)"

interpretation revision: latest_wins revisionSupersedes "\<lambda>k. k"
proof unfold_locales
  show "x = y \<Longrightarrow> \<not> revisionSupersedes x y" for x y
    by (simp add: revisionSupersedes_def)
  show "revisionSupersedes x y \<Longrightarrow> revisionSupersedes y z \<Longrightarrow> revisionSupersedes x z" for x y z
    by (auto simp: revisionSupersedes_def split: if_splits)
  show "x \<noteq> y \<Longrightarrow> revisionSupersedes x y \<or> revisionSupersedes y x" for x y :: revision_key
    by (cases x; cases y) (auto simp: revisionSupersedes_def)
qed

section \<open>The streaming deduper\<close>

record minimal_event = orderable +
  me_kind :: int
  me_pubkey :: pubkey
  me_tags :: "tag list"

definition replaceableKey :: "'r minimal_event_scheme \<Rightarrow> string option" where
  "replaceableKey e =
     (let k = me_kind e
      in if k = 0 \<or> k = 3 \<or> (k \<ge> 10000 \<and> k < 20000)
         then Some (show_int k @ '':'' @ me_pubkey e)
         else if k \<ge> 30000 \<and> k < 40000
         then (let d = (case tag_value ''d'' (me_tags e) of None \<Rightarrow> [] | Some v \<Rightarrow> v)
               in Some (show_int k @ '':'' @ me_pubkey e @ '':'' @ d))
         else None)"

text \<open>\<open>EventDeduper\<close>: \<open>seenIds\<close> and \<open>latest\<close> in insertion order, and \<open>regular\<close>.\<close>

record 'e deduper =
  seenIds :: "string list"
  latest_map :: "(string \<times> 'e) list"
  regular :: "'e list"

definition new_deduper :: "'e deduper" where
  "new_deduper = \<lparr>seenIds = [], latest_map = [], regular = []\<rparr>"

definition accept_event ::
  "'r minimal_event_scheme \<Rightarrow> 'r minimal_event_scheme deduper
   \<Rightarrow> bool \<times> 'r minimal_event_scheme deduper" where
  "accept_event e s =
     (if ev_id e \<in> set (seenIds s) then (False, s)
      else let s = s\<lparr>seenIds := seenIds s @ [ev_id e]\<rparr>
           in case replaceableKey e of
                None \<Rightarrow> (True, s\<lparr>regular := regular s @ [e]\<rparr>)
              | Some key \<Rightarrow>
                  (case map_of (latest_map s) key of
                     Some prev \<Rightarrow>
                       if \<not> supersedes e prev then (False, s)
                       else (True, s\<lparr>latest_map := AList.update key e (latest_map s)\<rparr>)
                   | None \<Rightarrow> (True, s\<lparr>latest_map := AList.update key e (latest_map s)\<rparr>)))"

definition snapshot :: "'e deduper \<Rightarrow> 'e list" where
  "snapshot s = regular s @ map snd (latest_map s)"

definition accept_stream ::
  "'r minimal_event_scheme list \<Rightarrow> 'r minimal_event_scheme deduper" where
  "accept_stream es = foldl (\<lambda>s e. snd (accept_event e s)) new_deduper es"

lemma accept_stream_snoc:
  "accept_stream (es @ [e]) = snd (accept_event e (accept_stream es))"
  by (simp add: accept_stream_def)

lemma pickLatest_snoc_mem: "e \<in> set es \<Longrightarrow> pickLatest (es @ [e]) = pickLatest es"
  by (auto simp: pickLatest_snoc dest: pickLatest_SomeD split: option.split)

text \<open>An id is the hash of the event it names, so it determines the event.\<close>

definition ids_determine :: "'r orderable_scheme list \<Rightarrow> bool" where
  "ids_determine es \<longleftrightarrow> (\<forall>a\<in>set es. \<forall>b\<in>set es. ev_id a = ev_id b \<longrightarrow> a = b)"

lemma ids_determine_appendD [dest]: "ids_determine (es @ fs) \<Longrightarrow> ids_determine es"
  by (simp add: ids_determine_def)

lemma accept_stream_inv:
  assumes "ids_determine es"
  shows "set (seenIds (accept_stream es)) = ev_id ` set es
    \<and> regular (accept_stream es) = js_distinct (filter (\<lambda>e. replaceableKey e = None) es)
    \<and> map_of (latest_map (accept_stream es)) =
        (\<lambda>k. pickLatest (filter (\<lambda>e. replaceableKey e = Some k) es))"
  using assms
proof (induction es rule: rev_induct)
  case Nil
  then show ?case by (simp add: accept_stream_def new_deduper_def)
next
  case (snoc e es)
  let ?s = "accept_stream es"
  from snoc have IH: "set (seenIds ?s) = ev_id ` set es"
    "regular ?s = js_distinct (filter (\<lambda>e. replaceableKey e = None) es)"
    "map_of (latest_map ?s) = (\<lambda>k. pickLatest (filter (\<lambda>e. replaceableKey e = Some k) es))"
    by blast+
  show ?case
  proof (cases "e \<in> set es")
    case True
    then have "ev_id e \<in> set (seenIds ?s)" using IH(1) by simp
    then have "accept_stream (es @ [e]) = ?s"
      by (simp add: accept_stream_snoc accept_event_def)
    with True IH show ?thesis
      by (auto simp: js_distinct_snoc pickLatest_snoc_mem fun_eq_iff)
  next
    case False
    then have "ev_id e \<notin> set (seenIds ?s)"
      using IH(1) snoc.prems by (auto simp: ids_determine_def)
    with False IH show ?thesis
      by (auto simp: accept_stream_snoc accept_event_def Let_def js_distinct_snoc
          pickLatest_snoc update_conv fun_eq_iff split: option.split)
  qed
qed

section \<open>Properties\<close>

lemma ids_determine_rank:
  assumes "ids_determine es" "x \<in> set es" "y \<in> set es" "event_rank x = event_rank y"
  shows "x = y"
  using assms by (simp add: ids_determine_def event_rank_def)

lemma pickLatest_set_cong:
  assumes "ids_determine xs" "set xs = set ys"
  shows "pickLatest xs = pickLatest ys"
proof (cases "pickLatest xs")
  case None
  with assms show ?thesis by (metis pickLatest_None set_empty)
next
  case (Some w)
  with assms obtain v where v: "pickLatest ys = Some v"
    by (metis not_None_eq pickLatest_None set_empty2)
  have "\<not> supersedes v w" "\<not> supersedes w v"
    using pickLatest_SomeD Some v assms(2) by metis+
  then have "event_rank w = event_rank v" using latest.unbeaten_rank by metis
  moreover have "w \<in> set xs" "v \<in> set xs" using pickLatest_SomeD(1) Some v assms(2) by metis+
  ultimately show ?thesis using ids_determine_rank assms(1) Some v by metis
qed

text \<open>
  Two readers that hold the same set of events, whatever the order in which the relays
  returned them and however often each was repeated, pick the same current event: no event of
  the set supersedes it. An id is the hash of its event, hence the hypothesis that ids
  determine events.
\<close>

theorem pickLatest_order_independent:
  assumes "ids_determine xs" "set xs = set ys" "xs \<noteq> []"
  shows "\<exists>w. pickLatest xs = Some w \<and> pickLatest ys = Some w \<and> w \<in> set ys
    \<and> \<not> (\<exists>e. e \<in> set ys \<and> supersedes e w)"
proof -
  from assms(3) obtain w where w: "pickLatest xs = Some w"
    by (metis not_None_eq pickLatest_None)
  then show ?thesis using pickLatest_set_cong [OF assms(1,2)] pickLatest_SomeD assms(2) by metis
qed

lemma pickLatest_order_independent_witness:
  "\<exists>w. pickLatest [\<lparr>ev_id = ''b'', ev_created = Some 5\<rparr>, \<lparr>ev_id = ''a'', ev_created = Some 5\<rparr>] = Some w
     \<and> pickLatest [\<lparr>ev_id = ''a'', ev_created = Some 5\<rparr>, \<lparr>ev_id = ''b'', ev_created = Some 5\<rparr>] = Some w
     \<and> w \<in> set [\<lparr>ev_id = ''a'', ev_created = Some 5\<rparr>, \<lparr>ev_id = ''b'', ev_created = Some 5\<rparr>]
     \<and> \<not> (\<exists>e. e \<in> set [\<lparr>ev_id = ''a'', ev_created = Some 5\<rparr>, \<lparr>ev_id = ''b'', ev_created = Some 5\<rparr>]
            \<and> supersedes e w)"
  by (rule pickLatest_order_independent) (auto simp: ids_determine_def)

text \<open>
  The streaming deduper retains, for every replaceable address, exactly the event the
  fetch path's \<open>pickLatest\<close> would choose among all the events streamed for that address, and
  every regular event exactly once in arrival order.
\<close>

theorem deduper_retains_latest:
  assumes "ids_determine es"
  shows "map_of (latest_map (accept_stream es)) k =
           pickLatest (filter (\<lambda>e. replaceableKey e = Some k) es)
    \<and> regular (accept_stream es) = js_distinct (filter (\<lambda>e. replaceableKey e = None) es)"
  using accept_stream_inv [OF assms] by (simp_all add: fun_eq_iff)

lemma deduper_retains_latest_witness:
  "let cfg = \<lambda>i c. \<lparr>ev_id = i, ev_created = Some c, me_kind = 31600, me_pubkey = ''e'',
                     me_tags = [[''d'', ''x'']]\<rparr>
   in map_of (latest_map (accept_stream [cfg ''a'' 1, cfg ''c'' 2, cfg ''b'' 2])) ''31600:e:x''
      = Some (cfg ''b'' 2)"
  unfolding Let_def
  by (subst deduper_retains_latest [THEN conjunct1])
    (auto simp: ids_determine_def replaceableKey_def tag_value_def show_int_def show_nat.simps
       digit_char_def Let_def supersedes_def compareLatest_def created_or_0_def)

end
