(* ===== verification/Json.thy ===== *)
theory Json
  imports Prelude
begin

text \<open>
  \<open>JSON.stringify\<close> of the values the sources serialize: objects in field order, arrays,
  strings, integers and booleans. Strings are UTF-8 bytes, so the length of the rendering is
  the byte count that \<open>utf8ByteLength(JSON.stringify(x))\<close> measures. The lemmas show that the
  rendering of a string can be read back and never runs into what follows it, which is what
  the hashed messages of the protocol rely on.
\<close>

datatype json =
    JNull
  | JBool bool
  | JInt int
  | JStr string
  | JArr "json list"
  | JObj "(string \<times> json) list"

definition hex_digit :: "nat \<Rightarrow> char" where
  "hex_digit d = ''0123456789abcdef'' ! d"

text \<open>The escapes: the short forms, \<open>\u00XX\<close> for the other control characters, else itself.\<close>

definition json_escape :: "char \<Rightarrow> string" where
  "json_escape c =
     (if c = CHR 34 then [CHR 92, CHR 34]
      else if c = CHR 92 then [CHR 92, CHR 92]
      else if c = CHR 8 then [CHR 92, CHR ''b'']
      else if c = CHR 9 then [CHR 92, CHR ''t'']
      else if c = CHR 10 then [CHR 92, CHR ''n'']
      else if c = CHR 12 then [CHR 92, CHR ''f'']
      else if c = CHR 13 then [CHR 92, CHR ''r'']
      else let n = of_char c :: nat
           in if n < 32
              then [CHR 92, CHR ''u'', CHR ''0'', CHR ''0'', hex_digit (n div 16), hex_digit (n mod 16)]
              else [c])"

definition json_quote :: "string \<Rightarrow> string" where
  "json_quote s = CHR 34 # concat (map json_escape s) @ [CHR 34]"

fun js_join :: "string \<Rightarrow> string list \<Rightarrow> string" where
  "js_join sep [] = []"
| "js_join sep [x] = x"
| "js_join sep (x # y # ys) = x @ sep @ js_join sep (y # ys)"

fun stringify :: "json \<Rightarrow> string" where
  "stringify JNull = ''null''"
| "stringify (JBool b) = (if b then ''true'' else ''false'')"
| "stringify (JInt i) = show_int i"
| "stringify (JStr s) = json_quote s"
| "stringify (JArr xs) = ''['' @ js_join '','' (map stringify xs) @ '']''"
| "stringify (JObj fs) =
     ''{'' @ js_join '','' (map (\<lambda>(k, v). json_quote k @ '':'' @ stringify v) fs) @ ''}''"

section \<open>Lengths\<close>

text \<open>\<open>utf8ByteLength\<close> of a rendering.\<close>

definition json_bytes :: "json \<Rightarrow> nat" where
  "json_bytes v = length (stringify v)"

lemma length_js_join:
  "xs \<noteq> [] \<Longrightarrow> length (js_join sep xs) + length sep = sum_list (map length xs) + length sep * length xs"
  by (induction sep xs rule: js_join.induct) auto

lemma length_js_join_comma:
  "length (js_join [c] xs) = sum_list (map length xs) + (length xs - 1)"
  using length_js_join [of xs "[c]"] by (cases xs) auto

section \<open>Reading an escaped string back\<close>

definition hex_value :: "char \<Rightarrow> nat" where
  "hex_value c = (let n = of_char c in if n < 58 then n - 48 else n - 87)"

fun json_unescape :: "string \<Rightarrow> (char \<times> string) option" where
  "json_unescape [] = None"
| "json_unescape (c # s) =
     (if c = CHR 34 then None
      else if c \<noteq> CHR 92 then Some (c, s)
      else case s of
             [] \<Rightarrow> None
           | d # r \<Rightarrow>
               if d = CHR ''b'' then Some (CHR 8, r)
               else if d = CHR ''t'' then Some (CHR 9, r)
               else if d = CHR ''n'' then Some (CHR 10, r)
               else if d = CHR ''f'' then Some (CHR 12, r)
               else if d = CHR ''r'' then Some (CHR 13, r)
               else if d = CHR ''u''
               then (case r of a # b # h # l # q \<Rightarrow> Some (char_of (16 * hex_value h + hex_value l), q)
                     | _ \<Rightarrow> None)
               else Some (d, r))"

lemma hex_value_digit: "d < 16 \<Longrightarrow> hex_value (hex_digit d) = d"
proof -
  assume "d < 16"
  then have "d \<in> set [0..<16]" by simp
  then show ?thesis by (auto simp: upt_rec_numeral hex_value_def hex_digit_def numeral_eq_Suc)
qed

lemma unescape_escape: "json_unescape (json_escape c @ r) = Some (c, r)"
proof -
  consider "c \<in> {CHR 34, CHR 92, CHR 8, CHR 9, CHR 10, CHR 12, CHR 13}"
    | "c \<notin> {CHR 34, CHR 92, CHR 8, CHR 9, CHR 10, CHR 12, CHR 13}" "of_char c < (32::nat)"
    | "c \<notin> {CHR 34, CHR 92, CHR 8, CHR 9, CHR 10, CHR 12, CHR 13}" "\<not> of_char c < (32::nat)"
    by blast
  then show ?thesis
  proof cases
    case 1
    then show ?thesis by (elim insertE emptyE) (simp_all add: json_escape_def)
  next
    case 2
    then have "json_escape c =
        [CHR 92, CHR ''u'', CHR ''0'', CHR ''0'', hex_digit (of_char c div 16), hex_digit (of_char c mod 16)]"
      by (simp add: json_escape_def Let_def)
    with 2 show ?thesis by (simp add: hex_value_digit)
  next
    case 3
    then show ?thesis by (simp add: json_escape_def Let_def)
  qed
qed

lemma json_escape_neq_quote: "hd (json_escape c) \<noteq> CHR 34" "json_escape c \<noteq> []"
  by (auto simp: json_escape_def Let_def)

lemma json_quote_inject:
  "json_quote s @ r = json_quote s' @ r' \<longleftrightarrow> s = s' \<and> r = r'"
proof -
  have "concat (map json_escape s) @ CHR 34 # r = concat (map json_escape s') @ CHR 34 # r'
      \<Longrightarrow> s = s' \<and> r = r'"
  proof (induction s arbitrary: s')
    case Nil
    then show ?case
      using json_escape_neq_quote by (cases s') (auto, metis hd_append2 list.sel(1))
  next
    case (Cons c s)
    show ?case
    proof (cases s')
      case Nil
      with Cons.prems show ?thesis
        using json_escape_neq_quote by (simp, metis hd_append2 list.sel(1))
    next
      case (Cons d s'')
      from Cons.prems \<open>s' = d # s''\<close>
      have "Some (c, concat (map json_escape s) @ CHR 34 # r)
          = Some (d, concat (map json_escape s'') @ CHR 34 # r')"
        by (metis append.assoc concat.simps(2) list.simps(9) unescape_escape)
      then show ?thesis using Cons.IH \<open>s' = d # s''\<close> by blast
    qed
  qed
  then show ?thesis by (auto simp: json_quote_def)
qed

text \<open>An array of strings determines the strings: no two lists share a rendering.\<close>

lemma js_join_quote_inject:
  "js_join '','' (map json_quote xs) @ CHR '']'' # r = js_join '','' (map json_quote ys) @ CHR '']'' # r'
   \<Longrightarrow> xs = ys"
proof (induction xs arbitrary: ys)
  case Nil
  then show ?case
    by (cases ys; cases "tl ys") (auto simp: json_quote_def)
next
  case (Cons x xs)
  obtain y ys' where ys: "ys = y # ys'"
    using Cons.prems by (cases ys; cases xs) (auto simp: json_quote_def)
  define f where "f zs = (if zs = [] then [] else CHR '','' # js_join '','' (map json_quote zs))" for zs
  have step: "js_join '','' (map json_quote (z # zs)) = json_quote z @ f zs" for z zs
    by (cases zs) (simp_all add: f_def)
  from Cons.prems have "x = y" and tl: "f xs @ CHR '']'' # r = f ys' @ CHR '']'' # r'"
    unfolding ys step append.assoc json_quote_inject by simp_all
  from tl have "xs = ys'"
    by (cases "xs = []"; cases "ys' = []") (auto simp: f_def dest: Cons.IH)
  with \<open>x = y\<close> ys show ?case by simp
qed

lemma stringify_strings_inject:
  "stringify (JArr (map JStr xs)) = stringify (JArr (map JStr ys)) \<longleftrightarrow> xs = ys"
  using js_join_quote_inject [of xs "[]" ys "[]"] by (auto simp: comp_def)

end
