(* ===== verification/Coordinate.thy ===== *)
theory Coordinate
  imports Json
begin

text \<open>
  Space coordinates (\<open>packages/protocol/src/coordinate.ts\<close>), the space hierarchy with its
  membership proofs (\<open>hierarchy.ts\<close>) and the invite proofs (\<open>crypto.ts\<close>).

  \<open>sha256\<close>, the BIP-340 \<open>schnorr.sign\<close> and \<open>schnorr.verify\<close>, \<open>getPublicKey\<close> and the NIP-19
  codec are third-party packages: they are arguments of the definitions that call them. A
  signature that \<open>verify\<close> cannot parse makes the code return \<open>false\<close>; the argument is the
  resulting predicate.
\<close>

section \<open>Kinds and coordinates\<close>

definition KIND_CALENDAR_EVENT :: nat where "KIND_CALENDAR_EVENT = 31923"
definition KIND_COMMUNITY :: nat where "KIND_COMMUNITY = 31612"

record event_coordinate =
  co_kind :: nat
  co_pubkey :: pubkey
  co_identifier :: string

datatype coord_error =
    InvalidCoordinate string
  | NotSpaceCoordinate nat string
  | NotAnNaddr

definition SPACE_KINDS :: "nat list" where
  "SPACE_KINDS = [KIND_CALENDAR_EVENT, KIND_COMMUNITY]"

definition makeCoordinate :: "pubkey \<Rightarrow> string \<Rightarrow> nat \<Rightarrow> string" where
  "makeCoordinate pk d kind = show_nat kind @ '':'' @ pk @ '':'' @ d"

text \<open>
  \<open>Number(kindText)\<close> is read only where the text is a canonical decimal, and a value past
  65535 (an infinite one included) is refused, so a natural number holds it.
\<close>

definition parseCoordinate :: "string \<Rightarrow> coord_error + event_coordinate" where
  "parseCoordinate coordinate =
     (case split_first CHR '':'' coordinate of
        None \<Rightarrow> Inl (InvalidCoordinate coordinate)
      | Some (kindText, rest) \<Rightarrow>
          (case split_first CHR '':'' rest of
             None \<Rightarrow> Inl (InvalidCoordinate coordinate)
           | Some (pk, identifier) \<Rightarrow>
               if \<not> canonical_decimal kindText \<or> read_nat kindText > 65535 \<or> \<not> hex32 pk
               then Inl (InvalidCoordinate coordinate)
               else Inr \<lparr>co_kind = read_nat kindText, co_pubkey = pk, co_identifier = identifier\<rparr>))"

definition isCommunityCoordinate :: "string \<Rightarrow> bool" where
  "isCommunityCoordinate c =
     (case parseCoordinate c of Inl _ \<Rightarrow> False | Inr p \<Rightarrow> co_kind p = KIND_COMMUNITY)"

definition isEventCoordinate :: "string \<Rightarrow> bool" where
  "isEventCoordinate c =
     (case parseCoordinate c of Inl _ \<Rightarrow> False | Inr p \<Rightarrow> co_kind p \<in> set SPACE_KINDS)"

definition parseEventCoordinate :: "string \<Rightarrow> coord_error + event_coordinate" where
  "parseEventCoordinate c =
     (case parseCoordinate c of
        Inl e \<Rightarrow> Inl e
      | Inr p \<Rightarrow> if co_kind p \<notin> set SPACE_KINDS then Inl (NotSpaceCoordinate (co_kind p) c) else Inr p)"

text \<open>NIP-19: \<open>naddrEncode\<close> and \<open>decode\<close> with the data the code passes through them.\<close>

record naddr_data = event_coordinate +
  nd_relays :: "string list option"

datatype nip19 = Naddr naddr_data | OtherNip19

definition coordinateToNaddr ::
  "(naddr_data \<Rightarrow> string) \<Rightarrow> string \<Rightarrow> string list \<Rightarrow> coord_error + string" where
  "coordinateToNaddr naddrEncode coordinate relays =
     (case parseCoordinate coordinate of
        Inl e \<Rightarrow> Inl e
      | Inr p \<Rightarrow> Inr (naddrEncode \<lparr>co_kind = co_kind p, co_pubkey = co_pubkey p,
                       co_identifier = co_identifier p, nd_relays = Some relays\<rparr>))"

definition naddrToCoordinate ::
  "(string \<Rightarrow> nip19) \<Rightarrow> string \<Rightarrow> coord_error + string \<times> string list" where
  "naddrToCoordinate decode naddr =
     (case decode naddr of
        OtherNip19 \<Rightarrow> Inl NotAnNaddr
      | Naddr d \<Rightarrow> Inr (show_nat (co_kind d) @ '':'' @ co_pubkey d @ '':'' @ co_identifier d,
                     case nd_relays d of None \<Rightarrow> [] | Some r \<Rightarrow> r))"

lemma hex32_no_colon: "hex32 s \<Longrightarrow> CHR '':'' \<notin> set s"
  by (simp add: hex32_def colon_not_hex)

lemma canonical_no_colon: "canonical_decimal s \<Longrightarrow> CHR '':'' \<notin> set s"
  by (metis colon_show_nat show_read_nat)

lemma parseCoordinate_Inr:
  "parseCoordinate s = Inr c \<longleftrightarrow>
     s = makeCoordinate (co_pubkey c) (co_identifier c) (co_kind c)
     \<and> co_kind c \<le> 65535 \<and> hex32 (co_pubkey c)"
proof
  assume "parseCoordinate s = Inr c"
  then show "s = makeCoordinate (co_pubkey c) (co_identifier c) (co_kind c)
     \<and> co_kind c \<le> 65535 \<and> hex32 (co_pubkey c)"
    by (auto simp: parseCoordinate_def makeCoordinate_def split_first_Some show_read_nat
        split: option.splits if_splits)
next
  assume s: "s = makeCoordinate (co_pubkey c) (co_identifier c) (co_kind c)
     \<and> co_kind c \<le> 65535 \<and> hex32 (co_pubkey c)"
  then show "parseCoordinate s = Inr c"
    by (simp add: parseCoordinate_def makeCoordinate_def hex32_no_colon canonical_show_nat)
qed

lemma makeCoordinate_inject:
  "hex32 p \<Longrightarrow> hex32 q \<Longrightarrow>
     makeCoordinate p d k = makeCoordinate q e l \<longleftrightarrow> p = q \<and> d = e \<and> k = l"
  by (auto simp: makeCoordinate_def append_sep_inject hex32_no_colon)

section \<open>The space hierarchy\<close>

definition MAX_CHILDREN :: nat where "MAX_CHILDREN = 500"
definition PARENT_TAG :: string where "PARENT_TAG = ''parent''"
definition CHILD_TAG :: string where "CHILD_TAG = ''child''"
definition MEMBER_OF_TAG :: string where "MEMBER_OF_TAG = ''member_of''"
definition MEMBERSHIP_PROOF_TAG :: string where
  "MEMBERSHIP_PROOF_TAG = ''nostrautica-member-of-v1''"

definition isValidParentCoordinate :: "string \<Rightarrow> bool" where
  "isValidParentCoordinate c =
     (case parseCoordinate c of Inl _ \<Rightarrow> False | Inr p \<Rightarrow> co_kind p = KIND_COMMUNITY)"

definition isValidChildCoordinate :: "string \<Rightarrow> bool" where
  "isValidChildCoordinate c =
     (case parseCoordinate c of Inl _ \<Rightarrow> False | Inr p \<Rightarrow> co_kind p = KIND_CALENDAR_EVENT)"

text \<open>The fields of a 31600 config that the link checks read (\<open>LinkConfig\<close>).\<close>

record link_config =
  lc_coordinator :: "pubkey option"
  lc_parent :: "string option"
  lc_children :: "string list option"

definition isLinked :: "string \<Rightarrow> string list option \<Rightarrow> string \<Rightarrow> string option \<Rightarrow> bool" where
  "isLinked parent parent_children child child_parent \<longleftrightarrow>
     isValidParentCoordinate parent \<and> isValidChildCoordinate child
     \<and> child_parent = Some parent
     \<and> child \<in> set (case parent_children of None \<Rightarrow> [] | Some cs \<Rightarrow> cs)"

text \<open>An absent or empty coordinator is falsy in the code.\<close>

definition membershipAuthorities :: "string \<Rightarrow> pubkey option \<Rightarrow> pubkey list" where
  "membershipAuthorities child coordinator =
     (case parseCoordinate child of
        Inl _ \<Rightarrow> []
      | Inr p \<Rightarrow> (case coordinator of
                    Some c \<Rightarrow> if c \<noteq> [] then [co_pubkey p, c] else [co_pubkey p]
                  | None \<Rightarrow> [co_pubkey p]))"

definition membership_message :: "string \<Rightarrow> string \<Rightarrow> pubkey \<Rightarrow> string" where
  "membership_message parent child attendee =
     stringify (JArr (map JStr [MEMBERSHIP_PROOF_TAG, parent, child, attendee]))"

definition membershipChallenge ::
  "(string \<Rightarrow> 'h) \<Rightarrow> string \<Rightarrow> string \<Rightarrow> pubkey \<Rightarrow> 'h" where
  "membershipChallenge sha parent child attendee = sha (membership_message parent child attendee)"

record membership_proof =
  mp_a :: string
  mp_by :: pubkey
  mp_sig :: string

definition makeMembershipProof ::
  "(string \<Rightarrow> 'h) \<Rightarrow> ('h \<Rightarrow> 'sk \<Rightarrow> string) \<Rightarrow> ('sk \<Rightarrow> pubkey)
   \<Rightarrow> 'sk \<Rightarrow> string \<Rightarrow> string \<Rightarrow> pubkey \<Rightarrow> membership_proof" where
  "makeMembershipProof sha sign getPublicKey sk parent child attendee =
     \<lparr>mp_a = parent, mp_by = getPublicKey sk,
      mp_sig = sign (membershipChallenge sha parent child attendee) sk\<rparr>"

definition verifyMembershipProof ::
  "(string \<Rightarrow> 'h) \<Rightarrow> (string \<Rightarrow> 'h \<Rightarrow> pubkey \<Rightarrow> bool)
   \<Rightarrow> pubkey \<Rightarrow> string \<Rightarrow> string \<Rightarrow> string \<Rightarrow> pubkey \<Rightarrow> pubkey list \<Rightarrow> bool" where
  "verifyMembershipProof sha verify by_pk sig parent child attendee authorities =
     (if \<not> hex32 by_pk \<or> \<not> hex64 sig \<or> \<not> hex32 attendee then False
      else if by_pk \<notin> set authorities then False
      else verify sig (membershipChallenge sha parent child attendee) by_pk)"

definition memberOfTag :: "string \<Rightarrow> pubkey \<Rightarrow> string \<Rightarrow> tag" where
  "memberOfTag child by_pk sig = [MEMBER_OF_TAG, child, by_pk, sig]"

record member_of_claim =
  mo_child :: string
  mo_by :: pubkey
  mo_sig :: string

definition parseMemberOfTags :: "tag list \<Rightarrow> member_of_claim list" where
  "parseMemberOfTags tags =
     take 8
       (filter (\<lambda>p. isValidChildCoordinate (mo_child p) \<and> hex32 (mo_by p) \<and> hex64 (mo_sig p))
         (map (\<lambda>t. \<lparr>mo_child = t ! 1, mo_by = t ! 2, mo_sig = t ! 3\<rparr>)
           (filter (\<lambda>t. t \<noteq> [] \<and> hd t = MEMBER_OF_TAG \<and> length t \<ge> 4) tags)))"

section \<open>Invite proofs\<close>

definition INVITE_PROOF_TAG :: string where "INVITE_PROOF_TAG = ''nostrautica-invite-v2''"

definition invite_message :: "string \<Rightarrow> pubkey \<Rightarrow> string" where
  "invite_message coordinate attendee =
     stringify (JArr (map JStr [INVITE_PROOF_TAG, coordinate, attendee]))"

definition inviteChallenge :: "(string \<Rightarrow> 'h) \<Rightarrow> string \<Rightarrow> pubkey \<Rightarrow> 'h" where
  "inviteChallenge sha coordinate attendee = sha (invite_message coordinate attendee)"

record invite_proof =
  ip_pubkey :: pubkey
  ip_sig :: string

definition makeInviteProof ::
  "(string \<Rightarrow> 'h) \<Rightarrow> ('h \<Rightarrow> 'sk \<Rightarrow> string) \<Rightarrow> ('sk \<Rightarrow> pubkey)
   \<Rightarrow> 'sk \<Rightarrow> string \<Rightarrow> pubkey \<Rightarrow> invite_proof" where
  "makeInviteProof sha sign getPublicKey sk coordinate attendee =
     \<lparr>ip_pubkey = getPublicKey sk, ip_sig = sign (inviteChallenge sha coordinate attendee) sk\<rparr>"

definition verifyInviteProof ::
  "(string \<Rightarrow> 'h) \<Rightarrow> (string \<Rightarrow> 'h \<Rightarrow> pubkey \<Rightarrow> bool) \<Rightarrow> invite_proof \<Rightarrow> string \<Rightarrow> pubkey \<Rightarrow> bool" where
  "verifyInviteProof sha verify proof coordinate attendee =
     verify (ip_sig proof) (inviteChallenge sha coordinate attendee) (ip_pubkey proof)"

text \<open>\<open>publishedHashes.has\<close> is the predicate \<open>published\<close>; \<open>inviteHash\<close> hashes a hex pubkey.\<close>

definition isInviteValid ::
  "(string \<Rightarrow> 'h) \<Rightarrow> (string \<Rightarrow> 'h \<Rightarrow> pubkey \<Rightarrow> bool) \<Rightarrow> (pubkey \<Rightarrow> string)
   \<Rightarrow> invite_proof \<Rightarrow> (string \<Rightarrow> bool) \<Rightarrow> string \<Rightarrow> pubkey \<Rightarrow> bool" where
  "isInviteValid sha verify inviteHash proof published coordinate attendee =
     (if \<not> hex32 (ip_pubkey proof) \<or> \<not> hex64 (ip_sig proof) then False
      else published (inviteHash (ip_pubkey proof))
           \<and> verifyInviteProof sha verify proof coordinate attendee)"

lemma parseEventCoordinate_Inr:
  "parseEventCoordinate s = Inr c \<longleftrightarrow> parseCoordinate s = Inr c \<and> (co_kind c = 31923 \<or> co_kind c = 31612)"
  by (cases "parseCoordinate s")
    (auto simp: parseEventCoordinate_def SPACE_KINDS_def KIND_CALENDAR_EVENT_def KIND_COMMUNITY_def)

section \<open>Properties\<close>

text \<open>
  A coordinate string parses to exactly one space, and a space is named by exactly one
  string: \<open>parseCoordinate\<close> succeeds on a string if and only if it is the canonical rendering
  of the result, whose kind fits 16 bits and whose key is 64 lowercase hex digits. No second
  spelling ("031612", "31612.0", an upper-case key) can open a divergent namespace.
\<close>

theorem parseCoordinate_canonical:
  "(parseCoordinate s = Inr c \<longleftrightarrow>
      s = makeCoordinate (co_pubkey c) (co_identifier c) (co_kind c)
      \<and> co_kind c \<le> 65535 \<and> hex32 (co_pubkey c))
   \<and> (parseCoordinate s = Inr c \<and> parseCoordinate s' = Inr c \<longrightarrow> s = s')
   \<and> (parseEventCoordinate s = Inr c \<longleftrightarrow>
        parseCoordinate s = Inr c \<and> (co_kind c = 31923 \<or> co_kind c = 31612))"
  by (simp only: parseEventCoordinate_Inr) (auto simp: parseCoordinate_Inr)

lemma parseCoordinate_canonical_witness:
  "let pk = replicate 64 CHR ''a''; c = \<lparr>co_kind = 31923, co_pubkey = pk, co_identifier = ''x:y''\<rparr>
   in parseCoordinate (''31923:'' @ pk @ '':x:y'') = Inr c
      \<and> parseCoordinate (''031923:'' @ pk @ '':x:y'') \<noteq> Inr c"
proof -
  define pk where "pk = replicate 64 CHR ''a''"
  define c where "c = \<lparr>co_kind = 31923, co_pubkey = pk, co_identifier = ''x:y''\<rparr>"
  have dec: "show_nat 31923 = ''31923''" by (simp add: show_nat.simps digit_char_def)
  have hex: "hex32 pk" by (simp add: pk_def hex32_def is_lower_hex_def list_all_iff)
  have ok: "parseCoordinate (''31923:'' @ pk @ '':x:y'') = Inr c"
    using parseCoordinate_canonical [of "''31923:'' @ pk @ '':x:y''" c] hex
    by (simp add: c_def makeCoordinate_def dec)
  moreover have "parseCoordinate (''031923:'' @ pk @ '':x:y'') \<noteq> Inr c"
    using parseCoordinate_canonical [of "''031923:'' @ pk @ '':x:y''" c
        "''31923:'' @ pk @ '':x:y''"] ok by auto
  ultimately show ?thesis by (simp add: Let_def pk_def c_def)
qed

text \<open>
  The messages hashed for invite proofs and for membership proofs are injective in all
  their parts and the two families are disjoint, so a signature over one challenge never
  answers another: not for another attendee, parent, child or coordinate, and not across
  the two proof types (short of a SHA-256 collision).
\<close>

theorem challenges_injective:
  "(membership_message p c a = membership_message p' c' a' \<longleftrightarrow> p = p' \<and> c = c' \<and> a = a')
   \<and> (invite_message p a = invite_message p' a' \<longleftrightarrow> p = p' \<and> a = a')
   \<and> membership_message p c a \<noteq> invite_message p' a'"
  by (simp only: membership_message_def invite_message_def stringify_strings_inject) auto

text \<open>
  A membership proof made by an authority of the child (its \<open>E_id\<close> or the coordinator
  its config names) survives the trip through the join request's \<open>member_of\<close> tag and
  verifies, and a proof by anybody else is refused whatever its signature. The hypotheses
  state that the BIP-340 library verifies what it signed and yields 64-byte hex signatures.
\<close>

theorem membership_proof_roundtrip:
  assumes sign_ok: "\<And>m sk. verify (sign m sk) m (getPublicKey sk) \<and> hex64 (sign m sk)"
    and pk_ok: "hex32 (getPublicKey sk)" and att: "hex32 attendee"
    and child: "isValidChildCoordinate child"
  shows "let prf = makeMembershipProof sha sign getPublicKey sk parent child attendee
   in parseMemberOfTags [memberOfTag child (mp_by prf) (mp_sig prf)]
           = [\<lparr>mo_child = child, mo_by = mp_by prf, mo_sig = mp_sig prf\<rparr>]
         \<and> verifyMembershipProof sha verify (mp_by prf) (mp_sig prf) parent child attendee
              (membershipAuthorities child coord)
           = (getPublicKey sk \<in> set (membershipAuthorities child coord))"
  using sign_ok pk_ok att child
  by (simp add: Let_def makeMembershipProof_def memberOfTag_def parseMemberOfTags_def
      verifyMembershipProof_def)

lemma membership_proof_roundtrip_witness:
  "let pk = replicate 64 CHR ''b''; child = ''31923:'' @ pk @ '':m''; att = replicate 64 CHR ''c'';
       proof = makeMembershipProof (\<lambda>m. m) (\<lambda>m sk. replicate 128 CHR ''0'') (\<lambda>sk. pk) () ''p'' child att
   in verifyMembershipProof (\<lambda>m. m) (\<lambda>s m p. True) (mp_by proof) (mp_sig proof) ''p'' child att
        (membershipAuthorities child None)"
proof -
  define pk where "pk = replicate 64 CHR ''b''"
  define child where "child = ''31923:'' @ pk @ '':m''"
  define att where "att = replicate 64 CHR ''c''"
  have hex: "hex32 pk" "hex32 att" "hex64 (replicate 128 CHR ''0'')"
    by (simp_all add: pk_def att_def hex32_def hex64_def is_lower_hex_def list_all_iff)
  have "parseCoordinate child = Inr \<lparr>co_kind = 31923, co_pubkey = pk, co_identifier = ''m''\<rparr>"
    using hex by (simp add: parseCoordinate_Inr child_def makeCoordinate_def show_nat.simps digit_char_def)
  then have c: "isValidChildCoordinate child" "membershipAuthorities child None = [pk]"
    by (simp_all add: isValidChildCoordinate_def KIND_CALENDAR_EVENT_def membershipAuthorities_def)
  note rt = membership_proof_roundtrip [where verify = "\<lambda>s m p. True" and sign = "\<lambda>m sk. replicate 128 CHR ''0''"
        and getPublicKey = "\<lambda>sk. pk" and sk = "()" and sha = "\<lambda>m. m" and parent = "''p''"
        and child = child and attendee = att and coord = None]
  have "pk \<in> set (membershipAuthorities child None)" using c by simp
  with rt [unfolded Let_def, THEN conjunct2] hex c(1) show ?thesis
    by (simp only: Let_def pk_def [symmetric] att_def [symmetric] child_def [symmetric])
qed

end
