(* ===== verification/Js_Number.thy ===== *)
theory Js_Number
  imports Complex_Main Prelude
begin

text \<open>
  JavaScript numbers where a value can come from outside and the code tests what it is:
  \<open>NaN\<close>, the infinities, or a finite value. Finite arithmetic in the modelled code stays on
  integers below \<open>2 ^ 53\<close> or only compares and floors, so rationals hold it.
\<close>

datatype js_number = NaN | PosInf | NegInf | Num rat

fun is_finite :: "js_number \<Rightarrow> bool" where
  "is_finite (Num _) = True"
| "is_finite _ = False"

text \<open>\<open>Number.isInteger\<close>, with the integer it is.\<close>

fun as_integer :: "js_number \<Rightarrow> int option" where
  "as_integer (Num q) = (if of_int \<lfloor>q\<rfloor> = q then Some \<lfloor>q\<rfloor> else None)"
| "as_integer _ = None"

definition is_integer :: "js_number \<Rightarrow> bool" where
  "is_integer n \<longleftrightarrow> as_integer n \<noteq> None"

lemma as_integer_of_int [simp]: "as_integer (Num (of_int i)) = Some i"
  by simp

lemma as_integer_Some: "as_integer n = Some i \<longleftrightarrow> n = Num (of_int i)"
  by (cases n) auto

text \<open>\<open>a > b\<close> and \<open>a <= b\<close>; every comparison with \<open>NaN\<close> is false.\<close>

fun js_less :: "js_number \<Rightarrow> js_number \<Rightarrow> bool" where
  "js_less NaN _ = False"
| "js_less _ NaN = False"
| "js_less NegInf b = (b \<noteq> NegInf)"
| "js_less a PosInf = (a \<noteq> PosInf)"
| "js_less (Num a) (Num b) = (a < b)"
| "js_less _ _ = False"

end
