(* ===== verification/Config.thy ===== *)
theory Config
  imports Coordinate Js_Number
begin

text \<open>
  The event networking config (\<open>packages/protocol/src/config.ts\<close>, kind 31600): building its tags,
  parsing them back with the fallbacks the code has for public relay data, and the helpers on the
  parsed value. \<open>new URL\<close> is an argument that gives the protocol and the host name of a value it
  accepts; \<open>Number\<close> of a string is an argument too. \<open>String(n)\<close> is the decimal rendering, as it
  is below \<open>1e21\<close>.
\<close>

section \<open>Types\<close>

datatype approval = Manual | InviteOnly | ManualInvite | Open
datatype match_visibility = PairOnly | WholeEvent
datatype talks_mode = TalksOff | TalksOn | PrerecordFirst
datatype chat_backend = Marmot

record event_config =
  ec_d :: string
  ec_eid :: pubkey
  ec_inbox :: pubkey
  ec_coordinator :: "pubkey option"
  ec_gen :: "int option"
  ec_relays :: "string list"
  ec_chat_relays :: "string list"
  ec_blossom :: "string list"
  ec_max_video :: int
  ec_max_talk :: int
  ec_matching :: bool
  ec_visibility :: match_visibility
  ec_approval :: approval
  ec_eck :: int
  ec_nostr_context :: int
  ec_lang :: string
  ec_talks :: talks_mode
  ec_chat :: "chat_backend list"
  ec_retention :: "int option"
  ec_parent :: "string option"
  ec_children :: "string list option"
  ec_space_kind :: "nat option"

datatype config_error =
    BadSpaceKind | BadGeneration | BadRetention | BadParent | TooManyChildren | BadChild
  | MissingInbox | NewerProtocolVersion int | UnsupportedVersion "int option"

record url_env =
  ue_url :: "string \<Rightarrow> (string \<times> string) option"
  ue_number :: "string \<Rightarrow> js_number"

fun approval_name :: "approval \<Rightarrow> string" where
  "approval_name Manual = ''manual''"
| "approval_name InviteOnly = ''invite''"
| "approval_name ManualInvite = ''manual+invite''"
| "approval_name Open = ''open''"

fun visibility_name :: "match_visibility \<Rightarrow> string" where
  "visibility_name PairOnly = ''pair''"
| "visibility_name WholeEvent = ''event''"

fun talks_name :: "talks_mode \<Rightarrow> string" where
  "talks_name TalksOff = ''off''"
| "talks_name TalksOn = ''on''"
| "talks_name PrerecordFirst = ''prerecord-first''"

fun backend_name :: "chat_backend \<Rightarrow> string" where
  "backend_name Marmot = ''marmot''"

definition named :: "('a \<Rightarrow> string) \<Rightarrow> 'a list \<Rightarrow> string option \<Rightarrow> 'a option" where
  "named nm vs raw = List.find (\<lambda>v. raw = Some (nm v)) vs"

definition APPROVALS :: "approval list" where "APPROVALS = [Manual, InviteOnly, ManualInvite, Open]"
definition VISIBILITIES :: "match_visibility list" where "VISIBILITIES = [PairOnly, WholeEvent]"
definition TALKS_MODES :: "talks_mode list" where "TALKS_MODES = [TalksOff, TalksOn, PrerecordFirst]"

definition with_default :: "'a \<Rightarrow> 'a option \<Rightarrow> 'a" where
  "with_default a v = (case v of Some x \<Rightarrow> x | None \<Rightarrow> a)"

section \<open>Languages and relays\<close>

text \<open>
  \<open>toLowerCase\<close> as far as an ASCII letter can come out of it: the ASCII capitals, and the Kelvin sign
  U+212A, whose lower case is \<open>k\<close>.
\<close>

fun lower :: "string \<Rightarrow> string" where
  "lower [] = []"
| "lower (c # cs) =
     (if take 3 (c # cs) = map char_of [226, 132, 170 :: nat] then CHR ''k'' # lower (drop 2 cs)
      else (if of_char c \<in> {65..90 :: nat} then char_of (of_char c + 32 :: nat) else c) # lower cs)"

definition is_lower_letter :: "char \<Rightarrow> bool" where
  "is_lower_letter c \<longleftrightarrow> of_char c \<in> {97..122 :: nat}"

definition lang_code :: "string \<Rightarrow> bool" where
  "lang_code s \<longleftrightarrow> length s = 2 \<and> list_all is_lower_letter s"

definition normalizeLang :: "string option \<Rightarrow> string" where
  "normalizeLang lang =
     (let base = takeWhile (\<lambda>c. c \<noteq> CHR ''-'' \<and> c \<noteq> CHR ''_'') (lower (js_trim (with_default ''en'' lang)))
      in if lang_code base then base else ''en'')"

definition CHAT_INTEROP_RELAYS :: "string list" where
  "CHAT_INTEROP_RELAYS = [''wss://relay.us.whitenoise.chat'', ''wss://relay.eu.whitenoise.chat'']"

definition CHAT_INTEROP_HOSTS :: "url_env \<Rightarrow> string list" where
  "CHAT_INTEROP_HOSTS env =
     map (\<lambda>u. case ue_url env u of Some (_, h) \<Rightarrow> h | None \<Rightarrow> []) CHAT_INTEROP_RELAYS"

definition isChatInteropRelay :: "url_env \<Rightarrow> string \<Rightarrow> bool" where
  "isChatInteropRelay env url =
     (case ue_url env url of Some (_, h) \<Rightarrow> lower h \<in> set (CHAT_INTEROP_HOSTS env) | None \<Rightarrow> False)"

section \<open>Building\<close>

definition KIND_EVENT_CONFIG :: nat where "KIND_EVENT_CONFIG = 31600"

definition PROTOCOL_VERSION_TAG :: string where "PROTOCOL_VERSION_TAG = show_int 2"

text \<open>An optional tag, and a value the code treats as absent when it is empty.\<close>

definition opt_tag :: "string \<Rightarrow> string option \<Rightarrow> tag list" where
  "opt_tag nm v = (case v of Some x \<Rightarrow> [[nm, x]] | None \<Rightarrow> [])"

definition nonempty :: "string option \<Rightarrow> string option" where
  "nonempty v = (if v = Some [] then None else v)"

definition coordinator_tag :: "event_config \<Rightarrow> tag list" where
  "coordinator_tag cfg =
     (case nonempty (ec_coordinator cfg) of
        Some c \<Rightarrow> [[''coordinator'', c, show_int (with_default 0 (ec_gen cfg))]]
      | None \<Rightarrow> [])"

definition unique_children :: "event_config \<Rightarrow> string list" where
  "unique_children cfg = js_distinct (with_default [] (ec_children cfg))"

definition config_tags :: "event_config \<Rightarrow> tag list" where
  "config_tags cfg =
     [[''d'', ec_d cfg],
      [''a'', makeCoordinate (ec_eid cfg) (ec_d cfg) (with_default KIND_CALENDAR_EVENT (ec_space_kind cfg))],
      [''v'', PROTOCOL_VERSION_TAG], [''inbox'', ec_inbox cfg]]
     @ coordinator_tag cfg
     @ map (\<lambda>r. [''relay'', r]) (ec_relays cfg)
     @ map (\<lambda>r. [''chat_relay'', r]) (ec_chat_relays cfg)
     @ map (\<lambda>b. [''blossom'', b]) (ec_blossom cfg)
     @ [[''max_video_sec'', show_int (ec_max_video cfg)], [''max_talk_sec'', show_int (ec_max_talk cfg)],
        [''matching'', if ec_matching cfg then ''on'' else ''off''],
        [''match_visibility'', visibility_name (ec_visibility cfg)], [''approval'', approval_name (ec_approval cfg)],
        [''eck'', show_int (ec_eck cfg)], [''nostr_context'', show_int (ec_nostr_context cfg)]]
     @ opt_tag ''lang'' (let lang = normalizeLang (Some (ec_lang cfg)) in if lang \<noteq> ''en'' then Some lang else None)
     @ opt_tag ''talks'' (if ec_talks cfg \<noteq> TalksOff then Some (talks_name (ec_talks cfg)) else None)
     @ map (\<lambda>b. [''chat'', backend_name b]) (ec_chat cfg)
     @ opt_tag ''retention'' (map_option show_int (ec_retention cfg))
     @ opt_tag PARENT_TAG (nonempty (ec_parent cfg))
     @ map (\<lambda>c. [CHILD_TAG, c]) (unique_children cfg)"

definition buildEventConfig :: "event_config \<Rightarrow> config_error + (nat \<times> tag list \<times> string)" where
  "buildEventConfig cfg =
     (if (case ec_space_kind cfg of Some k \<Rightarrow> k \<notin> set SPACE_KINDS | None \<Rightarrow> False) then Inl BadSpaceKind
      else if nonempty (ec_coordinator cfg) \<noteq> None \<and> with_default 0 (ec_gen cfg) < 1 then Inl BadGeneration
      else if (case ec_retention cfg of Some n \<Rightarrow> n < 1 | None \<Rightarrow> False) then Inl BadRetention
      else if (case nonempty (ec_parent cfg) of Some p \<Rightarrow> \<not> isValidParentCoordinate p | None \<Rightarrow> False)
      then Inl BadParent
      else if length (unique_children cfg) > MAX_CHILDREN then Inl TooManyChildren
      else if \<not> list_all isValidChildCoordinate (unique_children cfg) then Inl BadChild
      else Inr (KIND_EVENT_CONFIG, config_tags cfg, []))"

section \<open>Parsing\<close>

definition find_tag :: "string \<Rightarrow> tag list \<Rightarrow> tag option" where
  "find_tag nm tags = List.find (\<lambda>t. t \<noteq> [] \<and> hd t = nm) tags"

definition all_values :: "tag list \<Rightarrow> string \<Rightarrow> string list" where
  "all_values tags nm =
     map (\<lambda>t. t ! 1) (filter (\<lambda>t. t \<noteq> [] \<and> hd t = nm \<and> 2 \<le> length t \<and> t ! 1 \<noteq> []) tags)"

definition with_protocol :: "url_env \<Rightarrow> string \<Rightarrow> string \<Rightarrow> bool" where
  "with_protocol env protocol v \<longleftrightarrow> (case ue_url env v of Some (p, _) \<Rightarrow> p = protocol | None \<Rightarrow> False)"

definition urlValues :: "url_env \<Rightarrow> tag list \<Rightarrow> string \<Rightarrow> string \<Rightarrow> string list" where
  "urlValues env tags nm protocol =
     filter (with_protocol env protocol) (all_values tags nm)"

definition intTag :: "url_env \<Rightarrow> tag list \<Rightarrow> string \<Rightarrow> int \<Rightarrow> int" where
  "intTag env tags nm def =
     (case tag_value nm tags of
        None \<Rightarrow> def
      | Some raw \<Rightarrow>
          if js_trim raw = [] then def
          else (case ue_number env raw of Num q \<Rightarrow> if q \<ge> 0 then \<lfloor>q\<rfloor> else def | _ \<Rightarrow> def))"

definition retentionTag :: "url_env \<Rightarrow> tag list \<Rightarrow> int option" where
  "retentionTag env tags =
     (case tag_value ''retention'' tags of
        None \<Rightarrow> None
      | Some raw \<Rightarrow> (case as_integer (ue_number env raw) of Some n \<Rightarrow> if n \<ge> 1 then Some n else None | None \<Rightarrow> None))"

definition readEventVersionTag :: "url_env \<Rightarrow> tag list \<Rightarrow> int option" where
  "readEventVersionTag env tags = Option.bind (tag_value ''v'' tags) (\<lambda>raw. as_integer (ue_number env raw))"

definition hasCurrentVersionTag :: "url_env \<Rightarrow> tag list \<Rightarrow> bool" where
  "hasCurrentVersionTag env tags \<longleftrightarrow> readEventVersionTag env tags = Some 2"

definition isNewerVersionTag :: "url_env \<Rightarrow> tag list \<Rightarrow> bool" where
  "isNewerVersionTag env tags \<longleftrightarrow> (case readEventVersionTag env tags of Some v \<Rightarrow> v > 2 | None \<Rightarrow> False)"

definition parse_coordinator :: "url_env \<Rightarrow> tag list \<Rightarrow> (pubkey \<times> int) option" where
  "parse_coordinator env tags =
     (case find_tag ''coordinator'' tags of
        Some (_ # c # g # _) \<Rightarrow>
          if hex32 c then (case as_integer (ue_number env g) of Some n \<Rightarrow> if n \<ge> 1 then Some (c, n) else None
                           | None \<Rightarrow> None)
          else None
      | _ \<Rightarrow> None)"

definition parse_children :: "tag list \<Rightarrow> string list option" where
  "parse_children tags =
     (let c = take MAX_CHILDREN (js_distinct (filter isValidChildCoordinate (all_values tags CHILD_TAG)))
      in if c \<noteq> [] then Some c else None)"

definition parse_fields :: "url_env \<Rightarrow> pubkey \<Rightarrow> tag list \<Rightarrow> string \<Rightarrow> pubkey \<Rightarrow> event_config" where
  "parse_fields env eid tags d inbox =
     (let relayTags = urlValues env tags ''relay'' ''wss:'';
          coordinator = parse_coordinator env tags
      in \<lparr>ec_d = d, ec_eid = eid, ec_inbox = inbox,
          ec_coordinator = map_option fst coordinator, ec_gen = map_option snd coordinator,
          ec_relays = filter (\<lambda>r. \<not> isChatInteropRelay env r) relayTags,
          ec_chat_relays = js_distinct (urlValues env tags ''chat_relay'' ''wss:''
                             @ filter (isChatInteropRelay env) relayTags),
          ec_blossom = urlValues env tags ''blossom'' ''https:'',
          ec_max_video = intTag env tags ''max_video_sec'' 90, ec_max_talk = intTag env tags ''max_talk_sec'' 900,
          ec_matching = (tag_value ''matching'' tags = Some ''on''),
          ec_visibility = with_default PairOnly (named visibility_name VISIBILITIES (tag_value ''match_visibility'' tags)),
          ec_approval = with_default Manual (named approval_name APPROVALS (tag_value ''approval'' tags)),
          ec_eck = max 1 (intTag env tags ''eck'' 1), ec_nostr_context = intTag env tags ''nostr_context'' 0,
          ec_lang = normalizeLang (tag_value ''lang'' tags),
          ec_talks = with_default TalksOff (named talks_name TALKS_MODES (tag_value ''talks'' tags)),
          ec_chat = js_distinct (List.map_filter (\<lambda>v. named backend_name [Marmot] (Some v)) (all_values tags ''chat'')),
          ec_retention = retentionTag env tags,
          ec_parent = (case tag_value PARENT_TAG tags of
                         Some p \<Rightarrow> if isValidParentCoordinate p then Some p else None | None \<Rightarrow> None),
          ec_children = parse_children tags,
          ec_space_kind = (if tag_value ''a'' tags = Some (makeCoordinate eid d KIND_COMMUNITY)
                           then Some KIND_COMMUNITY else None)\<rparr>)"

definition parseEventConfig :: "url_env \<Rightarrow> pubkey \<Rightarrow> tag list \<Rightarrow> config_error + event_config" where
  "parseEventConfig env eid tags =
     (case (nonempty (tag_value ''d'' tags), tag_value ''inbox'' tags) of
        (Some d, Some inbox) \<Rightarrow>
          if \<not> hex32 inbox then Inl MissingInbox
          else (case readEventVersionTag env tags of
                  Some v \<Rightarrow>
                    if v > 2 then Inl (NewerProtocolVersion v)
                    else if v \<noteq> 2 then Inl (UnsupportedVersion (Some v))
                    else Inr (parse_fields env eid tags d inbox)
                | None \<Rightarrow> Inl (UnsupportedVersion None))
      | _ \<Rightarrow> Inl MissingInbox)"

section \<open>Helpers on a config\<close>

definition configForSpace :: "event_config \<Rightarrow> string \<Rightarrow> event_config" where
  "configForSpace cfg coordinate =
     cfg\<lparr>ec_space_kind := if isCommunityCoordinate coordinate then Some KIND_COMMUNITY else None\<rparr>"

definition configCoordinate :: "event_config \<Rightarrow> string" where
  "configCoordinate cfg = makeCoordinate (ec_eid cfg) (ec_d cfg) (with_default KIND_CALENDAR_EVENT (ec_space_kind cfg))"

definition isMarmotChatEnabled :: "event_config \<Rightarrow> bool" where
  "isMarmotChatEnabled cfg \<longleftrightarrow> nonempty (ec_coordinator cfg) \<noteq> None \<and> Marmot \<in> set (ec_chat cfg)"

section \<open>What a parsed config satisfies\<close>

text \<open>The type of a usable config: what every reader may rely on.\<close>

definition config_ok :: "url_env \<Rightarrow> event_config \<Rightarrow> bool" where
  "config_ok env cfg \<longleftrightarrow>
     ec_d cfg \<noteq> [] \<and> hex32 (ec_inbox cfg)
     \<and> (case (ec_coordinator cfg, ec_gen cfg) of
          (None, None) \<Rightarrow> True | (Some c, Some g) \<Rightarrow> hex32 c \<and> g \<ge> 1 | _ \<Rightarrow> False)
     \<and> list_all (\<lambda>r. r \<noteq> [] \<and> with_protocol env ''wss:'' r \<and> \<not> isChatInteropRelay env r) (ec_relays cfg)
     \<and> list_all (\<lambda>r. r \<noteq> [] \<and> with_protocol env ''wss:'' r) (ec_chat_relays cfg) \<and> distinct (ec_chat_relays cfg)
     \<and> list_all (\<lambda>r. r \<noteq> [] \<and> with_protocol env ''https:'' r) (ec_blossom cfg)
     \<and> ec_max_video cfg \<ge> 0 \<and> ec_max_talk cfg \<ge> 0 \<and> ec_eck cfg \<ge> 1 \<and> ec_nostr_context cfg \<ge> 0
     \<and> lang_code (ec_lang cfg) \<and> distinct (ec_chat cfg)
     \<and> (case ec_retention cfg of Some n \<Rightarrow> n \<ge> 1 | None \<Rightarrow> True)
     \<and> (case ec_parent cfg of Some q \<Rightarrow> isValidParentCoordinate q | None \<Rightarrow> True)
     \<and> (case ec_children cfg of
          Some cs \<Rightarrow> cs \<noteq> [] \<and> distinct cs \<and> length cs \<le> MAX_CHILDREN \<and> list_all isValidChildCoordinate cs
        | None \<Rightarrow> True)
     \<and> (case ec_space_kind cfg of Some k \<Rightarrow> k = KIND_COMMUNITY | None \<Rightarrow> True)"

lemma all_values_nonempty: "v \<in> set (all_values tags nm) \<Longrightarrow> v \<noteq> []"
  by (auto simp: all_values_def)

lemma urlValues_ok:
  "r \<in> set (urlValues env tags nm pr) \<Longrightarrow> r \<noteq> [] \<and> with_protocol env pr r"
  by (auto simp: urlValues_def dest: all_values_nonempty)

lemma intTag_nonneg: "def \<ge> 0 \<Longrightarrow> intTag env tags nm def \<ge> 0"
  by (auto simp: intTag_def split: option.split js_number.split)

lemma lang_code_normalize: "lang_code (normalizeLang v)"
  by (auto simp: normalizeLang_def Let_def lang_code_def is_lower_letter_def)

lemma parse_children_ok:
  "case parse_children tags of
     Some cs \<Rightarrow> cs \<noteq> [] \<and> distinct cs \<and> length cs \<le> MAX_CHILDREN \<and> list_all isValidChildCoordinate cs
   | None \<Rightarrow> True"
proof -
  define cs where "cs = js_distinct (filter isValidChildCoordinate (all_values tags CHILD_TAG))"
  have "distinct cs" "\<forall>c\<in>set cs. isValidChildCoordinate c" by (simp_all add: cs_def)
  then show ?thesis
    unfolding parse_children_def Let_def cs_def [symmetric]
    by (auto simp: list_all_iff dest: in_set_takeD simp del: take_eq_Nil)
qed

lemma parse_fields_ok:
  assumes "nonempty (tag_value ''d'' tags) = Some d" and inbox: "hex32 inbox"
  shows "config_ok env (parse_fields env eid tags d inbox)"
proof -
  have "d \<noteq> []" using assms(1) by (auto simp: nonempty_def split: if_splits)
  moreover have "case parse_coordinator env tags of None \<Rightarrow> True | Some (c, g) \<Rightarrow> hex32 c \<and> g \<ge> 1"
    by (auto simp: parse_coordinator_def split: option.split list.split if_splits)
  moreover have "case retentionTag env tags of Some n \<Rightarrow> n \<ge> 1 | None \<Rightarrow> True"
    by (auto simp: retentionTag_def split: option.split if_splits)
  moreover note parse_children_ok [of tags]
  ultimately show ?thesis
    using inbox
    by (auto simp: config_ok_def parse_fields_def Let_def intTag_nonneg lang_code_normalize list_all_iff
        dest: urlValues_ok split: option.splits)
qed

text \<open>
  (C10) Whatever a relay serves as a 31600, a config that parses is one the rest of the code can rely on: the
  inbox is a canonical key; a coordinator comes with a generation of at least 1 and neither without
  the other; relays are wss and never the chat-only ones, chat relays are wss without repeats, Blossom
  servers https; limits are non-negative integers and the key version at least 1; the language is two
  lower-case letters; parent and children are coordinates of the right kind, children without repeats
  and at most 500.
\<close>

theorem parsed_config_ok:
  assumes "parseEventConfig env eid tags = Inr cfg"
  shows "config_ok env cfg"
  using assms parse_fields_ok by (auto simp: parseEventConfig_def split: option.splits if_splits)

section \<open>Reading back what was built\<close>

lemma tag_value_find: "tag_value nm tags = (case find_tag nm tags of Some (_ # v # _) \<Rightarrow> Some v | _ \<Rightarrow> None)"
  by (simp add: tag_value_def find_tag_def)

lemma find_tag_simps [simp]:
  "find_tag nm [] = None"
  "find_tag nm ((n # vs) # tags) = (if n = nm then Some (n # vs) else find_tag nm tags)"
  by (simp_all add: find_tag_def)

lemma find_tag_map [simp]:
  "find_tag nm (map (\<lambda>x. [n, f x]) xs @ tags) =
     (if n = nm \<and> xs \<noteq> [] then Some [n, f (hd xs)] else find_tag nm tags)"
  by (induction xs) auto

lemma find_tag_map_end [simp]:
  "find_tag nm (map (\<lambda>x. [n, f x]) xs) = (if n = nm \<and> xs \<noteq> [] then Some [n, f (hd xs)] else None)"
  using find_tag_map [of nm n f xs "[]"] by simp

lemma find_tag_opt [simp]:
  "find_tag nm (opt_tag n v @ tags) = (if n = nm \<and> v \<noteq> None then Some [n, the v] else find_tag nm tags)"
  by (auto simp: opt_tag_def split: option.split)

lemma find_tag_coordinator [simp]:
  "find_tag nm (coordinator_tag cfg @ tags) =
     (if nm = ''coordinator'' \<and> nonempty (ec_coordinator cfg) \<noteq> None
      then Some [''coordinator'', the (ec_coordinator cfg), show_int (with_default 0 (ec_gen cfg))]
      else find_tag nm tags)"
  by (auto simp: coordinator_tag_def nonempty_def split: option.split)

lemma all_values_simps [simp]:
  "all_values [] nm = []"
  "all_values ((n # vs) # tags) nm =
     (if n = nm \<and> vs \<noteq> [] \<and> hd vs \<noteq> [] then hd vs # all_values tags nm else all_values tags nm)"
  by (simp add: all_values_def) (cases vs; simp add: all_values_def Suc_le_eq)

lemma all_values_append [simp]: "all_values (xs @ ys) nm = all_values xs nm @ all_values ys nm"
  by (simp add: all_values_def)

lemma all_values_map [simp]:
  "all_values (map (\<lambda>x. [n, f x]) xs) nm = (if n = nm then filter (\<lambda>v. v \<noteq> []) (map f xs) else [])"
  by (induction xs) auto

lemma all_values_other [simp]:
  "n \<noteq> nm \<Longrightarrow> all_values (opt_tag n v) nm = []"
  "nm \<noteq> ''coordinator'' \<Longrightarrow> all_values (coordinator_tag cfg) nm = []"
  by (auto simp: opt_tag_def coordinator_tag_def split: option.split)

text \<open>\<open>Number(String(n))\<close> is \<open>n\<close>.\<close>

definition reads_numbers :: "url_env \<Rightarrow> bool" where
  "reads_numbers env \<longleftrightarrow> (\<forall>n. ue_number env (show_int n) = Num (of_int n))"

lemma as_integer_shown [simp]: "reads_numbers env \<Longrightarrow> as_integer (ue_number env (show_int n)) = Some n"
  by (simp add: reads_numbers_def)

lemma whitespace_ends:
  "\<forall>w\<in>set js_whitespace. w \<noteq> [] \<and> of_char (hd w) \<notin> {48..122 :: nat} \<and> of_char (last w) \<notin> {48..122 :: nat}"
  by (auto simp: js_whitespace_def)

lemma find_nil_iff: "List.find P xs = None \<longleftrightarrow> (\<forall>x\<in>set xs. \<not> P x)"
  by (induction xs) auto

lemma strip_nothing:
  assumes "\<forall>w\<in>set ws. w \<noteq> [] \<and> hd w \<noteq> hd s" and "s \<noteq> []"
  shows "strip_fuel n ws s = s"
proof -
  have "w \<noteq> take (length w) s" if "w \<in> set ws" for w
  proof
    assume w: "w = take (length w) s"
    have "w \<noteq> []" using that assms(1) by blast
    then have "hd w = hd s" using w by (metis hd_take length_greater_0_conv)
    then show False using that assms(1) by blast
  qed
  then have "List.find (\<lambda>w. w = take (length w) s) ws = None" by (simp add: find_nil_iff)
  then show ?thesis by (cases n) simp_all
qed

lemma js_trim_plain:
  assumes "s \<noteq> []" and "of_char (hd s) \<in> {48..122 :: nat}" and "of_char (last s) \<in> {48..122 :: nat}"
  shows "js_trim s = s"
proof -
  have "\<forall>w\<in>set js_whitespace. w \<noteq> [] \<and> hd w \<noteq> hd s" using whitespace_ends assms(2) by metis
  then have start: "js_trim_start s = s" using strip_nothing assms(1) by (simp add: js_trim_start_def)
  have "\<forall>w\<in>set (map rev js_whitespace). w \<noteq> [] \<and> hd w \<noteq> hd (rev s)"
    using whitespace_ends assms by (auto simp: hd_rev)
  then have "js_trim_end s = s" using strip_nothing [of "map rev js_whitespace" "rev s"] assms(1)
    by (simp add: js_trim_end_def)
  then show ?thesis using start by (simp add: js_trim_def)
qed

lemma digit_code: "is_digit c \<Longrightarrow> of_char c \<in> {48..122 :: nat}"
  by (auto simp: is_digit_def)

lemma js_trim_show_int: "0 \<le> n \<Longrightarrow> js_trim (show_int n) = show_int n"
proof -
  assume "0 \<le> n"
  then have s: "show_int n = show_nat (nat n)" by (simp add: show_int_def)
  have "is_digit c" if "c \<in> set (show_nat (nat n))" for c using that show_nat_digits by (auto simp: list_all_iff)
  then show ?thesis unfolding s by (intro js_trim_plain digit_code) simp_all
qed

lemma intTag_shown:
  "reads_numbers env \<Longrightarrow> 0 \<le> n \<Longrightarrow> tag_value nm tags = Some (show_int n) \<Longrightarrow> intTag env tags nm def = n"
  using js_trim_show_int [of n] show_nat_neq_Nil [of "nat n"] by (simp add: intTag_def reads_numbers_def) (simp add: show_int_def)

lemma lower_letters: "list_all is_lower_letter s \<Longrightarrow> lower s = s"
proof (induction s)
  case (Cons c cs)
  have "take 3 (c # cs) \<noteq> map char_of [226, 132, 170 :: nat]"
    using Cons.prems by (auto simp: is_lower_letter_def)
  then show ?case using Cons by (auto simp: is_lower_letter_def simp del: take_Suc_Cons)
qed simp

lemma normalizeLang_id: "lang_code s \<Longrightarrow> normalizeLang (Some s) = s"
proof -
  assume s: "lang_code s"
  then obtain a b where ab: "s = [a, b]" "is_lower_letter a" "is_lower_letter b"
    by (auto simp: lang_code_def numeral_2_eq_2 length_Suc_conv)
  have "js_trim s = s" using ab by (intro js_trim_plain) (auto simp: is_lower_letter_def)
  moreover have "lower s = s" using s by (intro lower_letters) (simp add: lang_code_def)
  moreover have "a \<noteq> CHR ''-''" "a \<noteq> CHR ''_''" "b \<noteq> CHR ''-''" "b \<noteq> CHR ''_''"
    using ab by (auto simp: is_lower_letter_def)
  ultimately show ?thesis using s ab by (simp add: normalizeLang_def with_default_def)
qed

lemma named_simps [simp]:
  "named approval_name APPROVALS (Some (approval_name a)) = Some a"
  "named visibility_name VISIBILITIES (Some (visibility_name v)) = Some v"
  "named talks_name TALKS_MODES (Some (talks_name t)) = Some t"
  "named nm vs None = None"
  by (cases a, simp_all add: named_def APPROVALS_def) (cases v, simp_all add: named_def VISIBILITIES_def,
    cases t, simp_all add: named_def TALKS_MODES_def find_nil_iff)

lemma named_backend [simp]: "named backend_name [Marmot] (Some (backend_name b)) = Some b"
  by (cases b) (simp add: named_def)

lemma map_filter_backends: "List.map_filter (\<lambda>v. named backend_name [Marmot] (Some v)) (map backend_name bs) = bs"
  by (induction bs) (simp_all add: List.map_filter_def)

lemma makeCoordinate_kind: "makeCoordinate p d k = makeCoordinate p d l \<longleftrightarrow> k = l"
  by (simp add: makeCoordinate_def)

lemmas tag_lookup = config_tags_def tag_value_find PARENT_TAG_def CHILD_TAG_def

lemma first_values:
  "tag_value ''d'' (config_tags cfg) = Some (ec_d cfg)"
  "tag_value ''a'' (config_tags cfg)
     = Some (makeCoordinate (ec_eid cfg) (ec_d cfg) (with_default KIND_CALENDAR_EVENT (ec_space_kind cfg)))"
  "tag_value ''v'' (config_tags cfg) = Some (show_int 2)"
  "tag_value ''inbox'' (config_tags cfg) = Some (ec_inbox cfg)"
  "find_tag ''coordinator'' (config_tags cfg) =
     (if nonempty (ec_coordinator cfg) \<noteq> None
      then Some [''coordinator'', the (ec_coordinator cfg), show_int (with_default 0 (ec_gen cfg))] else None)"
  by (simp_all add: tag_lookup PROTOCOL_VERSION_TAG_def)

lemma setting_values:
  "tag_value ''max_video_sec'' (config_tags cfg) = Some (show_int (ec_max_video cfg))"
  "tag_value ''max_talk_sec'' (config_tags cfg) = Some (show_int (ec_max_talk cfg))"
  "tag_value ''matching'' (config_tags cfg) = Some (if ec_matching cfg then ''on'' else ''off'')"
  "tag_value ''match_visibility'' (config_tags cfg) = Some (visibility_name (ec_visibility cfg))"
  "tag_value ''approval'' (config_tags cfg) = Some (approval_name (ec_approval cfg))"
  "tag_value ''eck'' (config_tags cfg) = Some (show_int (ec_eck cfg))"
  "tag_value ''nostr_context'' (config_tags cfg) = Some (show_int (ec_nostr_context cfg))"
  by (simp_all add: tag_lookup)

lemma optional_values:
  "lang_code (ec_lang cfg) \<Longrightarrow> tag_value ''lang'' (config_tags cfg) = (if ec_lang cfg = ''en'' then None else Some (ec_lang cfg))"
  "tag_value ''talks'' (config_tags cfg) = (if ec_talks cfg = TalksOff then None else Some (talks_name (ec_talks cfg)))"
  "tag_value ''retention'' (config_tags cfg) = map_option show_int (ec_retention cfg)"
  "tag_value PARENT_TAG (config_tags cfg) = nonempty (ec_parent cfg)"
  by (simp_all add: tag_lookup normalizeLang_id Let_def split: option.split)

lemma list_values:
  "all_values (config_tags cfg) ''relay'' = filter (\<lambda>v. v \<noteq> []) (ec_relays cfg)"
  "all_values (config_tags cfg) ''chat_relay'' = filter (\<lambda>v. v \<noteq> []) (ec_chat_relays cfg)"
  "all_values (config_tags cfg) ''blossom'' = filter (\<lambda>v. v \<noteq> []) (ec_blossom cfg)"
  "all_values (config_tags cfg) ''chat'' = filter (\<lambda>v. v \<noteq> []) (map backend_name (ec_chat cfg))"
  "all_values (config_tags cfg) CHILD_TAG = filter (\<lambda>v. v \<noteq> []) (unique_children cfg)"
  by (simp_all add: config_tags_def CHILD_TAG_def PARENT_TAG_def)

lemma parse_coordinator_built:
  assumes "config_ok env cfg" and "reads_numbers env"
  shows "parse_coordinator env (config_tags cfg) =
    (case ec_coordinator cfg of Some c \<Rightarrow> Some (c, the (ec_gen cfg)) | None \<Rightarrow> None)"
  using assms
  by (auto simp: parse_coordinator_def first_values config_ok_def nonempty_def hex32_def with_default_def
      split: option.splits)

lemma config_ok_lists:
  assumes "config_ok env cfg"
  shows "\<forall>r\<in>set (ec_relays cfg). r \<noteq> [] \<and> with_protocol env ''wss:'' r \<and> \<not> isChatInteropRelay env r"
    and "\<forall>r\<in>set (ec_chat_relays cfg). r \<noteq> [] \<and> with_protocol env ''wss:'' r"
    and "\<forall>r\<in>set (ec_blossom cfg). r \<noteq> [] \<and> with_protocol env ''https:'' r"
    and "case ec_children cfg of Some cs \<Rightarrow> cs \<noteq> [] \<and> distinct cs \<and> length cs \<le> MAX_CHILDREN
            \<and> (\<forall>c\<in>set cs. isValidChildCoordinate c) | None \<Rightarrow> True"
  using assms unfolding config_ok_def list_all_iff by blast+

lemma child_nonempty: "isValidChildCoordinate c \<Longrightarrow> c \<noteq> []"
  by (auto simp: isValidChildCoordinate_def parseCoordinate_def)

lemma children_built:
  assumes "config_ok env cfg"
  shows "unique_children cfg = with_default [] (ec_children cfg)"
    and "parse_children (config_tags cfg) = ec_children cfg"
proof -
  show u: "unique_children cfg = with_default [] (ec_children cfg)"
    using config_ok_lists(4) [OF assms] by (simp add: unique_children_def with_default_def split: option.splits)
  show "parse_children (config_tags cfg) = ec_children cfg"
  proof (cases "ec_children cfg")
    case None
    then show ?thesis by (simp add: parse_children_def list_values u with_default_def)
  next
    case (Some cs)
    then have cs: "cs \<noteq> []" "distinct cs" "length cs \<le> MAX_CHILDREN" "\<forall>c\<in>set cs. isValidChildCoordinate c \<and> c \<noteq> []"
      using config_ok_lists(4) [OF assms] child_nonempty by auto
    then have "filter isValidChildCoordinate (filter (\<lambda>v. v \<noteq> []) cs) = cs" by (simp add: filter_id_conv)
    then show ?thesis using Some cs by (simp add: parse_children_def list_values u with_default_def)
  qed
qed

lemma lists_built:
  assumes "config_ok env cfg"
  shows "urlValues env (config_tags cfg) ''relay'' ''wss:'' = ec_relays cfg"
    and "urlValues env (config_tags cfg) ''chat_relay'' ''wss:'' = ec_chat_relays cfg"
    and "urlValues env (config_tags cfg) ''blossom'' ''https:'' = ec_blossom cfg"
    and "filter (\<lambda>r. \<not> isChatInteropRelay env r) (ec_relays cfg) = ec_relays cfg"
    and "filter (isChatInteropRelay env) (ec_relays cfg) = []"
    and "all_values (config_tags cfg) ''chat'' = map backend_name (ec_chat cfg)"
proof -
  have [simp]: "backend_name b \<noteq> []" for b by (cases b) simp
  show "all_values (config_tags cfg) ''chat'' = map backend_name (ec_chat cfg)"
    by (simp add: list_values filter_map comp_def)
qed (use config_ok_lists(1-3) [OF assms] in \<open>simp_all add: urlValues_def list_values filter_id_conv filter_empty_conv\<close>)

lemma parse_fields_built:
  assumes ok: "config_ok env cfg" and num: "reads_numbers env"
  shows "parse_fields env (ec_eid cfg) (config_tags cfg) (ec_d cfg) (ec_inbox cfg) = cfg"
proof (rule event_config.equality)
  note c = ok [unfolded config_ok_def]
  let ?p = "parse_fields env (ec_eid cfg) (config_tags cfg) (ec_d cfg) (ec_inbox cfg)"
  show "ec_coordinator ?p = ec_coordinator cfg" "ec_gen ?p = ec_gen cfg"
    using c by (auto simp: parse_fields_def Let_def parse_coordinator_built [OF ok num] split: option.splits)
  show "ec_max_video ?p = ec_max_video cfg" "ec_max_talk ?p = ec_max_talk cfg" "ec_eck ?p = ec_eck cfg"
    "ec_nostr_context ?p = ec_nostr_context cfg"
    using c by (simp_all add: parse_fields_def Let_def intTag_shown [OF num _ setting_values(1)]
        intTag_shown [OF num _ setting_values(2)] intTag_shown [OF num _ setting_values(6)]
        intTag_shown [OF num _ setting_values(7)])
  show "ec_lang ?p = ec_lang cfg"
    using c normalizeLang_id [of "ec_lang cfg"] normalizeLang_id [of "''en''"]
    by (auto simp: parse_fields_def Let_def optional_values normalizeLang_def [of None] with_default_def
        normalizeLang_def [of "Some ''en''"])
  show "ec_retention ?p = ec_retention cfg"
    using c num by (auto simp: parse_fields_def Let_def retentionTag_def optional_values split: option.splits)
  have "isValidParentCoordinate p \<Longrightarrow> p \<noteq> []" for p by (auto simp: isValidParentCoordinate_def parseCoordinate_def)
  then show "ec_parent ?p = ec_parent cfg"
    using c by (auto simp: parse_fields_def Let_def optional_values nonempty_def split: option.splits)
  show "ec_space_kind ?p = ec_space_kind cfg"
    using c by (auto simp: parse_fields_def Let_def first_values makeCoordinate_kind with_default_def
        KIND_CALENDAR_EVENT_def KIND_COMMUNITY_def split: option.splits)
  show "ec_chat ?p = ec_chat cfg" "ec_chat_relays ?p = ec_chat_relays cfg"
    using c by (simp_all add: parse_fields_def Let_def lists_built [OF ok] map_filter_backends)
qed (simp_all add: parse_fields_def Let_def lists_built [OF ok] children_built [OF ok] setting_values optional_values with_default_def)

lemma parse_built:
  assumes ok: "config_ok env cfg" and num: "reads_numbers env"
  shows "parseEventConfig env (ec_eid cfg) (config_tags cfg) = Inr cfg"
  using ok num parse_fields_built [OF ok num]
  by (simp add: parseEventConfig_def first_values readEventVersionTag_def nonempty_def config_ok_def)

lemma build_ok:
  "config_ok env cfg \<Longrightarrow> buildEventConfig cfg = Inr (KIND_EVENT_CONFIG, config_tags cfg, [])"
  using children_built(1) [of env cfg]
  by (auto simp: buildEventConfig_def config_ok_def nonempty_def with_default_def SPACE_KINDS_def
      split: option.splits if_splits)

text \<open>
  (C9) A usable config survives the wire. Building its tags never fails, and parsing them back under the
  author's key gives the same config, every field included: the defaults the builder leaves out
  (language, talks mode, empty lists, dated event) come back as they were.
\<close>

theorem config_roundtrip:
  assumes "config_ok env cfg" and "reads_numbers env"
  shows "\<exists>tags. buildEventConfig cfg = Inr (KIND_EVENT_CONFIG, tags, []) \<and> parseEventConfig env (ec_eid cfg) tags = Inr cfg"
  using build_ok [OF assms(1)] parse_built [OF assms] by blast

text \<open>
  Reading a config and saving it again, as every admin page does, changes nothing but the order of
  unknown or malformed tags: what the second reader sees is what the first saw.
\<close>

lemma resave_is_faithful:
  assumes "parseEventConfig env eid tags = Inr cfg" and "reads_numbers env"
  shows "parseEventConfig env eid (config_tags cfg) = Inr cfg"
proof -
  have "ec_eid cfg = eid"
    using assms(1) by (auto simp: parseEventConfig_def parse_fields_def Let_def split: option.splits if_splits)
  moreover have "config_ok env cfg"
  proof -
    obtain d inbox where d: "nonempty (tag_value ''d'' tags) = Some d" and inbox: "hex32 inbox"
      and cfg: "cfg = parse_fields env eid tags d inbox"
      using assms(1) by (auto simp: parseEventConfig_def split: option.splits if_splits)
    then show ?thesis using parse_fields_ok by blast
  qed
  ultimately show ?thesis using parse_built assms(2) by blast
qed

section \<open>Concrete instances\<close>

definition read_int :: "string \<Rightarrow> int" where
  "read_int s = (case s of c # r \<Rightarrow> if c = CHR ''-'' then - int (read_nat r) else int (read_nat s) | [] \<Rightarrow> 0)"

lemma read_show_int [simp]: "read_int (show_int n) = n"
proof (cases "n < 0")
  case True
  then show ?thesis unfolding show_int_def read_int_def by simp
next
  case False
  obtain c r where cr: "show_nat (nat n) = c # r" by (cases "show_nat (nat n)") simp_all
  have "is_digit c" using show_nat_digits [of "nat n"] by (simp add: cr)
  then have "c \<noteq> CHR ''-''" by (auto simp: is_digit_def)
  then have "read_int (c # r) = int (read_nat (c # r))" by (simp add: read_int_def)
  then show ?thesis using False by (simp add: show_int_def flip: cr)
qed

definition plain_urls :: url_env where
  "plain_urls = \<lparr>ue_url = (\<lambda>u. if take 6 u = ''wss://'' then Some (''wss:'', drop 6 u)
       else if take 8 u = ''https://'' then Some (''https:'', drop 8 u) else None),
     ue_number = (\<lambda>s. Num (of_int (read_int s)))\<rparr>"

lemma plain_urls_numbers: "reads_numbers plain_urls"
  by (simp add: reads_numbers_def plain_urls_def)

definition sample_config :: event_config where
  "sample_config = \<lparr>ec_d = ''meetup'', ec_eid = replicate 64 CHR ''a'', ec_inbox = replicate 64 CHR ''b'',
     ec_coordinator = Some (replicate 64 CHR ''c''), ec_gen = Some 2, ec_relays = [''wss://r.example''],
     ec_chat_relays = [], ec_blossom = [''https://b.example''], ec_max_video = 0, ec_max_talk = 900,
     ec_matching = True, ec_visibility = PairOnly, ec_approval = Open, ec_eck = 1, ec_nostr_context = 5,
     ec_lang = ''sk'', ec_talks = TalksOn, ec_chat = [Marmot], ec_retention = Some 30, ec_parent = None,
     ec_children = None, ec_space_kind = None\<rparr>"

lemma sample_config_ok: "config_ok plain_urls sample_config"
  by (simp add: config_ok_def sample_config_def hex32_def is_lower_hex_def list_all_iff with_protocol_def
      isChatInteropRelay_def CHAT_INTEROP_HOSTS_def CHAT_INTEROP_RELAYS_def plain_urls_def lang_code_def
      is_lower_letter_def lower_letters)

lemma config_roundtrip_witness:
  "\<exists>tags. buildEventConfig sample_config = Inr (KIND_EVENT_CONFIG, tags, [])
     \<and> parseEventConfig plain_urls (ec_eid sample_config) tags = Inr sample_config"
  by (rule config_roundtrip [OF sample_config_ok plain_urls_numbers])

lemma parsed_config_ok_witness: "config_ok plain_urls sample_config"
  using parsed_config_ok [OF parse_built [OF sample_config_ok plain_urls_numbers]] by simp

end
