(* ===== verification/Settings_Merge.thy ===== *)
theory Settings_Merge
  imports Complex_Main Prelude
begin

text \<open>
  The cross-device merge of the private per-event settings
  (\<open>packages/protocol/src/settings-merge.ts\<close>). A document is normalized into one map of
  stamped entries per field, merged entry by entry with \<open>win\<close>, and denormalized again.

  The abstract specification is a register per entry: \<open>effective\<close> reads the entry of a key,
  present or implicitly absent as of the document's \<open>base\<close>, and the merge refines the
  pointwise join of those registers. The locale \<open>join_merge\<close> is the contract a join must keep
  for replicas to converge.
\<close>

section \<open>The contract of a convergent merge\<close>

locale join_merge =
  fixes join :: "'a \<Rightarrow> 'a \<Rightarrow> 'a"
    and ok :: "'a \<Rightarrow> bool"
  assumes join_ok: "ok x \<Longrightarrow> ok y \<Longrightarrow> ok (join x y)"
    and join_comm: "ok x \<Longrightarrow> ok y \<Longrightarrow> join x y = join y x"
    and join_assoc: "ok x \<Longrightarrow> ok y \<Longrightarrow> ok z \<Longrightarrow> join (join x y) z = join x (join y z)"
    and join_idem: "ok x \<Longrightarrow> join x x = x"
begin

definition join_all :: "'a \<Rightarrow> 'a list \<Rightarrow> 'a" where
  "join_all x ys = foldl join x ys"

lemma join_all_simps [simp]:
  "join_all x [] = x" "join_all x (y # ys) = join_all (join x y) ys"
  by (simp_all add: join_all_def)

lemma join_all_ok: "ok x \<Longrightarrow> (\<And>y. y \<in> set ys \<Longrightarrow> ok y) \<Longrightarrow> ok (join_all x ys)"
  by (induction ys arbitrary: x) (auto intro: join_ok)

lemma join_all_push:
  "ok x \<Longrightarrow> ok z \<Longrightarrow> (\<And>y. y \<in> set ys \<Longrightarrow> ok y) \<Longrightarrow> join_all (join z x) ys = join z (join_all x ys)"
  by (induction ys arbitrary: x) (simp_all add: join_assoc join_ok)

lemma join_left_comm: "ok x \<Longrightarrow> ok y \<Longrightarrow> ok z \<Longrightarrow> join x (join y z) = join y (join x z)"
  using join_assoc [of x y z] join_assoc [of y x z] join_comm [of x y] by simp

lemma join_absorb:
  "z \<in> insert x (set ys) \<Longrightarrow> ok x \<Longrightarrow> (\<And>y. y \<in> set ys \<Longrightarrow> ok y) \<Longrightarrow> join z (join_all x ys) = join_all x ys"
proof (induction ys arbitrary: x z)
  case Nil
  then show ?case by (simp add: join_idem)
next
  case (Cons y ys)
  from Cons.prems have oks: "ok x" "ok y" "\<And>v. v \<in> set ys \<Longrightarrow> ok v" by auto
  have tail: "join (join x y) (join_all (join x y) ys) = join_all (join x y) ys"
    by (rule Cons.IH) (use oks in \<open>auto intro: join_ok\<close>)
  have okt: "ok (join_all (join x y) ys)" using oks by (auto intro: join_all_ok join_ok)
  consider "z = x" | "z = y" | "z \<in> set ys" using Cons.prems(1) by auto
  then show ?case
  proof cases
    case 1
    have "join x (join_all (join x y) ys) = join x (join (join x y) (join_all (join x y) ys))"
      using tail by simp
    also have "\<dots> = join (join x y) (join_all (join x y) ys)"
      using oks okt join_assoc join_idem join_ok by metis
    finally show ?thesis using 1 tail by simp
  next
    case 2
    have "join y (join_all (join x y) ys) = join y (join (join x y) (join_all (join x y) ys))"
      using tail by simp
    also have "\<dots> = join (join x y) (join_all (join x y) ys)"
      using oks okt join_assoc join_idem join_ok join_comm by metis
    finally show ?thesis using 2 tail by simp
  next
    case 3
    with oks show ?thesis by (simp add: Cons.IH join_ok)
  qed
qed

text \<open>The order and the repetition of the merges do not matter.\<close>

lemma join_all_below:
  assumes "set zs \<subseteq> insert x (set ys)" "z \<in> insert x (set ys)"
    and "ok x" "\<And>y. y \<in> set ys \<Longrightarrow> ok y"
  shows "join (join_all z zs) (join_all x ys) = join_all x ys"
  using assms
proof (induction zs arbitrary: z rule: rev_induct)
  case Nil
  then show ?case by (simp add: join_absorb)
next
  case (snoc w ws)
  have "join_all z (ws @ [w]) = join (join_all z ws) w" by (simp add: join_all_def)
  moreover from snoc.prems have "ok z" "ok w" "\<And>v. v \<in> set ws \<Longrightarrow> ok v" by auto
  moreover have "ok (join_all x ys)" using snoc.prems by (auto intro: join_all_ok)
  moreover have "join w (join_all x ys) = join_all x ys"
    using snoc.prems by (intro join_absorb) auto
  moreover have "join (join_all z ws) (join_all x ys) = join_all x ys"
    using snoc.prems by (intro snoc.IH) auto
  ultimately show ?case by (simp add: join_assoc join_all_ok)
qed

lemma join_all_order_irrelevant:
  assumes "insert x (set xs) = insert y (set ys)" "ok x" "\<And>v. v \<in> set xs \<Longrightarrow> ok v"
  shows "join_all x xs = join_all y ys"
proof -
  have oky: "ok y" "\<And>v. v \<in> set ys \<Longrightarrow> ok v" using assms by (metis insertCI insertE)+
  have "join (join_all y ys) (join_all x xs) = join_all x xs"
    and "join (join_all x xs) (join_all y ys) = join_all y ys"
    using assms oky by (auto intro!: join_all_below)
  then show ?thesis using assms oky by (metis join_all_ok join_comm)
qed

end
section \<open>Documents\<close>

definition MAX_SETTINGS_TOMBSTONES :: nat where "MAX_SETTINGS_TOMBSTONES = 200"

datatype list_field = Favorites | WantToMeet | Met

type_synonym stamps = "(pubkey \<times> int) list"

record settings_clock =
  ck_favorites :: stamps
  ck_want_to_meet :: stamps
  ck_met :: stamps
  ck_notes :: stamps

record per_event_settings =
  ps_favorites :: "pubkey list"
  ps_want_to_meet :: "pubkey list"
  ps_met :: "pubkey list"
  ps_notes :: "(string \<times> string) list"
  ps_clock :: "settings_clock option"
  ps_base :: "int option"

record stamped_settings =
  st_settings :: per_event_settings
  st_createdAt :: int

record entry =
  e_present :: bool
  e_at :: int
  e_text :: "string option"

type_synonym entry_map = "(string \<times> entry) list"

record normalized =
  nz_base :: int
  nz_lists :: "list_field \<Rightarrow> entry_map"
  nz_notes :: entry_map
  nz_oddNotes :: "(string \<times> string) list"

text \<open>The indexed accesses \<open>settings[f]\<close> and \<open>clock[f]\<close>.\<close>

fun settings_list :: "list_field \<Rightarrow> per_event_settings \<Rightarrow> pubkey list" where
  "settings_list Favorites s = ps_favorites s"
| "settings_list WantToMeet s = ps_want_to_meet s"
| "settings_list Met s = ps_met s"

fun clock_list :: "list_field \<Rightarrow> settings_clock \<Rightarrow> stamps" where
  "clock_list Favorites c = ck_favorites c"
| "clock_list WantToMeet c = ck_want_to_meet c"
| "clock_list Met c = ck_met c"

definition or_else :: "'a option \<Rightarrow> 'a \<Rightarrow> 'a" where
  "or_else x d = (case x of Some y \<Rightarrow> y | None \<Rightarrow> d)"

lemma or_else_simps [simp]: "or_else (Some x) d = x" "or_else None d = d"
  by (simp_all add: or_else_def)

definition absent :: "int \<Rightarrow> entry" where
  "absent tm = \<lparr>e_present = False, e_at = tm, e_text = None\<rparr>"

text \<open>The stamps of keys the map does not hold yet become tombstones.\<close>

definition add_tombstones :: "stamps \<Rightarrow> entry_map \<Rightarrow> entry_map" where
  "add_tombstones ss m =
     foldl (\<lambda>m (pk, tm). if map_of m pk = None then AList.update pk (absent tm) m else m) m ss"

definition normalize_list :: "int \<Rightarrow> stamps \<Rightarrow> pubkey list \<Rightarrow> entry_map" where
  "normalize_list base ss pks =
     add_tombstones ss
       (foldl (\<lambda>m pk. AList.update pk
                 \<lparr>e_present = True, e_at = or_else (map_of ss pk) base, e_text = None\<rparr> m) [] pks)"

definition normalize_notes :: "int \<Rightarrow> stamps \<Rightarrow> (string \<times> string) list \<Rightarrow> entry_map" where
  "normalize_notes base ss ns =
     add_tombstones ss
       (foldl (\<lambda>m (pk, txt). AList.update pk
                 \<lparr>e_present = True, e_at = or_else (map_of ss pk) base, e_text = Some txt\<rparr> m)
          [] (filter (\<lambda>(pk, _). hex32 pk) ns))"

text \<open>\<open>oddNotes[pk] = text\<close> for the key \<open>__proto__\<close> sets no own property.\<close>

definition odd_notes :: "(string \<times> string) list \<Rightarrow> (string \<times> string) list" where
  "odd_notes ns = filter (\<lambda>(pk, _). \<not> hex32 pk \<and> pk \<noteq> ''__proto__'') ns"

definition normalize :: "stamped_settings \<Rightarrow> normalized" where
  "normalize d =
     (let s = st_settings d; clock = ps_clock s;
          base = (case clock of Some _ \<Rightarrow> or_else (ps_base s) 0
                              | None \<Rightarrow> max 0 (st_createdAt d) * 1000);
          stamps = (\<lambda>f. case clock of Some c \<Rightarrow> clock_list f c | None \<Rightarrow> []);
          noteStamps = (case clock of Some c \<Rightarrow> ck_notes c | None \<Rightarrow> [])
      in \<lparr>nz_base = base,
          nz_lists = (\<lambda>f. normalize_list base (stamps f) (settings_list f s)),
          nz_notes = normalize_notes base noteStamps (ps_notes s),
          nz_oddNotes = odd_notes (ps_notes s)\<rparr>)"

section \<open>Merging\<close>

definition win :: "entry \<Rightarrow> entry \<Rightarrow> entry" where
  "win a b =
     (if e_at a \<noteq> e_at b then (if e_at a > e_at b then a else b)
      else if e_present a \<noteq> e_present b then (if e_present a then a else b)
      else if or_else (e_text a) [] \<noteq> or_else (e_text b) []
        then (if or_else (e_text a) [] > or_else (e_text b) [] then a else b)
      else a)"

definition lookup_entry :: "entry_map \<Rightarrow> int \<Rightarrow> string \<Rightarrow> entry" where
  "lookup_entry m base k = or_else (map_of m k) (absent base)"

definition mergeMaps :: "entry_map \<Rightarrow> int \<Rightarrow> entry_map \<Rightarrow> int \<Rightarrow> entry_map" where
  "mergeMaps a aBase b bBase =
     map (\<lambda>k. (k, win (lookup_entry a aBase k) (lookup_entry b bBase k)))
       (js_distinct (map fst a @ map fst b))"

definition entry_le :: "string \<times> entry \<Rightarrow> string \<times> entry \<Rightarrow> bool" where
  "entry_le x y \<longleftrightarrow> e_at (snd x) < e_at (snd y) \<or> e_at (snd x) = e_at (snd y) \<and> fst x \<le> fst y"

definition tombstones :: "int \<Rightarrow> entry_map \<Rightarrow> entry_map" where
  "tombstones base m = filter (\<lambda>(_, e). \<not> e_present e \<and> e_at e > base) m"

text \<open>The inner \<open>emit\<close>: the stamps it writes, and the present entries it hands out, in order.\<close>

definition emit :: "int \<Rightarrow> entry_map \<Rightarrow> stamps \<times> entry_map" where
  "emit base m =
     (let ordered = sort_by entry_le m;
          keepTombs = map fst (slice_last MAX_SETTINGS_TOMBSTONES (tombstones base ordered))
      in (map (\<lambda>(pk, e). (pk, e_at e))
            (filter (\<lambda>(pk, e). e_present e \<or> pk \<in> set keepTombs) ordered),
          filter (\<lambda>(_, e). e_present e) ordered))"

text \<open>\<open>k in obj\<close> also sees what an object literal inherits.\<close>

definition object_prototype_keys :: "string list" where
  "object_prototype_keys =
     [''constructor'', ''hasOwnProperty'', ''isPrototypeOf'', ''propertyIsEnumerable'',
      ''toLocaleString'', ''toString'', ''valueOf'', ''__proto__'', ''__defineGetter__'',
      ''__defineSetter__'', ''__lookupGetter__'', ''__lookupSetter__'']"

definition add_odd_notes :: "(string \<times> string) list \<Rightarrow> (string \<times> string) list \<Rightarrow> (string \<times> string) list" where
  "add_odd_notes oddn notes =
     foldl (\<lambda>out (k, txt).
              if k \<in> set (map fst out) \<or> k \<in> set object_prototype_keys then out
              else out @ [(k, txt)]) notes oddn"

definition denormalize :: "normalized \<Rightarrow> per_event_settings" where
  "denormalize n =
     (let out = (\<lambda>f. emit (nz_base n) (nz_lists n f));
          notes = emit (nz_base n) (nz_notes n)
      in \<lparr>ps_favorites = map fst (snd (out Favorites)),
          ps_want_to_meet = map fst (snd (out WantToMeet)),
          ps_met = map fst (snd (out Met)),
          ps_notes = add_odd_notes (nz_oddNotes n)
                       (map (\<lambda>(pk, e). (pk, or_else (e_text e) [])) (snd notes)),
          ps_clock = Some \<lparr>ck_favorites = fst (out Favorites), ck_want_to_meet = fst (out WantToMeet),
                           ck_met = fst (out Met), ck_notes = fst notes\<rparr>,
          ps_base = Some (nz_base n)\<rparr>)"

text \<open>\<open>{ ...a, ...b }\<close>: the keys of \<open>a\<close> first, the values of \<open>b\<close> where both have one.\<close>

definition spread :: "(string \<times> 'a) list \<Rightarrow> (string \<times> 'a) list \<Rightarrow> (string \<times> 'a) list" where
  "spread a b = foldl (\<lambda>m (k, v). AList.update k v m) a b"

definition merge_normalized :: "normalized \<Rightarrow> normalized \<Rightarrow> normalized" where
  "merge_normalized na nb =
     \<lparr>nz_base = max (nz_base na) (nz_base nb),
      nz_lists = (\<lambda>f. mergeMaps (nz_lists na f) (nz_base na) (nz_lists nb f) (nz_base nb)),
      nz_notes = mergeMaps (nz_notes na) (nz_base na) (nz_notes nb) (nz_base nb),
      nz_oddNotes = spread (nz_oddNotes nb) (nz_oddNotes na)\<rparr>"

definition mergePerEventSettings :: "stamped_settings \<Rightarrow> stamped_settings \<Rightarrow> per_event_settings" where
  "mergePerEventSettings a b = denormalize (merge_normalized (normalize a) (normalize b))"

section \<open>Editing\<close>

datatype settings_edit = Toggle list_field pubkey | Note pubkey string

fun editPerEventSettings :: "stamped_settings \<Rightarrow> settings_edit \<Rightarrow> rat \<Rightarrow> per_event_settings" where
  "editPerEventSettings doc (Toggle f pk) nowMs =
     (let n = normalize doc; cur = lookup_entry (nz_lists n f) (nz_base n) pk;
          tm = max (max \<lfloor>nowMs\<rfloor> (e_at cur + 1)) (nz_base n + 1)
      in denormalize (n\<lparr>nz_lists := (nz_lists n)(f :=
           AList.update pk \<lparr>e_present = \<not> e_present cur, e_at = tm, e_text = None\<rparr> (nz_lists n f))\<rparr>))"
| "editPerEventSettings doc (Note pk note) nowMs =
     (let n = normalize doc; cur = lookup_entry (nz_notes n) (nz_base n) pk;
          tm = max (max \<lfloor>nowMs\<rfloor> (e_at cur + 1)) (nz_base n + 1);
          txt = js_trim note
      in denormalize (n\<lparr>nz_notes :=
           AList.update pk (if txt \<noteq> [] then \<lparr>e_present = True, e_at = tm, e_text = Some txt\<rparr>
                            else absent tm) (nz_notes n)\<rparr>))"

definition emptyPerEventSettings :: per_event_settings where
  "emptyPerEventSettings =
     \<lparr>ps_favorites = [], ps_want_to_meet = [], ps_met = [], ps_notes = [],
      ps_clock = Some \<lparr>ck_favorites = [], ck_want_to_meet = [], ck_met = [], ck_notes = []\<rparr>,
      ps_base = Some 0\<rparr>"


section \<open>Documents as maps\<close>

lemma map_of_filter_distinct:
  "distinct (map fst m) \<Longrightarrow>
   map_of (filter (\<lambda>(k, e). P k e) m) k =
     (case map_of m k of Some e \<Rightarrow> if P k e then Some e else None | None \<Rightarrow> None)"
  by (induction m) (force simp: image_iff split: option.split dest: map_of_SomeD)+

lemma distinct_fst_sort_by [simp]: "distinct (map fst (sort_by le m)) = distinct (map fst m)"
  by (metis mset_eq_imp_distinct_iff mset_map mset_sort_by)

lemma map_of_sort_by [simp]: "distinct (map fst m) \<Longrightarrow> map_of (sort_by le m) = map_of m"
  by (simp add: map_of_inject_set)

lemma map_of_map_keys: "map_of (map (\<lambda>k. (k, f k)) ks) k = (if k \<in> set ks then Some (f k) else None)"
  by (induction ks) auto

lemma map_of_map_value: "map_of (map (\<lambda>(k, v). (k, f v)) xs) k = map_option f (map_of xs k)"
  by (induction xs) auto

lemma fst_map_value [simp]: "map fst (map (\<lambda>(k, v). (k, f v)) xs) = map fst xs"
  by (induction xs) auto

lemma map_of_add_tombstones:
  "map_of (add_tombstones ss m) k =
     (case map_of m k of Some e \<Rightarrow> Some e | None \<Rightarrow> map_option absent (map_of ss k))"
proof (induction ss arbitrary: m)
  case Nil
  then show ?case by (simp add: add_tombstones_def split: option.split)
next
  case (Cons p ss)
  obtain k' tm where p: "p = (k', tm)" by force
  have "add_tombstones (p # ss) m =
          add_tombstones ss (if map_of m k' = None then AList.update k' (absent tm) m else m)"
    by (simp add: add_tombstones_def p)
  then show ?case by (simp add: Cons.IH p AList.update_conv' split: option.split)
qed

lemma distinct_add_tombstones: "distinct (map fst m) \<Longrightarrow> distinct (map fst (add_tombstones ss m))"
  by (induction ss arbitrary: m)
    (auto simp: add_tombstones_def AList.distinct_update split: prod.split)

lemma map_of_fold_list:
  "map_of (foldl (\<lambda>m pk. AList.update pk (g pk) m) m pks) k =
     (if k \<in> set pks then Some (g k) else map_of m k)"
  by (induction pks arbitrary: m) (auto simp: AList.update_conv')

lemma distinct_fold_list:
  "distinct (map fst m) \<Longrightarrow> distinct (map fst (foldl (\<lambda>m pk. AList.update pk (g pk) m) m pks))"
  by (induction pks arbitrary: m) (auto simp: AList.distinct_update)

lemma map_of_fold_notes:
  "distinct (map fst ns) \<Longrightarrow>
   map_of (foldl (\<lambda>m (pk, txt). AList.update pk (g pk txt) m) m ns) k =
     (case map_of ns k of Some txt \<Rightarrow> Some (g k txt) | None \<Rightarrow> map_of m k)"
proof (induction ns arbitrary: m)
  case Nil
  then show ?case by simp
next
  case (Cons p ns)
  obtain k' v where p: "p = (k', v)" by force
  with Cons.prems have "map_of ns k' = None" by (simp add: map_of_eq_None_iff)
  with Cons p show ?case by (auto simp: AList.update_conv' split: option.split)
qed

lemma distinct_fold_notes:
  "distinct (map fst m) \<Longrightarrow>
   distinct (map fst (foldl (\<lambda>m (pk, txt). AList.update pk (g pk txt) m) m ns))"
  by (induction ns arbitrary: m) (auto simp: AList.distinct_update split: prod.split)

lemma set_fold_notes_hex:
  "fst ` set (foldl (\<lambda>m (pk, txt). AList.update pk (g pk txt) m) m ns) = fst ` set m \<union> fst ` set ns"
proof (induction ns arbitrary: m)
  case (Cons p ns)
  then show ?case using AList.dom_update [of "fst p" "g (fst p) (snd p)" m]
    by (cases p) auto
qed simp

lemma map_of_normalize_list:
  "map_of (normalize_list base ss pks) k =
     (if k \<in> set pks then Some \<lparr>e_present = True, e_at = or_else (map_of ss k) base, e_text = None\<rparr>
      else map_option absent (map_of ss k))"
  by (simp add: normalize_list_def map_of_add_tombstones map_of_fold_list)

lemma map_of_normalize_notes:
  assumes "distinct (map fst ns)"
  shows "map_of (normalize_notes base ss ns) k =
     (case map_of (filter (\<lambda>(k, _). hex32 k) ns) k of
        Some txt \<Rightarrow> Some \<lparr>e_present = True, e_at = or_else (map_of ss k) base, e_text = Some txt\<rparr>
      | None \<Rightarrow> map_option absent (map_of ss k))"
proof -
  have d: "distinct (map fst (filter (\<lambda>(k, _). hex32 k) ns))" using assms by (rule distinct_map_filter)
  show ?thesis
    unfolding normalize_notes_def map_of_add_tombstones map_of_fold_notes [OF d]
    by (cases "map_of (filter (\<lambda>(k, _). hex32 k) ns) k") simp_all
qed

lemma distinct_normalize [simp]:
  "distinct (map fst (normalize_list base ss pks))" "distinct (map fst (normalize_notes base ss ns))"
  by (simp_all add: normalize_list_def normalize_notes_def distinct_add_tombstones
        distinct_fold_list distinct_fold_notes)


section \<open>The registers of a document\<close>

text \<open>
  \<open>registers\<close> is the abstraction function: the base, and for every field and key the entry
  a reader sees, explicit or absent as of the base.
\<close>

datatype reg_field = InList list_field | InNotes

fun nz_map :: "reg_field \<Rightarrow> normalized \<Rightarrow> entry_map" where
  "nz_map (InList f) n = nz_lists n f"
| "nz_map InNotes n = nz_notes n"

type_synonym registers = "int \<times> (reg_field \<Rightarrow> string \<Rightarrow> entry)"

definition nz_registers :: "normalized \<Rightarrow> registers" where
  "nz_registers n = (nz_base n, \<lambda>f k. lookup_entry (nz_map f n) (nz_base n) k)"

definition registers :: "stamped_settings \<Rightarrow> registers" where
  "registers d = nz_registers (normalize d)"

definition join_registers :: "registers \<Rightarrow> registers \<Rightarrow> registers" where
  "join_registers a b = (max (fst a) (fst b), \<lambda>f k. win (snd a f k) (snd b f k))"

definition entry_shape :: "reg_field \<Rightarrow> int \<Rightarrow> entry \<Rightarrow> bool" where
  "entry_shape f base e \<longleftrightarrow> base \<le> e_at e \<and> (e_text e \<noteq> None \<longleftrightarrow> f = InNotes \<and> e_present e)"

definition registers_ok :: "registers \<Rightarrow> bool" where
  "registers_ok r \<longleftrightarrow> (\<forall>f k. entry_shape f (fst r) (snd r f k))"

lemma entry_shape_absent [simp]: "entry_shape f base (absent tm) \<longleftrightarrow> base \<le> tm"
  by (auto simp: entry_shape_def absent_def)

lemma win_cases: "win a b = a \<or> win a b = b"
  by (auto simp: win_def)

lemma win_at: "e_at (win a b) = max (e_at a) (e_at b)"
  by (auto simp: win_def)

lemma win_idem [simp]: "win a a = a"
  by (simp add: win_def)

lemma win_comm: "entry_shape f x a \<Longrightarrow> entry_shape f y b \<Longrightarrow> win a b = win b a"
  by (cases a; cases b; cases "e_text a"; cases "e_text b") (auto simp: win_def entry_shape_def)

lemma win_assoc:
  "entry_shape f x a \<Longrightarrow> entry_shape f y b \<Longrightarrow> entry_shape f z c \<Longrightarrow> win (win a b) c = win a (win b c)"
  unfolding win_def by (smt (verit) order_less_trans linorder_less_linear)

lemma win_shape: "entry_shape f x a \<Longrightarrow> entry_shape f y b \<Longrightarrow> entry_shape f (max x y) (win a b)"
  using win_cases [of a b] win_at [of a b] by (auto simp: entry_shape_def)

interpretation regs: join_merge join_registers registers_ok
proof unfold_locales
  fix x y z :: registers
  assume ok: "registers_ok x" "registers_ok y"
  show "registers_ok (join_registers x y)"
    using ok by (auto simp: registers_ok_def join_registers_def intro: win_shape)
  show "join_registers x y = join_registers y x"
    using ok by (auto simp: registers_ok_def join_registers_def max.commute intro!: ext win_comm)
  assume "registers_ok z"
  then show "join_registers (join_registers x y) z = join_registers x (join_registers y z)"
    using ok by (auto simp: registers_ok_def join_registers_def max.assoc intro!: ext win_assoc)
next
  fix x :: registers
  show "join_registers x x = x" by (simp add: join_registers_def)
qed


text \<open>
  What the schema and the writers of a document guarantee: object keys are unique, stamped keys
  are pubkeys, and no stamp is below the base.
\<close>

definition stamps_ok :: "int \<Rightarrow> stamps \<Rightarrow> bool" where
  "stamps_ok base ss \<longleftrightarrow> distinct (map fst ss) \<and> (\<forall>(pk, tm)\<in>set ss. hex32 pk \<and> base \<le> tm)"

definition settings_ok :: "per_event_settings \<Rightarrow> bool" where
  "settings_ok s \<longleftrightarrow>
     distinct (map fst (ps_notes s)) \<and>
     (\<forall>f\<in>{Favorites, WantToMeet, Met}. \<forall>pk\<in>set (settings_list f s). hex32 pk) \<and>
     (case ps_clock s of None \<Rightarrow> True
      | Some c \<Rightarrow> (let base = or_else (ps_base s) 0 in
          (\<forall>f\<in>{Favorites, WantToMeet, Met}. stamps_ok base (clock_list f c)) \<and>
          stamps_ok base (ck_notes c)))"

definition map_ok :: "reg_field \<Rightarrow> int \<Rightarrow> entry_map \<Rightarrow> bool" where
  "map_ok f base m \<longleftrightarrow>
     distinct (map fst m) \<and> (\<forall>(k, e)\<in>set m. hex32 k \<and> entry_shape f base e)"

definition nz_ok :: "normalized \<Rightarrow> bool" where
  "nz_ok n \<longleftrightarrow>
     (\<forall>f. map_ok f (nz_base n) (nz_map f n)) \<and> distinct (map fst (nz_oddNotes n)) \<and>
     (\<forall>(k, _)\<in>set (nz_oddNotes n). \<not> hex32 k)"

lemma list_field_UNIV: "f \<in> {Favorites, WantToMeet, Met}"
  by (cases f) auto

lemma map_okI:
  assumes "distinct (map fst m)"
    and "\<And>k e. map_of m k = Some e \<Longrightarrow> hex32 k \<and> entry_shape f base e"
  shows "map_ok f base m"
  using assms by (auto simp: map_ok_def)

lemma map_okD: "map_ok f base m \<Longrightarrow> map_of m k = Some e \<Longrightarrow> hex32 k \<and> entry_shape f base e"
  by (auto simp: map_ok_def dest: map_of_SomeD)

lemma stamps_okD: "stamps_ok base ss \<Longrightarrow> map_of ss k = Some tm \<Longrightarrow> hex32 k \<and> base \<le> tm"
  by (auto simp: stamps_ok_def dest: map_of_SomeD)

lemma stamps_ok_or_else: "stamps_ok base ss \<Longrightarrow> base \<le> or_else (map_of ss k) base"
  by (cases "map_of ss k") (auto dest: stamps_okD)

lemma stamps_ok_Nil [simp]: "stamps_ok base []"
  by (simp add: stamps_ok_def)

lemma map_ok_normalize_list:
  assumes "stamps_ok base ss" "\<And>pk. pk \<in> set pks \<Longrightarrow> hex32 pk"
  shows "map_ok (InList f) base (normalize_list base ss pks)"
  using assms by (intro map_okI)
    (auto simp: map_of_normalize_list entry_shape_def absent_def split: if_splits
       dest: stamps_okD intro: stamps_ok_or_else)

lemma map_ok_normalize_notes:
  assumes "stamps_ok base ss" "distinct (map fst ns)"
  shows "map_ok InNotes base (normalize_notes base ss ns)"
  using assms by (intro map_okI)
    (auto simp: map_of_normalize_notes entry_shape_def absent_def split: option.splits
       dest: stamps_okD map_of_SomeD intro: stamps_ok_or_else)

lemma distinct_odd_notes: "distinct (map fst ns) \<Longrightarrow> distinct (map fst (odd_notes ns))"
  by (simp add: odd_notes_def distinct_map_filter)

lemma nz_ok_normalize:
  assumes ok: "settings_ok (st_settings d)"
  shows "nz_ok (normalize d)"
proof -
  have hex: "hex32 pk" if "pk \<in> set (settings_list f (st_settings d))" for f pk
    using ok that list_field_UNIV [of f] unfolding settings_ok_def by blast
  have st: "stamps_ok (or_else (ps_base (st_settings d)) 0) (clock_list f c)"
    "stamps_ok (or_else (ps_base (st_settings d)) 0) (ck_notes c)"
    if "ps_clock (st_settings d) = Some c" for c f
    using ok that list_field_UNIV [of f] unfolding settings_ok_def Let_def by auto
  have dn: "distinct (map fst (ps_notes (st_settings d)))" using ok by (simp add: settings_ok_def)
  have "map_ok f (nz_base (normalize d)) (nz_map f (normalize d))" for f
    by (cases f; cases "ps_clock (st_settings d)")
      (auto simp: normalize_def Let_def hex st dn intro!: map_ok_normalize_list map_ok_normalize_notes)
  moreover have "distinct (map fst (nz_oddNotes (normalize d)))"
    using dn by (simp add: normalize_def Let_def distinct_odd_notes)
  moreover have "\<forall>(k, _)\<in>set (nz_oddNotes (normalize d)). \<not> hex32 k"
    by (auto simp: normalize_def Let_def odd_notes_def)
  ultimately show ?thesis by (simp add: nz_ok_def)
qed

lemma lookup_entry_shape: "map_ok f base m \<Longrightarrow> entry_shape f base (lookup_entry m base k)"
  by (cases "map_of m k") (auto simp: lookup_entry_def dest: map_okD)

lemma registers_ok_nz: "nz_ok n \<Longrightarrow> registers_ok (nz_registers n)"
  by (simp add: nz_ok_def registers_ok_def nz_registers_def lookup_entry_shape)

subsection \<open>Merging normalized documents\<close>

lemma map_of_mergeMaps:
  "map_of (mergeMaps a aBase b bBase) k =
     (if k \<in> fst ` set a \<union> fst ` set b
      then Some (win (lookup_entry a aBase k) (lookup_entry b bBase k)) else None)"
  by (simp add: mergeMaps_def map_of_map_keys)

lemma distinct_mergeMaps [simp]: "distinct (map fst (mergeMaps a aBase b bBase))"
  by (simp add: mergeMaps_def comp_def)

lemma lookup_absent: "k \<notin> fst ` set m \<Longrightarrow> lookup_entry m base k = absent base"
  by (simp add: lookup_entry_def map_of_eq_None_iff [THEN iffD2])

lemma win_absent: "win (absent x) (absent y) = absent (max x y)"
  by (auto simp: win_def absent_def)

lemma lookup_mergeMaps:
  "lookup_entry (mergeMaps a aBase b bBase) (max aBase bBase) k =
     win (lookup_entry a aBase k) (lookup_entry b bBase k)"
  by (auto simp: lookup_entry_def [of "mergeMaps a aBase b bBase"] map_of_mergeMaps lookup_absent win_absent)

lemma map_ok_mergeMaps:
  assumes "map_ok f aBase a" "map_ok f bBase b"
  shows "map_ok f (max aBase bBase) (mergeMaps a aBase b bBase)"
proof (rule map_okI)
  fix k e assume "map_of (mergeMaps a aBase b bBase) k = Some e"
  then have k: "k \<in> fst ` set a \<union> fst ` set b"
    and e: "e = win (lookup_entry a aBase k) (lookup_entry b bBase k)"
    by (auto simp: map_of_mergeMaps split: if_splits)
  from k assms have "hex32 k" by (auto simp: map_ok_def)
  then show "hex32 k \<and> entry_shape f (max aBase bBase) e"
    by (simp add: e win_shape lookup_entry_shape assms)
qed simp

lemma nz_map_merge [simp]:
  "nz_map f (merge_normalized na nb) =
     mergeMaps (nz_map f na) (nz_base na) (nz_map f nb) (nz_base nb)"
  by (cases f) (simp_all add: merge_normalized_def)

lemma nz_base_merge [simp]: "nz_base (merge_normalized na nb) = max (nz_base na) (nz_base nb)"
  by (simp add: merge_normalized_def)

lemma keys_spread: "fst ` set (spread a b) = fst ` set a \<union> fst ` set b"
  by (simp add: spread_def set_fold_notes_hex [of "\<lambda>_ v. v"])

lemma distinct_spread: "distinct (map fst a) \<Longrightarrow> distinct (map fst (spread a b))"
  by (simp add: spread_def distinct_fold_notes [of _ "\<lambda>_ v. v"])

lemma nz_ok_merge:
  assumes "nz_ok na" "nz_ok nb"
  shows "nz_ok (merge_normalized na nb)"
proof -
  have "\<not> hex32 k" if "k \<in> fst ` set (spread (nz_oddNotes nb) (nz_oddNotes na))" for k
    using that assms unfolding keys_spread by (auto simp: nz_ok_def)
  then show ?thesis using assms
    by (fastforce simp: nz_ok_def map_ok_mergeMaps merge_normalized_def [of na nb, THEN arg_cong, of nz_oddNotes]
          distinct_spread)
qed

lemma nz_registers_merge:
  "nz_registers (merge_normalized na nb) = join_registers (nz_registers na) (nz_registers nb)"
  by (simp add: nz_registers_def join_registers_def lookup_mergeMaps)


subsection \<open>Writing a normalized document out\<close>

lemma tombstones_sort: "length (tombstones base (sort_by le m)) = length (tombstones base m)"
proof -
  have "mset (tombstones base (sort_by le m)) = mset (tombstones base m)"
    by (simp add: tombstones_def)
  then show ?thesis by (rule mset_eq_length)
qed

lemma emit_keep:
  assumes "length (tombstones base m) \<le> MAX_SETTINGS_TOMBSTONES"
  shows "emit base m =
    (map (\<lambda>(pk, e). (pk, e_at e))
       (filter (\<lambda>(pk, e). e_present e \<or> pk \<in> fst ` set (tombstones base m)) (sort_by entry_le m)),
     filter (\<lambda>(_, e). e_present e) (sort_by entry_le m))"
proof -
  have "set (tombstones base (sort_by entry_le m)) = set (tombstones base m)"
    by (simp add: tombstones_def)
  then show ?thesis using assms by (simp add: emit_def Let_def tombstones_sort)
qed

lemma map_of_emit:
  assumes d: "distinct (map fst m)" and few: "length (tombstones base m) \<le> MAX_SETTINGS_TOMBSTONES"
  shows "map_of (fst (emit base m)) k =
      (case map_of m k of Some e \<Rightarrow> if e_present e \<or> base < e_at e then Some (e_at e) else None
                        | None \<Rightarrow> None)"
    and "map_of (snd (emit base m)) k =
      (case map_of m k of Some e \<Rightarrow> if e_present e then Some e else None | None \<Rightarrow> None)"
proof -
  have tomb: "e_present e \<or> k \<in> fst ` set (tombstones base m) \<longleftrightarrow> e_present e \<or> base < e_at e"
    if "map_of m k = Some e" for e
  proof -
    have "e' = e" if "(k, e') \<in> set m" for e' using that \<open>map_of m k = Some e\<close> d by simp
    moreover have "(k, e) \<in> set m" using \<open>map_of m k = Some e\<close> by (rule map_of_SomeD)
    moreover have "k \<in> fst ` set (tombstones base m) \<longleftrightarrow>
        (\<exists>e'. (k, e') \<in> set m \<and> \<not> e_present e' \<and> base < e_at e')"
      unfolding tombstones_def by (auto simp: image_iff)
    ultimately show ?thesis by blast
  qed
  show "map_of (fst (emit base m)) k =
      (case map_of m k of Some e \<Rightarrow> if e_present e \<or> base < e_at e then Some (e_at e) else None
                        | None \<Rightarrow> None)"
  proof (cases "map_of m k")
    case None
    then show ?thesis using d
      by (simp only: emit_keep [OF few] fst_conv map_of_map_value)
        (simp add: map_of_filter_distinct)
  next
    case (Some e)
    then show ?thesis using d tomb [OF Some]
      by (simp only: emit_keep [OF few] fst_conv map_of_map_value)
        (simp add: map_of_filter_distinct)
  qed
  show "map_of (snd (emit base m)) k =
      (case map_of m k of Some e \<Rightarrow> if e_present e then Some e else None | None \<Rightarrow> None)"
    using d by (cases "map_of m k") (simp_all add: emit_keep [OF few] map_of_filter_distinct)
qed

lemma distinct_emit:
  assumes "distinct (map fst m)"
  shows "distinct (map fst (fst (emit base m)))" "distinct (map fst (snd (emit base m)))"
  using assms unfolding emit_def Let_def fst_conv snd_conv fst_map_value
  by (simp_all add: distinct_map_filter)

lemma set_emit: "fst ` set (fst (emit base m)) \<subseteq> fst ` set m" "set (snd (emit base m)) \<subseteq> set m"
proof -
  have "set (map fst (fst (emit base m))) \<subseteq> fst ` set m"
    unfolding emit_def Let_def fst_conv fst_map_value by auto
  then show "fst ` set (fst (emit base m)) \<subseteq> fst ` set m" by simp
  show "set (snd (emit base m)) \<subseteq> set m" by (auto simp: emit_def Let_def)
qed

lemma entry_absent: "entry_shape f base e \<Longrightarrow> \<not> e_present e \<Longrightarrow> e = absent (e_at e)"
  by (auto simp: entry_shape_def absent_def)

lemma entry_list: "entry_shape (InList f) base e \<Longrightarrow> e_present e \<Longrightarrow>
    e = \<lparr>e_present = True, e_at = e_at e, e_text = None\<rparr>"
  by (auto simp: entry_shape_def)

lemma lookup_list_emit:
  assumes ok: "map_ok (InList f) base m"
    and few: "length (tombstones base m) \<le> MAX_SETTINGS_TOMBSTONES"
  shows "lookup_entry (normalize_list base (fst (emit base m)) (map fst (snd (emit base m)))) base k =
         lookup_entry m base k"
proof -
  have d: "distinct (map fst m)" using ok by (simp add: map_ok_def)
  have in_snd: "k \<in> fst ` set (snd (emit base m)) \<longleftrightarrow> map_of (snd (emit base m)) k \<noteq> None"
    by (simp add: map_of_eq_None_iff)
  show ?thesis
  proof (cases "map_of m k")
    case None
    then show ?thesis
      by (simp add: lookup_entry_def map_of_normalize_list in_snd map_of_emit [OF d few])
  next
    case (Some e)
    then have sh: "entry_shape (InList f) base e" using ok by (simp add: map_okD)
    then have "base \<le> e_at e" by (simp add: entry_shape_def)
    then show ?thesis using Some entry_absent [OF sh] entry_list [OF sh]
      by (auto simp: lookup_entry_def map_of_normalize_list in_snd map_of_emit [OF d few])
  qed
qed

lemma keys_add_odd_notes:
  "fst ` set (add_odd_notes oddn live) \<subseteq> fst ` set live \<union> fst ` set oddn"
proof (induction oddn arbitrary: live)
  case Nil
  then show ?case by (simp add: add_odd_notes_def)
next
  case (Cons p oddn)
  have "add_odd_notes (p # oddn) live = add_odd_notes oddn live \<or>
        add_odd_notes (p # oddn) live = add_odd_notes oddn (live @ [p])"
    by (cases p) (simp add: add_odd_notes_def)
  then show ?case using Cons.IH [of live] Cons.IH [of "live @ [p]"]
    by (elim disjE) (simp_all add: subset_insertI2)
qed

lemma distinct_add_odd_notes:
  "distinct (map fst live) \<Longrightarrow> distinct (map fst (add_odd_notes oddn live))"
  by (induction oddn arbitrary: live) (auto simp: add_odd_notes_def)

lemma hex_add_odd_notes:
  "(\<And>k v. (k, v) \<in> set oddn \<Longrightarrow> \<not> hex32 k) \<Longrightarrow>
   filter (\<lambda>(k, _). hex32 k) (add_odd_notes oddn live) = filter (\<lambda>(k, _). hex32 k) live"
proof (induction oddn arbitrary: live)
  case Nil
  then show ?case by (simp add: add_odd_notes_def)
next
  case (Cons p oddn)
  obtain k v where p: "p = (k, v)" by force
  have "\<not> hex32 k" using Cons.prems [of k v] by (simp add: p)
  moreover have "filter (\<lambda>(k, _). hex32 k) (add_odd_notes oddn ns) = filter (\<lambda>(k, _). hex32 k) ns" for ns
    using Cons.prems by (intro Cons.IH) auto
  ultimately show ?case by (simp add: add_odd_notes_def p)
qed


lemma lookup_notes_emit:
  assumes ok: "map_ok InNotes base m"
    and few: "length (tombstones base m) \<le> MAX_SETTINGS_TOMBSTONES"
    and oddn: "\<And>k v. (k, v) \<in> set oddn \<Longrightarrow> \<not> hex32 k"
  shows "lookup_entry (normalize_notes base (fst (emit base m))
           (add_odd_notes oddn (map (\<lambda>(pk, e). (pk, or_else (e_text e) [])) (snd (emit base m))))) base k =
         lookup_entry m base k"
proof -
  have d: "distinct (map fst m)" using ok by (simp add: map_ok_def)
  let ?live = "map (\<lambda>(pk, e). (pk, or_else (e_text e) [])) (snd (emit base m))"
  have dl: "distinct (map fst ?live)" unfolding fst_map_value using d by (rule distinct_emit)
  have "hex32 k" if "(k, v) \<in> set ?live" for k v
    using that set_emit(2) [of base m] ok by (auto simp: map_ok_def)
  then have "filter (\<lambda>(k, _). hex32 k) ?live = ?live" by (auto intro: filter_True)
  with hex_add_odd_notes [of oddn ?live] oddn
  have fl: "filter (\<lambda>(k, _). hex32 k) (add_odd_notes oddn ?live) = ?live" by simp
  have *: "map_of (normalize_notes base (fst (emit base m)) (add_odd_notes oddn ?live)) k =
     (case map_of (snd (emit base m)) k of
        Some e \<Rightarrow> Some \<lparr>e_present = True, e_at = or_else (map_of (fst (emit base m)) k) base,
                        e_text = Some (or_else (e_text e) [])\<rparr>
      | None \<Rightarrow> map_option absent (map_of (fst (emit base m)) k))"
    unfolding map_of_normalize_notes [OF distinct_add_odd_notes [OF dl]] fl map_of_map_value
    by (cases "map_of (snd (emit base m)) k") simp_all
  show ?thesis
  proof (cases "map_of m k")
    case None
    then show ?thesis by (simp add: lookup_entry_def * map_of_emit [OF d few])
  next
    case (Some e)
    then have sh: "entry_shape InNotes base e" using ok by (simp add: map_okD)
    then have "base \<le> e_at e" by (simp add: entry_shape_def)
    moreover have "e = \<lparr>e_present = True, e_at = e_at e, e_text = Some (or_else (e_text e) [])\<rparr>" if "e_present e"
      using sh that by (auto simp: entry_shape_def)
    ultimately show ?thesis using Some entry_absent [OF sh]
      by (auto simp: lookup_entry_def * map_of_emit [OF d few])
  qed
qed

definition few_tombstones :: "normalized \<Rightarrow> bool" where
  "few_tombstones n \<longleftrightarrow>
     (\<forall>f. length (tombstones (nz_base n) (nz_map f n)) \<le> MAX_SETTINGS_TOMBSTONES)"

lemma registers_denormalize:
  assumes ok: "nz_ok n" and few: "few_tombstones n"
  shows "registers \<lparr>st_settings = denormalize n, st_createdAt = c\<rparr> = nz_registers n"
proof -
  let ?n = "normalize \<lparr>st_settings = denormalize n, st_createdAt = c\<rparr>"
  have base: "nz_base ?n = nz_base n" by (simp add: normalize_def denormalize_def Let_def)
  have "lookup_entry (nz_map f ?n) (nz_base n) k = lookup_entry (nz_map f n) (nz_base n) k" for f k
  proof (cases f)
    case (InList g)
    have "map_ok (InList g) (nz_base n) (nz_lists n g)"
      "length (tombstones (nz_base n) (nz_lists n g)) \<le> MAX_SETTINGS_TOMBSTONES"
      using ok few nz_map.simps(1) [of g n] unfolding nz_ok_def few_tombstones_def by metis+
    then have "lookup_entry (normalize_list (nz_base n) (fst (emit (nz_base n) (nz_lists n g)))
                (map fst (snd (emit (nz_base n) (nz_lists n g))))) (nz_base n) k =
              lookup_entry (nz_lists n g) (nz_base n) k"
      by (rule lookup_list_emit)
    then show ?thesis
      by (cases g) (simp_all add: InList normalize_def denormalize_def Let_def)
  next
    case InNotes
    have 1: "map_ok InNotes (nz_base n) (nz_notes n)"
      "length (tombstones (nz_base n) (nz_notes n)) \<le> MAX_SETTINGS_TOMBSTONES"
      using ok few nz_map.simps(2) [of n] unfolding nz_ok_def few_tombstones_def by metis+
    have 2: "\<And>k v. (k, v) \<in> set (nz_oddNotes n) \<Longrightarrow> \<not> hex32 k" using ok by (auto simp: nz_ok_def)
    show ?thesis using lookup_notes_emit [OF 1 2, where k = k]
      by (simp add: InNotes normalize_def denormalize_def Let_def)
  qed
  then show ?thesis by (simp add: registers_def nz_registers_def base)
qed


lemma stamps_ok_emit:
  assumes "map_ok f base m"
  shows "stamps_ok base (fst (emit base m))"
proof -
  have "hex32 pk \<and> base \<le> tm" if "(pk, tm) \<in> set (fst (emit base m))" for pk tm
  proof -
    from that obtain e where "(pk, e) \<in> set m" "tm = e_at e"
      by (auto simp: emit_def Let_def)
    then show ?thesis using assms by (auto simp: map_ok_def entry_shape_def)
  qed
  then show ?thesis using assms distinct_emit(1) [of m base] by (auto simp: stamps_ok_def map_ok_def)
qed

lemma hex_emit: "map_ok f base m \<Longrightarrow> pk \<in> fst ` set (snd (emit base m)) \<Longrightarrow> hex32 pk"
  using set_emit(2) [of base m] by (auto simp: map_ok_def)

lemma settings_ok_denormalize:
  assumes "nz_ok n"
  shows "settings_ok (denormalize n)"
proof -
  have L: "map_ok (InList f) (nz_base n) (nz_lists n f)" for f
    using assms nz_map.simps(1) [of f n] unfolding nz_ok_def by metis
  have N: "map_ok InNotes (nz_base n) (nz_notes n)"
    using assms nz_map.simps(2) [of n] unfolding nz_ok_def by metis
  have "distinct (map fst (ps_notes (denormalize n)))"
    unfolding denormalize_def Let_def per_event_settings.simps
    using N by (intro distinct_add_odd_notes) (simp only: fst_map_value distinct_emit map_ok_def)
  moreover have "hex32 pk" if "pk \<in> set (settings_list f (denormalize n))" for f pk
    using that hex_emit [OF L [of f], of pk] by (cases f) (auto simp: denormalize_def Let_def)
  moreover have "stamps_ok (nz_base n) (fst (emit (nz_base n) (nz_lists n f)))" for f
    using L by (rule stamps_ok_emit)
  moreover have "stamps_ok (nz_base n) (fst (emit (nz_base n) (nz_notes n)))"
    using N by (rule stamps_ok_emit)
  ultimately show ?thesis by (simp add: settings_ok_def) (simp add: denormalize_def Let_def)
qed

lemma list_view: "pk \<in> set (settings_list f (st_settings d)) \<longleftrightarrow> e_present (snd (registers d) (InList f) pk)"
  by (auto simp: registers_def nz_registers_def normalize_def Let_def lookup_entry_def
        map_of_normalize_list absent_def or_else_def split: option.split)

lemma denormalize_view:
  assumes "nz_ok n"
  shows "pk \<in> set (settings_list f (denormalize n)) \<longleftrightarrow> e_present (snd (nz_registers n) (InList f) pk)"
proof -
  have d: "distinct (map fst (nz_lists n f))"
    using assms nz_map.simps(1) [of f n] unfolding nz_ok_def map_ok_def by metis
  have "pk \<in> set (settings_list f (denormalize n)) \<longleftrightarrow>
        pk \<in> fst ` set (filter (\<lambda>(_, e). e_present e) (nz_lists n f))"
    by (cases f) (simp_all add: denormalize_def Let_def emit_def)
  also have "\<dots> \<longleftrightarrow> map_of (filter (\<lambda>(_, e). e_present e) (nz_lists n f)) pk \<noteq> None"
    by (simp only: map_of_eq_None_iff) simp
  also have "\<dots> \<longleftrightarrow> e_present (lookup_entry (nz_lists n f) (nz_base n) pk)"
    using d by (cases "map_of (nz_lists n f) pk")
      (simp_all only: map_of_filter_distinct lookup_entry_def, simp_all add: absent_def)
  finally show ?thesis by (simp add: nz_registers_def)
qed

section \<open>The merge is the join of the registers\<close>

text \<open>
  (C6) Refinement: reading the merge of two well-stamped documents gives, for every field and
  key, the winner of the two entries, under the later of the two bases; the materialized lists
  show exactly the keys whose winner is present; and the merge is well-stamped again.
\<close>

theorem merge_refines_registers:
  assumes "settings_ok (st_settings a)" "settings_ok (st_settings b)"
    and "few_tombstones (merge_normalized (normalize a) (normalize b))"
  shows "registers \<lparr>st_settings = mergePerEventSettings a b, st_createdAt = c\<rparr> =
           join_registers (registers a) (registers b) \<and>
         (\<forall>f pk. pk \<in> set (settings_list f (mergePerEventSettings a b)) \<longleftrightarrow>
            e_present (win (snd (registers a) (InList f) pk) (snd (registers b) (InList f) pk))) \<and>
         settings_ok (mergePerEventSettings a b)"
proof -
  have ok: "nz_ok (merge_normalized (normalize a) (normalize b))"
    using assms by (intro nz_ok_merge nz_ok_normalize)
  from registers_denormalize [OF ok assms(3)] settings_ok_denormalize [OF ok] denormalize_view [OF ok]
  show ?thesis
    by (simp add: mergePerEventSettings_def nz_registers_merge registers_def join_registers_def)
qed

section \<open>Convergence\<close>

definition doc_keys :: "stamped_settings \<Rightarrow> string set" where
  "doc_keys d = (\<Union>f\<in>{InList Favorites, InList WantToMeet, InList Met, InNotes}.
                  fst ` set (nz_map f (normalize d)))"

text \<open>One device merging a sequence of documents into its own.\<close>

definition merge_step :: "stamped_settings \<Rightarrow> stamped_settings \<Rightarrow> stamped_settings" where
  "merge_step a b = \<lparr>st_settings = mergePerEventSettings a b,
                     st_createdAt = max (st_createdAt a) (st_createdAt b)\<rparr>"

definition merge_all :: "stamped_settings \<Rightarrow> stamped_settings list \<Rightarrow> stamped_settings" where
  "merge_all d ds = foldl merge_step d ds"

lemma reg_field_UNIV: "f \<in> {InList Favorites, InList WantToMeet, InList Met, InNotes}"
  by (cases f; cases "case f of InList g \<Rightarrow> g | InNotes \<Rightarrow> Met") auto

lemma finite_doc_keys [simp]: "finite (doc_keys d)"
  by (simp add: doc_keys_def)

lemma nz_keys_in_doc: "fst ` set (nz_map f (normalize d)) \<subseteq> doc_keys d"
  using reg_field_UNIV [of f] unfolding doc_keys_def by blast

lemma tombstones_bound:
  assumes "distinct (map fst m)" "fst ` set m \<subseteq> U" "finite U" "card U \<le> N"
  shows "length (tombstones base m) \<le> N"
proof -
  have "length (tombstones base m) \<le> length m" by (simp add: tombstones_def)
  also have "\<dots> = card (fst ` set m)" using assms(1) by (metis distinct_card length_map set_map)
  also have "\<dots> \<le> card U" using assms by (intro card_mono)
  finally show ?thesis using assms by simp
qed

lemma keys_merge: "fst ` set (mergeMaps a x b y) = fst ` set a \<union> fst ` set b"
  by (auto simp: mergeMaps_def image_iff) (metis fst_conv)+

lemma few_tombstones_keys:
  assumes "nz_ok n" "\<And>f. fst ` set (nz_map f n) \<subseteq> U" "finite U" "card U \<le> MAX_SETTINGS_TOMBSTONES"
  shows "few_tombstones n"
  using assms unfolding few_tombstones_def nz_ok_def map_ok_def by (blast intro: tombstones_bound)

lemma keys_normalize_list:
  "fst ` set (normalize_list base ss pks) = set pks \<union> fst ` set ss"
proof -
  have "k \<in> fst ` set (normalize_list base ss pks) \<longleftrightarrow> k \<in> set pks \<union> fst ` set ss" for k
    using map_of_eq_None_iff [of "normalize_list base ss pks" k] map_of_eq_None_iff [of ss k]
    by (auto simp: map_of_normalize_list split: if_splits)
  then show ?thesis by blast
qed

lemma keys_normalize_notes:
  assumes "distinct (map fst ns)"
  shows "fst ` set (normalize_notes base ss ns) = fst ` set (filter (\<lambda>(k, _). hex32 k) ns) \<union> fst ` set ss"
proof -
  have "k \<in> fst ` set (normalize_notes base ss ns) \<longleftrightarrow>
        k \<in> fst ` set (filter (\<lambda>(k, _). hex32 k) ns) \<union> fst ` set ss" for k
    using map_of_eq_None_iff [of "normalize_notes base ss ns" k] map_of_eq_None_iff [of ss k]
      map_of_eq_None_iff [of "filter (\<lambda>(k, _). hex32 k) ns" k]
    unfolding map_of_normalize_notes [OF assms]
    by (cases "map_of (filter (\<lambda>(k, _). hex32 k) ns) k") auto
  then show ?thesis by blast
qed


lemma doc_keys_denormalize:
  assumes ok: "nz_ok n" and U: "\<And>f. fst ` set (nz_map f n) \<subseteq> U"
  shows "doc_keys \<lparr>st_settings = denormalize n, st_createdAt = c\<rparr> \<subseteq> U"
proof -
  let ?d = "\<lparr>st_settings = denormalize n, st_createdAt = c\<rparr>"
  have em: "fst ` set (snd (emit base m)) \<subseteq> fst ` set m" for base m
    using set_emit(2) [of base m] by (rule image_mono)
  have L: "fst ` set (nz_map (InList f) (normalize ?d)) \<subseteq> U" for f
    using U [of "InList f"] set_emit(1) [of "nz_base n" "nz_lists n f"] em [of "nz_base n" "nz_lists n f"]
    by (cases f) (simp_all add: normalize_def denormalize_def Let_def keys_normalize_list subset_trans)
  have "settings_ok (denormalize n)" using ok by (rule settings_ok_denormalize)
  then have dn: "distinct (map fst (ps_notes (denormalize n)))" by (simp add: settings_ok_def)
  have "fst ` set (filter (\<lambda>(k, _). hex32 k) (ps_notes (denormalize n))) \<subseteq> fst ` set (nz_notes n)"
  proof -
    have "filter (\<lambda>(k, _). hex32 k) (ps_notes (denormalize n)) =
          filter (\<lambda>(k, _). hex32 k)
            (map (\<lambda>(pk, e). (pk, or_else (e_text e) [])) (snd (emit (nz_base n) (nz_notes n))))"
      using ok by (simp add: denormalize_def Let_def) (rule hex_add_odd_notes, auto simp: nz_ok_def)
    also have "fst ` set \<dots> \<subseteq> fst ` set (snd (emit (nz_base n) (nz_notes n)))"
      by (auto simp: image_iff) (metis fst_conv)
    finally show ?thesis using em by (rule subset_trans)
  qed
  moreover have "nz_map InNotes (normalize ?d) =
      normalize_notes (nz_base n) (fst (emit (nz_base n) (nz_notes n))) (ps_notes (denormalize n))"
    by (simp add: normalize_def denormalize_def Let_def)
  ultimately have N: "fst ` set (nz_map InNotes (normalize ?d)) \<subseteq> U"
    using U [of InNotes] set_emit(1) [of "nz_base n" "nz_notes n"] keys_normalize_notes [OF dn]
    by (simp only: nz_map.simps) (meson Un_least subset_trans)
  have "fst ` set (nz_map f (normalize ?d)) \<subseteq> U" for f
    using L N by (cases f) simp_all
  then show ?thesis unfolding doc_keys_def by (rule UN_least)
qed

lemma merge_step_sound:
  assumes ok: "settings_ok (st_settings a)" "settings_ok (st_settings b)"
    and U: "doc_keys a \<subseteq> U" "doc_keys b \<subseteq> U" "finite U" "card U \<le> MAX_SETTINGS_TOMBSTONES"
  shows "settings_ok (st_settings (merge_step a b))" "doc_keys (merge_step a b) \<subseteq> U"
    "registers (merge_step a b) = join_registers (registers a) (registers b)"
proof -
  let ?n = "merge_normalized (normalize a) (normalize b)"
  have n: "nz_ok ?n" using ok by (intro nz_ok_merge nz_ok_normalize)
  have k: "fst ` set (nz_map f ?n) \<subseteq> U" for f
    using U(1,2) nz_keys_in_doc [of f a] nz_keys_in_doc [of f b]
    unfolding nz_map_merge keys_merge by blast
  have few: "few_tombstones ?n" using n k U(3,4) by (rule few_tombstones_keys)
  show "settings_ok (st_settings (merge_step a b))"
    using settings_ok_denormalize [OF n] by (simp add: merge_step_def mergePerEventSettings_def)
  show "doc_keys (merge_step a b) \<subseteq> U"
    using n k unfolding merge_step_def mergePerEventSettings_def by (rule doc_keys_denormalize)
  show "registers (merge_step a b) = join_registers (registers a) (registers b)"
    unfolding merge_step_def mergePerEventSettings_def registers_denormalize [OF n few] nz_registers_merge
    by (simp add: registers_def)
qed

lemma registers_merge_all:
  assumes "\<And>x. x \<in> set (d # ds) \<Longrightarrow> settings_ok (st_settings x) \<and> doc_keys x \<subseteq> U"
    and "finite U" "card U \<le> MAX_SETTINGS_TOMBSTONES"
  shows "registers (merge_all d ds) = regs.join_all (registers d) (map registers ds)"
  using assms
proof (induction ds arbitrary: d)
  case Nil
  then show ?case by (simp add: merge_all_def)
next
  case (Cons e ds)
  note st = merge_step_sound [of d e U]
  have "registers (merge_all (merge_step d e) ds) =
        regs.join_all (registers (merge_step d e)) (map registers ds)"
    using Cons.prems st by (intro Cons.IH) auto
  then show ?case using Cons.prems st by (simp add: merge_all_def)
qed

lemma registers_ok_doc: "settings_ok (st_settings d) \<Longrightarrow> registers_ok (registers d)"
  by (simp add: registers_def registers_ok_nz nz_ok_normalize)



section \<open>Edits\<close>

fun nz_set :: "reg_field \<Rightarrow> entry_map \<Rightarrow> normalized \<Rightarrow> normalized" where
  "nz_set (InList f) m n = n\<lparr>nz_lists := (nz_lists n)(f := m)\<rparr>"
| "nz_set InNotes m n = n\<lparr>nz_notes := m\<rparr>"

fun edit_key :: "settings_edit \<Rightarrow> pubkey" where
  "edit_key (Toggle _ pk) = pk"
| "edit_key (Note pk _) = pk"

fun edit_field :: "settings_edit \<Rightarrow> reg_field" where
  "edit_field (Toggle f _) = InList f"
| "edit_field (Note _ _) = InNotes"

definition edited :: "stamped_settings \<Rightarrow> settings_edit \<Rightarrow> entry \<Rightarrow> normalized" where
  "edited doc ed e =
     nz_set (edit_field ed)
       (AList.update (edit_key ed) e (nz_map (edit_field ed) (normalize doc))) (normalize doc)"

lemma nz_set_simps [simp]:
  "nz_base (nz_set f m n) = nz_base n" "nz_oddNotes (nz_set f m n) = nz_oddNotes n"
  "nz_map g (nz_set f m n) = (if g = f then m else nz_map g n)"
  by (cases f; cases g; simp)+

text \<open>Every edit writes one entry, stamped past the entry it replaces and past the base.\<close>

lemma edit_entry:
  obtains e where "editPerEventSettings doc ed now = denormalize (edited doc ed e)"
    and "entry_shape (edit_field ed) (nz_base (normalize doc)) e"
    and "e_at (snd (registers doc) (edit_field ed) (edit_key ed)) < e_at e"
    and "case ed of
           Toggle f pk \<Rightarrow> e_present e \<longleftrightarrow> \<not> e_present (snd (registers doc) (InList f) pk)
         | Note pk nt \<Rightarrow> (if js_trim nt = [] then \<not> e_present e
                         else e_present e \<and> e_text e = Some (js_trim nt))"
proof (cases ed)
  case (Toggle f pk)
  then show ?thesis
    by (intro that [of "\<lparr>e_present = \<not> e_present (snd (registers doc) (InList f) pk),
          e_at = max (max \<lfloor>now\<rfloor> (e_at (snd (registers doc) (InList f) pk) + 1))
                   (nz_base (normalize doc) + 1), e_text = None\<rparr>"])
      (simp_all add: edited_def Let_def registers_def nz_registers_def entry_shape_def)
next
  case (Note pk nt)
  let ?at = "max (max \<lfloor>now\<rfloor> (e_at (snd (registers doc) InNotes pk) + 1)) (nz_base (normalize doc) + 1)"
  show ?thesis
    by (rule that [of "if js_trim nt \<noteq> []
          then \<lparr>e_present = True, e_at = ?at, e_text = Some (js_trim nt)\<rparr> else absent ?at"])
      (auto simp: Note edited_def Let_def registers_def nz_registers_def entry_shape_def absent_def)
qed

lemma edited_sound:
  assumes ok: "settings_ok (st_settings doc)" and key: "hex32 (edit_key ed)"
    and sh: "entry_shape (edit_field ed) (nz_base (normalize doc)) e"
    and few: "card (insert (edit_key ed) (doc_keys doc)) \<le> MAX_SETTINGS_TOMBSTONES"
  shows "nz_ok (edited doc ed e)" "few_tombstones (edited doc ed e)"
    "nz_registers (edited doc ed e) =
       (fst (registers doc), \<lambda>f k. if f = edit_field ed \<and> k = edit_key ed then e
                                     else snd (registers doc) f k)"
proof -
  have n: "nz_ok (normalize doc)" using ok by (rule nz_ok_normalize)
  have "map_ok f (nz_base (normalize doc)) (AList.update (edit_key ed) e (nz_map f (normalize doc)))"
    if "f = edit_field ed" for f
  proof (rule map_okI)
    have m: "map_ok f (nz_base (normalize doc)) (nz_map f (normalize doc))" using n by (simp add: nz_ok_def)
    then show "distinct (map fst (AList.update (edit_key ed) e (nz_map f (normalize doc))))"
      by (simp add: map_ok_def AList.distinct_update)
    fix k e' assume "map_of (AList.update (edit_key ed) e (nz_map f (normalize doc))) k = Some e'"
    then show "hex32 k \<and> entry_shape f (nz_base (normalize doc)) e'"
      using sh key that map_okD [OF m] by (auto simp: AList.update_conv' split: if_splits)
  qed
  then show nz: "nz_ok (edited doc ed e)" using n by (simp add: nz_ok_def edited_def)
  have "fst ` set (nz_map f (edited doc ed e)) \<subseteq> insert (edit_key ed) (doc_keys doc)" for f
    using nz_keys_in_doc [of f doc] by (simp add: edited_def AList.dom_update [simplified]) blast
  then show "few_tombstones (edited doc ed e)" using nz few by (intro few_tombstones_keys) auto
  show "nz_registers (edited doc ed e) =
       (fst (registers doc), \<lambda>f k. if f = edit_field ed \<and> k = edit_key ed then e
                                     else snd (registers doc) f k)"
    by (auto simp: nz_registers_def edited_def registers_def lookup_entry_def AList.update_conv'
          intro!: ext)
qed

lemma notes_view:
  assumes ok: "nz_ok n" and "hex32 k"
  shows "map_of (ps_notes (denormalize n)) k =
     (let e = snd (nz_registers n) InNotes k in if e_present e then Some (or_else (e_text e) []) else None)"
proof -
  have d: "distinct (map fst (nz_notes n))"
    using ok nz_map.simps(2) [of n] unfolding nz_ok_def map_ok_def by metis
  have "map_of (add_odd_notes oddn live) k = map_of live k"
    if "\<And>k v. (k, v) \<in> set oddn \<Longrightarrow> \<not> hex32 k" for oddn live :: "(string \<times> string) list"
    using that
  proof (induction oddn arbitrary: live)
    case Nil
    then show ?case by (simp add: add_odd_notes_def)
  next
    case (Cons p oddn)
    obtain q v where p: "p = (q, v)" by force
    with Cons.prems have "q \<noteq> k" using \<open>hex32 k\<close> by auto
    moreover have "map_of (add_odd_notes oddn l) k = map_of l k" for l
      using Cons.prems by (intro Cons.IH) auto
    ultimately show ?case by (simp add: add_odd_notes_def p map_add_def split: option.split)
  qed
  moreover have "\<And>k v. (k, v) \<in> set (nz_oddNotes n) \<Longrightarrow> \<not> hex32 k" using ok by (auto simp: nz_ok_def)
  ultimately have "map_of (ps_notes (denormalize n)) k =
      map_option (\<lambda>e. or_else (e_text e) []) (map_of (snd (emit (nz_base n) (nz_notes n))) k)"
    by (simp add: denormalize_def Let_def map_of_map_value)
  also have "map_of (snd (emit (nz_base n) (nz_notes n))) k =
      (case map_of (nz_notes n) k of Some e \<Rightarrow> if e_present e then Some e else None | None \<Rightarrow> None)"
    using d by (cases "map_of (nz_notes n) k") (simp_all add: emit_def Let_def map_of_filter_distinct)
  finally show ?thesis
    by (cases "map_of (nz_notes n) k") (auto simp: nz_registers_def lookup_entry_def absent_def Let_def)
qed


text \<open>
  An edit beats the state it was made against, whatever this device's clock says: it leaves
  a well-stamped document in which exactly the toggled entry flipped (or the note reads as
  trimmed), and merging the document it was made from back in, on either side, changes nothing.
\<close>

theorem edit_beats_read_state:
  assumes "settings_ok (st_settings doc)" and "hex32 (edit_key ed)"
    and "card (insert (edit_key ed) (doc_keys doc)) \<le> MAX_SETTINGS_TOMBSTONES"
  shows "let doc' = \<lparr>st_settings = editPerEventSettings doc ed now, st_createdAt = c\<rparr>
         in settings_ok (st_settings doc') \<and>
            registers (merge_step doc doc') = registers doc' \<and>
            registers (merge_step doc' doc) = registers doc' \<and>
            (case ed of
               Toggle f pk \<Rightarrow> (\<forall>g q. q \<in> set (settings_list g (st_settings doc')) \<longleftrightarrow>
                   (q \<in> set (settings_list g (st_settings doc))) \<noteq> (g = f \<and> q = pk))
             | Note pk nt \<Rightarrow> map_of (ps_notes (st_settings doc')) pk =
                   (if js_trim nt = [] then None else Some (js_trim nt)))"
proof -
  obtain e where ed: "editPerEventSettings doc ed now = denormalize (edited doc ed e)"
    and sh: "entry_shape (edit_field ed) (nz_base (normalize doc)) e"
    and past: "e_at (snd (registers doc) (edit_field ed) (edit_key ed)) < e_at e"
    and what: "case ed of
           Toggle f pk \<Rightarrow> e_present e \<longleftrightarrow> \<not> e_present (snd (registers doc) (InList f) pk)
         | Note pk nt \<Rightarrow> (if js_trim nt = [] then \<not> e_present e
                         else e_present e \<and> e_text e = Some (js_trim nt))"
    by (rule edit_entry)
  note es = edited_sound [OF assms(1,2) sh assms(3)]
  define doc' where "doc' = \<lparr>st_settings = editPerEventSettings doc ed now, st_createdAt = c\<rparr>"
  have ok': "settings_ok (st_settings doc')"
    using es(1) by (simp add: doc'_def ed settings_ok_denormalize)
  have reg: "registers doc' = nz_registers (edited doc ed e)"
    unfolding doc'_def ed using es(1,2) by (rule registers_denormalize)
  have keys: "doc_keys doc' \<subseteq> insert (edit_key ed) (doc_keys doc)"
    unfolding doc'_def ed
  proof (rule doc_keys_denormalize [OF es(1)])
    show "fst ` set (nz_map f (edited doc ed e)) \<subseteq> insert (edit_key ed) (doc_keys doc)" for f
      using nz_keys_in_doc [of f doc] by (simp add: edited_def AList.dom_update [simplified]) blast
  qed
  have win_e: "win e (snd (registers doc) (edit_field ed) (edit_key ed)) = e"
    "win (snd (registers doc) (edit_field ed) (edit_key ed)) e = e"
    using past by (simp_all add: win_def)
  have "registers (merge_step doc doc') = join_registers (registers doc) (registers doc')"
    "registers (merge_step doc' doc) = join_registers (registers doc') (registers doc)"
    by (rule merge_step_sound(3) [where U = "insert (edit_key ed) (doc_keys doc)"];
        use assms ok' keys in auto)+
  moreover have "join_registers (registers doc) (registers doc') = registers doc'"
    "join_registers (registers doc') (registers doc) = registers doc'"
    unfolding reg es(3) join_registers_def using win_e by (simp_all add: fun_eq_iff)
  moreover have "case ed of
       Toggle f pk \<Rightarrow> (\<forall>g q. q \<in> set (settings_list g (st_settings doc')) \<longleftrightarrow>
           (q \<in> set (settings_list g (st_settings doc))) \<noteq> (g = f \<and> q = pk))
     | Note pk nt \<Rightarrow> map_of (ps_notes (st_settings doc')) pk =
           (if js_trim nt = [] then None else Some (js_trim nt))"
  proof -
    have v: "q \<in> set (settings_list g (st_settings doc')) \<longleftrightarrow>
        e_present (if InList g = edit_field ed \<and> q = edit_key ed then e
                   else snd (registers doc) (InList g) q)" for g q
      unfolding doc'_def ed per_event_settings.simps stamped_settings.simps
        denormalize_view [OF es(1)] es(3) by simp
    have w: "map_of (ps_notes (st_settings doc')) (edit_key ed) =
        (if e_present e then Some (or_else (e_text e) []) else None)" if "edit_field ed = InNotes"
      unfolding doc'_def ed stamped_settings.simps notes_view [OF es(1) assms(2)] es(3) Let_def
      using that by simp
    show ?thesis
    proof (cases ed)
      case (Toggle f pk)
      then show ?thesis using what by (simp add: v list_view [of _ _ doc])
    next
      case (Note pk nt)
      then show ?thesis using what w by (simp split: if_splits)
    qed
  qed
  ultimately show ?thesis using ok' unfolding doc'_def [symmetric] Let_def by simp
qed

section \<open>At concrete documents\<close>

definition alice :: pubkey where "alice = replicate 64 CHR ''a''"
definition bobby :: pubkey where "bobby = replicate 64 CHR ''b''"

definition phone_doc :: stamped_settings where
  "phone_doc = \<lparr>st_settings = emptyPerEventSettings
       \<lparr>ps_favorites := [alice],
        ps_clock := Some \<lparr>ck_favorites = [(alice, 5)], ck_want_to_meet = [], ck_met = [], ck_notes = []\<rparr>\<rparr>,
     st_createdAt = 1\<rparr>"

definition laptop_doc :: stamped_settings where
  "laptop_doc = \<lparr>st_settings = emptyPerEventSettings
       \<lparr>ps_met := [bobby],
        ps_clock := Some \<lparr>ck_favorites = [(alice, 3)], ck_want_to_meet = [], ck_met = [(bobby, 4)],
                          ck_notes = []\<rparr>\<rparr>,
     st_createdAt = 2\<rparr>"

lemma sample_keys [simp]: "hex32 alice" "hex32 bobby" "alice \<noteq> bobby" "bobby \<noteq> alice"
  by (simp_all add: alice_def bobby_def hex32_def is_lower_hex_def is_digit_def list.pred_set)

lemma sample_docs_ok [simp]:
  "settings_ok (st_settings phone_doc)" "settings_ok (st_settings laptop_doc)"
  by (simp_all add: settings_ok_def phone_doc_def laptop_doc_def emptyPerEventSettings_def stamps_ok_def)

lemmas doc_simps = normalize_def Let_def phone_doc_def laptop_doc_def emptyPerEventSettings_def
  normalize_list_def normalize_notes_def add_tombstones_def odd_notes_def

lemma sample_doc_keys [simp]: "doc_keys phone_doc = {alice}" "doc_keys laptop_doc = {alice, bobby}"
  by (auto simp: doc_keys_def doc_simps)

lemma merge_refines_registers_witness:
  "registers \<lparr>st_settings = mergePerEventSettings phone_doc laptop_doc, st_createdAt = 0\<rparr> =
     join_registers (registers phone_doc) (registers laptop_doc) \<and>
   alice \<in> set (settings_list Favorites (mergePerEventSettings phone_doc laptop_doc))"
proof -
  have few: "few_tombstones (merge_normalized (normalize phone_doc) (normalize laptop_doc))"
    unfolding few_tombstones_def
  proof
    fix f show "length (tombstones (nz_base (merge_normalized (normalize phone_doc) (normalize laptop_doc)))
        (nz_map f (merge_normalized (normalize phone_doc) (normalize laptop_doc)))) \<le> MAX_SETTINGS_TOMBSTONES"
      by (cases f; cases "case f of InList g \<Rightarrow> g | InNotes \<Rightarrow> Met")
        (simp_all add: doc_simps tombstones_def mergeMaps_def MAX_SETTINGS_TOMBSTONES_def)
  qed
  have "e_present (win (snd (registers phone_doc) (InList Favorites) alice)
          (snd (registers laptop_doc) (InList Favorites) alice))"
    by (simp add: registers_def nz_registers_def lookup_entry_def doc_simps absent_def win_def)
  with merge_refines_registers [OF sample_docs_ok few, of 0] show ?thesis by blast
qed


lemma edit_beats_read_state_witness:
  "registers (merge_step phone_doc
     \<lparr>st_settings = editPerEventSettings phone_doc (Toggle Favorites alice) 0, st_createdAt = 0\<rparr>) =
   registers \<lparr>st_settings = editPerEventSettings phone_doc (Toggle Favorites alice) 0, st_createdAt = 0\<rparr>"
  using edit_beats_read_state [of phone_doc "Toggle Favorites alice" 0 0]
  unfolding Let_def by (simp del: editPerEventSettings.simps add: MAX_SETTINGS_TOMBSTONES_def)

text \<open>
  Two limits of the merge. Notes under a key that is not a pubkey are not stamped, and of two
  different ones the first argument's stays, so there the merge does not commute; and a note
  under a key every object literal inherits is lost when the document is written again.
\<close>

definition odd_doc :: "string \<Rightarrow> string \<Rightarrow> stamped_settings" where
  "odd_doc k v = \<lparr>st_settings = emptyPerEventSettings\<lparr>ps_notes := [(k, v)]\<rparr>, st_createdAt = 0\<rparr>"

lemma odd_notes_merge_not_commutative:
  "ps_notes (mergePerEventSettings (odd_doc ''x'' ''mine'') (odd_doc ''x'' ''yours'')) = [(''x'', ''mine'')] \<and>
   ps_notes (mergePerEventSettings (odd_doc ''x'' ''yours'') (odd_doc ''x'' ''mine'')) = [(''x'', ''yours'')]"
  by (simp add: odd_doc_def mergePerEventSettings_def merge_normalized_def denormalize_def doc_simps
      emit_def mergeMaps_def spread_def add_odd_notes_def hex32_def object_prototype_keys_def)

lemma inherited_note_key_dropped:
  "ps_notes (mergePerEventSettings (odd_doc ''constructor'' ''n'') (odd_doc ''constructor'' ''n'')) = []"
  by (simp add: odd_doc_def mergePerEventSettings_def merge_normalized_def denormalize_def doc_simps
      emit_def mergeMaps_def spread_def add_odd_notes_def hex32_def object_prototype_keys_def)

end
