(* ===== verification/Job_Store.thy ===== *)
theory Job_Store
  imports Json
begin

text \<open>
  The durable job queue (\<open>packages/coordinator/src/store/db.ts\<close>, the \<open>jobs\<close> table). The table
  is a list of rows in insertion order with the next \<open>AUTOINCREMENT\<close> id; every method of the
  store is one function on it, the SQL of the method spelled out as a filter or an update. A
  payload is the JSON value the code stringifies, read back by \<open>json_extract\<close>.

  The lemmas give the table invariant (unique ids and dedupe keys; a row is leased exactly while
  it runs), the effect of every statement, and the lease discipline: the locale \<open>leases\<close> states
  what a lock keyed by random tokens promises, and the step relation of the table provides it.
\<close>

section \<open>Leases\<close>

text \<open>
  \<open>owner s i\<close> is the token that holds item \<open>i\<close>. A step gives an item only to a token nobody has
  used before, so a token that does not hold an item any more can never hold it again.
\<close>

locale leases =
  fixes owner :: "'st \<Rightarrow> 'i \<Rightarrow> 'tok option"
    and used :: "'st \<Rightarrow> 'tok set"
    and step :: "'st \<Rightarrow> 'st \<Rightarrow> bool"
    and ok :: "'st \<Rightarrow> bool"
  assumes used_owner: "ok s \<Longrightarrow> owner s i = Some k \<Longrightarrow> k \<in> used s"
    and used_mono: "ok s \<Longrightarrow> step s t \<Longrightarrow> used s \<subseteq> used t"
    and owner_step: "ok s \<Longrightarrow> step s t \<Longrightarrow> owner t i = Some k \<Longrightarrow> owner s i = Some k \<or> k \<notin> used s"
    and ok_step: "ok s \<Longrightarrow> step s t \<Longrightarrow> ok t"
begin

lemma lost_stays_lost:
  assumes "step\<^sup>*\<^sup>* s t" "ok s" "k \<in> used s" "owner s i \<noteq> Some k"
  shows "ok t \<and> k \<in> used t \<and> owner t i \<noteq> Some k"
  using assms
proof (induction rule: rtranclp_induct)
  case base
  then show ?case by blast
next
  case (step t u)
  then show ?case using owner_step used_mono ok_step by blast
qed

end

section \<open>Rows\<close>

datatype job_state = Pending | Running | Waiting | Done | Poison

datatype enqueue_outcome = Enqueued | Existing job_state

record job_row =
  j_id :: nat
  j_type :: string
  j_dedupe_key :: string
  j_payload :: json
  j_state :: job_state
  j_attempts :: nat
  j_next_run_at :: int
  j_last_error :: "string option"
  j_claimed_at :: "int option"
  j_lease_until :: "int option"
  j_worker_token :: "string option"
  j_priority :: int
  j_reclaims :: nat

record job_table =
  t_jobs :: "job_row list"
  t_next_id :: nat

definition MATCH_JOB_TYPES :: "string list" where
  "MATCH_JOB_TYPES = [''match_recompute'', ''score_batch'', ''score_reverse_batch'', ''publish_matches'']"

definition JOB_PRIORITY :: "(string \<times> int) list" where
  "JOB_PRIORITY = [(''publish_matches'', -1), (''score_reverse_batch'', 1)]"

definition jobPriority :: "string \<Rightarrow> int" where
  "jobPriority type = (case map_of JOB_PRIORITY type of Some p \<Rightarrow> p | None \<Rightarrow> 0)"

definition ATTENDEE_JOB_TYPES :: "string list" where
  "ATTENDEE_JOB_TYPES = [''process_attendee'', ''process_talk'']"

definition DAEMON_PARK_REASON :: string where "DAEMON_PARK_REASON = ''daemon budget exceeded''"
definition EVENT_NOT_LIVE_PARK_REASON :: string where "EVENT_NOT_LIVE_PARK_REASON = ''event not live''"

text \<open>\<open>json_extract(payload, '$.k') = ?\<close> against a text parameter: NULL and other types never match.\<close>

definition json_field :: "string \<Rightarrow> json \<Rightarrow> string option" where
  "json_field k p =
     (case p of JObj fs \<Rightarrow> (case map_of fs k of Some (JStr s) \<Rightarrow> Some s | _ \<Rightarrow> None) | _ \<Rightarrow> None)"

definition for_coordinate :: "string \<Rightarrow> job_row \<Rightarrow> bool" where
  "for_coordinate c r \<longleftrightarrow> json_field ''coordinate'' (j_payload r) = Some c"

definition for_pubkey :: "pubkey \<Rightarrow> job_row \<Rightarrow> bool" where
  "for_pubkey pk r \<longleftrightarrow> json_field ''pubkey'' (j_payload r) = Some pk"

text \<open>\<open>LIKE\<close>, which folds the case of ASCII letters, with an optional escape character.\<close>

definition sql_lower :: "char \<Rightarrow> char" where
  "sql_lower c = (let n = of_char c :: nat in if 65 \<le> n \<and> n \<le> 90 then char_of (n + 32) else c)"

fun sql_like :: "char option \<Rightarrow> string \<Rightarrow> string \<Rightarrow> bool" where
  "sql_like e [] t \<longleftrightarrow> t = []"
| "sql_like e (p # ps) t \<longleftrightarrow>
     (if e = Some p then
        (case (ps, t) of (q # qs, c # cs) \<Rightarrow> sql_lower q = sql_lower c \<and> sql_like e qs cs | _ \<Rightarrow> False)
      else if p = CHR ''%'' then
        sql_like e ps t \<or> (case t of [] \<Rightarrow> False | c # cs \<Rightarrow> sql_like e (p # ps) cs)
      else (case t of [] \<Rightarrow> False
            | c # cs \<Rightarrow> (p = CHR ''_'' \<or> sql_lower p = sql_lower c) \<and> sql_like e ps cs))"

definition has_prefix :: "string \<Rightarrow> string \<Rightarrow> bool" where
  "has_prefix p s \<longleftrightarrow> take (length p) s = p"

section \<open>Enqueueing\<close>

definition new_row :: "nat \<Rightarrow> string \<Rightarrow> string \<Rightarrow> json \<Rightarrow> int \<Rightarrow> job_row" where
  "new_row i type key payload notBefore =
     \<lparr>j_id = i, j_type = type, j_dedupe_key = key, j_payload = payload, j_state = Pending,
      j_attempts = 0, j_next_run_at = notBefore, j_last_error = None, j_claimed_at = None,
      j_lease_until = None, j_worker_token = None, j_priority = jobPriority type, j_reclaims = 0\<rparr>"

definition enqueueJob ::
  "string \<Rightarrow> string \<Rightarrow> json \<Rightarrow> int \<Rightarrow> job_table \<Rightarrow> enqueue_outcome \<times> job_table" where
  "enqueueJob type key payload notBefore t =
     (case List.find (\<lambda>r. j_dedupe_key r = key) (t_jobs t) of
        Some r \<Rightarrow> (Existing (j_state r), t)
      | None \<Rightarrow> (Enqueued, \<lparr>t_jobs = t_jobs t @ [new_row (t_next_id t) type key payload notBefore],
                            t_next_id = t_next_id t + 1\<rparr>))"

text \<open>A statement that rewrites or deletes rows returns \<open>changes\<close> and the table.\<close>

definition exec_update :: "(job_row \<Rightarrow> bool) \<Rightarrow> (job_row \<Rightarrow> job_row) \<Rightarrow> job_table \<Rightarrow> nat \<times> job_table" where
  "exec_update P f t = (count_where P (t_jobs t), t\<lparr>t_jobs := update_where P f (t_jobs t)\<rparr>)"

definition exec_delete :: "(job_row \<Rightarrow> bool) \<Rightarrow> job_table \<Rightarrow> nat \<times> job_table" where
  "exec_delete P t = (count_where P (t_jobs t), t\<lparr>t_jobs := delete_where P (t_jobs t)\<rparr>)"

definition terminal :: "job_row \<Rightarrow> bool" where
  "terminal r \<longleftrightarrow> j_state r \<in> {Done, Poison}"

definition clearMatchJobMemo :: "string \<Rightarrow> job_table \<Rightarrow> nat \<times> job_table" where
  "clearMatchJobMemo coordinate =
     exec_delete (\<lambda>r. terminal r \<and> j_type r \<in> set MATCH_JOB_TYPES \<and> for_coordinate coordinate r)"

definition clearAttendeeJobMemo :: "string \<Rightarrow> pubkey \<Rightarrow> job_table \<Rightarrow> nat \<times> job_table" where
  "clearAttendeeJobMemo coordinate pk =
     exec_delete (\<lambda>r. terminal r \<and> j_type r \<in> set ATTENDEE_JOB_TYPES \<and>
                      for_coordinate coordinate r \<and> for_pubkey pk r)"

text \<open>Absent states are omitted from the counts.\<close>

definition jobStateCounts :: "job_table \<Rightarrow> job_state \<Rightarrow> nat option" where
  "jobStateCounts t s =
     (let n = count_where (\<lambda>r. j_state r = s) (t_jobs t) in if n = 0 then None else Some n)"

section \<open>Claiming\<close>

record type_filter =
  onlyTypes :: "string list option"
  excludeTypes :: "string list option"

definition no_filter :: type_filter where
  "no_filter = \<lparr>onlyTypes = None, excludeTypes = None\<rparr>"

definition type_allowed :: "type_filter \<Rightarrow> string \<Rightarrow> bool" where
  "type_allowed f ty \<longleftrightarrow>
     (case onlyTypes f of None \<Rightarrow> True | Some ts \<Rightarrow> ts = [] \<or> ty \<in> set ts) \<and>
     (case excludeTypes f of None \<Rightarrow> True | Some ts \<Rightarrow> ts = [] \<or> ty \<notin> set ts)"

definition runnable :: "int \<Rightarrow> job_row \<Rightarrow> bool" where
  "runnable now r \<longleftrightarrow>
     j_state r = Pending \<and> j_next_run_at r \<le> now \<or>
     j_state r = Running \<and> (case j_lease_until r of None \<Rightarrow> False | Some l \<Rightarrow> l \<le> now)"

definition schedule_le :: "job_row \<Rightarrow> job_row \<Rightarrow> bool" where
  "schedule_le a b \<longleftrightarrow>
     j_priority a < j_priority b \<or> j_priority a = j_priority b \<and> j_id a \<le> j_id b"

definition first_runnable :: "int \<Rightarrow> type_filter \<Rightarrow> job_row list \<Rightarrow> job_row option" where
  "first_runnable now f rows =
     (case sort_by schedule_le (filter (\<lambda>r. runnable now r \<and> type_allowed f (j_type r)) rows) of
        [] \<Rightarrow> None | r # _ \<Rightarrow> Some r)"

definition claimed :: "int \<Rightarrow> string \<Rightarrow> int \<Rightarrow> job_row \<Rightarrow> job_row" where
  "claimed now tok leaseMs r =
     r\<lparr>j_state := Running, j_claimed_at := Some now, j_lease_until := Some (now + leaseMs),
       j_worker_token := Some tok,
       j_reclaims := j_reclaims r + (if j_state r = Running then 1 else 0)\<rparr>"

definition claimNextJob ::
  "int \<Rightarrow> string \<Rightarrow> int \<Rightarrow> type_filter \<Rightarrow> job_table \<Rightarrow> job_row option \<times> job_table" where
  "claimNextJob now workerToken leaseMs f t =
     (if onlyTypes f = Some [] then (None, t)
      else case first_runnable now f (t_jobs t) of
             None \<Rightarrow> (None, t)
           | Some row \<Rightarrow>
               (Some (claimed now workerToken leaseMs row),
                t\<lparr>t_jobs := update_where (\<lambda>r. j_id r = j_id row)
                    (\<lambda>r. r\<lparr>j_state := Running, j_claimed_at := Some now,
                           j_lease_until := Some (now + leaseMs), j_worker_token := Some workerToken,
                           j_reclaims := j_reclaims row + (if j_state row = Running then 1 else 0)\<rparr>)
                    (t_jobs t)\<rparr>))"

section \<open>The lease owner's statements\<close>

text \<open>\<open>WHERE id = ?\<close>, and \<open>AND worker_token = ?\<close> when a (non-empty) token is given.\<close>

definition owned_row :: "nat \<Rightarrow> string option \<Rightarrow> job_row \<Rightarrow> bool" where
  "owned_row i tok r \<longleftrightarrow>
     j_id r = i \<and> (case tok of None \<Rightarrow> True | Some k \<Rightarrow> k = [] \<or> j_worker_token r = Some k)"

definition unleased :: "job_row \<Rightarrow> job_row" where
  "unleased r = r\<lparr>j_worker_token := None, j_lease_until := None\<rparr>"

definition heartbeatJob :: "nat \<Rightarrow> string \<Rightarrow> int \<Rightarrow> job_table \<Rightarrow> bool \<times> job_table" where
  "heartbeatJob i tok leaseUntil t =
     (let (n, t') = exec_update (\<lambda>r. j_id r = i \<and> j_worker_token r = Some tok \<and> j_state r = Running)
                      (\<lambda>r. r\<lparr>j_lease_until := Some leaseUntil\<rparr>) t
      in (0 < n, t'))"

definition completeJob :: "nat \<Rightarrow> string option \<Rightarrow> job_table \<Rightarrow> bool \<times> job_table" where
  "completeJob i tok t =
     (let (n, t') = exec_update (owned_row i tok) (\<lambda>r. unleased (r\<lparr>j_state := Done\<rparr>)) t
      in (0 < n, t'))"

definition failJob ::
  "nat \<Rightarrow> nat \<Rightarrow> int \<Rightarrow> string \<Rightarrow> bool \<Rightarrow> string option \<Rightarrow> job_table \<Rightarrow> bool \<times> job_table" where
  "failJob i attempts nextRunAt err poison tok t =
     (let (n, t') = exec_update (owned_row i tok)
                      (\<lambda>r. unleased (r\<lparr>j_state := (if poison then Poison else Pending), j_attempts := attempts,
                                      j_next_run_at := nextRunAt, j_last_error := Some err\<rparr>)) t
      in (0 < n, t'))"

definition releaseJob :: "nat \<Rightarrow> string option \<Rightarrow> job_table \<Rightarrow> bool \<times> job_table" where
  "releaseJob i tok t =
     (let (n, t') = exec_update (owned_row i tok)
                      (\<lambda>r. unleased (r\<lparr>j_state := Pending, j_next_run_at := 0\<rparr>)) t
      in (0 < n, t'))"

definition parkJob :: "nat \<Rightarrow> string \<Rightarrow> string option \<Rightarrow> bool \<Rightarrow> job_table \<Rightarrow> bool \<times> job_table" where
  "parkJob i reason tok resetAttempts t =
     (let (n, t') = exec_update (owned_row i tok)
                      (\<lambda>r. unleased (r\<lparr>j_state := Waiting, j_last_error := Some reason,
                                      j_attempts := (if resetAttempts then 0 else j_attempts r)\<rparr>)) t
      in (0 < n, t'))"

definition reclaimExpiredLeases :: "int \<Rightarrow> job_table \<Rightarrow> nat \<times> job_table" where
  "reclaimExpiredLeases now =
     exec_update
       (\<lambda>r. j_state r = Running \<and> (case j_lease_until r of None \<Rightarrow> False | Some l \<Rightarrow> l \<le> now))
       (\<lambda>r. unleased (r\<lparr>j_state := Pending, j_reclaims := j_reclaims r + 1\<rparr>))"

definition pendingJobCount :: "job_table \<Rightarrow> nat" where
  "pendingJobCount t = count_where (\<lambda>r. j_state r \<in> {Pending, Running}) (t_jobs t)"

definition poisonJobs :: "job_table \<Rightarrow> job_row list" where
  "poisonJobs t = filter (\<lambda>r. j_state r = Poison) (t_jobs t)"

section \<open>Parked jobs\<close>

definition resumed :: "job_row \<Rightarrow> job_row" where
  "resumed r = r\<lparr>j_state := Pending, j_next_run_at := 0, j_last_error := None\<rparr>"

definition error_like :: "string \<Rightarrow> job_row \<Rightarrow> bool" where
  "error_like reason r \<longleftrightarrow>
     (case j_last_error r of None \<Rightarrow> False | Some e \<Rightarrow> sql_like None (reason @ ''%'') e)"

definition resumeWaitingJobs :: "string \<Rightarrow> job_table \<Rightarrow> nat \<times> job_table" where
  "resumeWaitingJobs coordinate =
     exec_update (\<lambda>r. j_state r = Waiting \<and> for_coordinate coordinate r) resumed"

definition resumeDaemonParkedJobs :: "job_table \<Rightarrow> nat \<times> job_table" where
  "resumeDaemonParkedJobs =
     exec_update (\<lambda>r. j_state r = Waiting \<and> error_like DAEMON_PARK_REASON r) resumed"

definition resumeEventNotLiveJobs :: "string \<Rightarrow> job_table \<Rightarrow> nat \<times> job_table" where
  "resumeEventNotLiveJobs coordinate =
     exec_update (\<lambda>r. j_state r = Waiting \<and> for_coordinate coordinate r \<and>
                      error_like EVENT_NOT_LIVE_PARK_REASON r) resumed"

definition waitingJobCount :: "string option \<Rightarrow> job_table \<Rightarrow> nat" where
  "waitingJobCount coordinate t =
     count_where (\<lambda>r. j_state r = Waiting \<and>
                      (case coordinate of None \<Rightarrow> True | Some c \<Rightarrow> for_coordinate c r)) (t_jobs t)"

section \<open>Cancelling\<close>

text \<open>\<open>prefix.replace(/[\%_]/g, "\\$&")\<close>.\<close>

definition like_escape :: "string \<Rightarrow> string" where
  "like_escape s =
     concat (map (\<lambda>c. if c \<in> {CHR 92, CHR ''%'', CHR ''_''} then [CHR 92, c] else [c]) s)"

definition supersedePendingJobs :: "string \<Rightarrow> string \<Rightarrow> job_table \<Rightarrow> nat \<times> job_table" where
  "supersedePendingJobs prefix keepKey =
     exec_delete (\<lambda>r. j_state r \<in> {Pending, Waiting} \<and>
       sql_like (Some CHR 92) (like_escape prefix @ ''%'') (j_dedupe_key r) \<and> j_dedupe_key r \<noteq> keepKey)"

definition SUBJECT_JOB_TYPES :: "string list" where
  "SUBJECT_JOB_TYPES = [''process_attendee'', ''process_talk'', ''match_recompute'', ''publish_matches'']"

definition cancelSubjectPipelineJobs :: "string \<Rightarrow> pubkey \<Rightarrow> bool \<Rightarrow> job_table \<Rightarrow> nat \<times> job_table" where
  "cancelSubjectPipelineJobs coordinate pk allStates =
     exec_delete (\<lambda>r. (allStates \<or> j_state r \<in> {Pending, Waiting}) \<and>
       j_type r \<in> set SUBJECT_JOB_TYPES \<and> for_coordinate coordinate r \<and> for_pubkey pk r)"

definition cancelJobsForEvent :: "string \<Rightarrow> job_table \<Rightarrow> nat \<times> job_table" where
  "cancelJobsForEvent coordinate =
     exec_delete (\<lambda>r. j_state r \<in> {Pending, Running, Waiting} \<and> for_coordinate coordinate r)"


section \<open>The table invariant\<close>

definition row_ok :: "job_row \<Rightarrow> bool" where
  "row_ok r \<longleftrightarrow>
     j_priority r = jobPriority (j_type r) \<and>
     (j_state r = Running \<longleftrightarrow> j_worker_token r \<noteq> None) \<and>
     (j_state r = Running \<longleftrightarrow> j_lease_until r \<noteq> None)"

definition table_ok :: "job_table \<Rightarrow> bool" where
  "table_ok t \<longleftrightarrow>
     distinct (map j_id (t_jobs t)) \<and> distinct (map j_dedupe_key (t_jobs t)) \<and>
     (\<forall>r\<in>set (t_jobs t). j_id r < t_next_id t \<and> row_ok r)"

datatype job_op =
    Enqueue string string json int
  | ClaimNext int string int type_filter
  | Heartbeat nat string int
  | Complete nat "string option"
  | Fail nat nat int string bool "string option"
  | Release nat "string option"
  | Park nat string "string option" bool
  | ReclaimExpired int
  | ResumeWaiting string
  | ResumeDaemonParked
  | ResumeEventNotLive string
  | ClearMatchMemo string
  | ClearAttendeeMemo string pubkey
  | Supersede string string
  | CancelSubject string pubkey bool
  | CancelEvent string

fun run_op :: "job_op \<Rightarrow> job_table \<Rightarrow> job_table" where
  "run_op (Enqueue ty k p nb) t = snd (enqueueJob ty k p nb t)"
| "run_op (ClaimNext now tok l f) t = snd (claimNextJob now tok l f t)"
| "run_op (Heartbeat i tok u) t = snd (heartbeatJob i tok u t)"
| "run_op (Complete i tok) t = snd (completeJob i tok t)"
| "run_op (Fail i a n e p tok) t = snd (failJob i a n e p tok t)"
| "run_op (Release i tok) t = snd (releaseJob i tok t)"
| "run_op (Park i why tok rs) t = snd (parkJob i why tok rs t)"
| "run_op (ReclaimExpired now) t = snd (reclaimExpiredLeases now t)"
| "run_op (ResumeWaiting c) t = snd (resumeWaitingJobs c t)"
| "run_op ResumeDaemonParked t = snd (resumeDaemonParkedJobs t)"
| "run_op (ResumeEventNotLive c) t = snd (resumeEventNotLiveJobs c t)"
| "run_op (ClearMatchMemo c) t = snd (clearMatchJobMemo c t)"
| "run_op (ClearAttendeeMemo c pk) t = snd (clearAttendeeJobMemo c pk t)"
| "run_op (Supersede pre k) t = snd (supersedePendingJobs pre k t)"
| "run_op (CancelSubject c pk a) t = snd (cancelSubjectPipelineJobs c pk a t)"
| "run_op (CancelEvent c) t = snd (cancelJobsForEvent c t)"

lemma unleased_simps [simp]:
  "j_id (unleased r) = j_id r" "j_dedupe_key (unleased r) = j_dedupe_key r"
  "j_type (unleased r) = j_type r" "j_priority (unleased r) = j_priority r"
  "j_state (unleased r) = j_state r" "j_worker_token (unleased r) = None"
  "j_lease_until (unleased r) = None" "j_payload (unleased r) = j_payload r"
  "j_attempts (unleased r) = j_attempts r" "j_next_run_at (unleased r) = j_next_run_at r"
  "j_last_error (unleased r) = j_last_error r" "j_reclaims (unleased r) = j_reclaims r"
  by (simp_all add: unleased_def)

lemma exec_update_simps [simp]:
  "fst (exec_update P f t) = count_where P (t_jobs t)"
  "t_jobs (snd (exec_update P f t)) = update_where P f (t_jobs t)"
  "t_next_id (snd (exec_update P f t)) = t_next_id t"
  by (simp_all add: exec_update_def)

lemma exec_delete_simps [simp]:
  "fst (exec_delete P t) = count_where P (t_jobs t)"
  "t_jobs (snd (exec_delete P t)) = delete_where P (t_jobs t)"
  "t_next_id (snd (exec_delete P t)) = t_next_id t"
  by (simp_all add: exec_delete_def)

lemma table_ok_update:
  assumes "table_ok t"
    and "\<And>r. j_id (f r) = j_id r" "\<And>r. j_dedupe_key (f r) = j_dedupe_key r"
    and "\<And>r. r \<in> set (t_jobs t) \<Longrightarrow> P r \<Longrightarrow> row_ok r \<Longrightarrow> row_ok (f r)"
  shows "table_ok (snd (exec_update P f t))"
  using assms unfolding table_ok_def
  by (auto simp: map_update_where_frame set_update_where)

lemma table_ok_delete: "table_ok t \<Longrightarrow> table_ok (snd (exec_delete P t))"
  by (auto simp: table_ok_def delete_where_def distinct_map_filter)

lemma row_ok_unleased: "row_ok r \<Longrightarrow> j_state r' \<noteq> Running \<Longrightarrow> j_priority r' = j_priority r \<Longrightarrow>
    j_type r' = j_type r \<Longrightarrow> row_ok (unleased r')"
  by (simp add: row_ok_def)

lemma owner_ops:
  "snd (heartbeatJob i k u t) =
     snd (exec_update (\<lambda>r. j_id r = i \<and> j_worker_token r = Some k \<and> j_state r = Running)
            (\<lambda>r. r\<lparr>j_lease_until := Some u\<rparr>) t)"
  "snd (completeJob i tok t) =
     snd (exec_update (owned_row i tok) (\<lambda>r. unleased (r\<lparr>j_state := Done\<rparr>)) t)"
  "snd (failJob i a n e p tok t) =
     snd (exec_update (owned_row i tok)
            (\<lambda>r. unleased (r\<lparr>j_state := (if p then Poison else Pending), j_attempts := a,
                            j_next_run_at := n, j_last_error := Some e\<rparr>)) t)"
  "snd (releaseJob i tok t) =
     snd (exec_update (owned_row i tok) (\<lambda>r. unleased (r\<lparr>j_state := Pending, j_next_run_at := 0\<rparr>)) t)"
  "snd (parkJob i why tok rs t) =
     snd (exec_update (owned_row i tok)
            (\<lambda>r. unleased (r\<lparr>j_state := Waiting, j_last_error := Some why,
                            j_attempts := (if rs then 0 else j_attempts r)\<rparr>)) t)"
  by (simp_all add: heartbeatJob_def completeJob_def failJob_def releaseJob_def parkJob_def case_prod_beta Let_def)

lemma owner_results:
  "fst (heartbeatJob i k u t) \<longleftrightarrow>
     (\<exists>r\<in>set (t_jobs t). j_id r = i \<and> j_worker_token r = Some k \<and> j_state r = Running)"
  "fst (completeJob i tok t) \<longleftrightarrow> (\<exists>r\<in>set (t_jobs t). owned_row i tok r)"
  "fst (failJob i a n e p tok t) \<longleftrightarrow> (\<exists>r\<in>set (t_jobs t). owned_row i tok r)"
  "fst (releaseJob i tok t) \<longleftrightarrow> (\<exists>r\<in>set (t_jobs t). owned_row i tok r)"
  "fst (parkJob i why tok rs t) \<longleftrightarrow> (\<exists>r\<in>set (t_jobs t). owned_row i tok r)"
  by (simp_all add: heartbeatJob_def completeJob_def failJob_def releaseJob_def parkJob_def
      case_prod_beta Let_def count_where_pos)

lemma first_runnable_Some:
  assumes "first_runnable now f rows = Some r"
  shows "r \<in> set rows" "runnable now r" "type_allowed f (j_type r)"
    and "r' \<in> set rows \<Longrightarrow> runnable now r' \<Longrightarrow> type_allowed f (j_type r') \<Longrightarrow> schedule_le r r'"
proof -
  let ?xs = "filter (\<lambda>r. runnable now r \<and> type_allowed f (j_type r)) rows"
  obtain rs where s: "sort_by schedule_le ?xs = r # rs"
    using assms by (auto simp: first_runnable_def split: list.splits)
  then have "r \<in> set (sort_by schedule_le ?xs)" by simp
  then have "r \<in> set ?xs" by (simp only: set_sort_by)
  then show "r \<in> set rows" "runnable now r" "type_allowed f (j_type r)" by auto
  have "total_preorder schedule_le" by (auto simp: total_preorder_def schedule_le_def)
  then have "sorted_wrt schedule_le (r # rs)" using sorted_sort_by [of schedule_le ?xs] s by simp
  moreover assume "r' \<in> set rows" "runnable now r'" "type_allowed f (j_type r')"
  then have "r' \<in> set (sort_by schedule_le ?xs)" by simp
  then have "r' \<in> set (r # rs)" by (simp only: s)
  ultimately show "schedule_le r r'" by (auto simp: schedule_le_def)
qed

lemma first_runnable_None:
  "first_runnable now f rows = None \<longleftrightarrow>
     (\<forall>r\<in>set rows. \<not> (runnable now r \<and> type_allowed f (j_type r)))"
proof -
  have "first_runnable now f rows = None \<longleftrightarrow>
      sort_by schedule_le (filter (\<lambda>r. runnable now r \<and> type_allowed f (j_type r)) rows) = []"
    by (simp add: first_runnable_def split: list.split)
  also have "\<dots> \<longleftrightarrow> filter (\<lambda>r. runnable now r \<and> type_allowed f (j_type r)) rows = []"
    by (metis length_0_conv length_sort_by)
  finally show ?thesis by (simp add: filter_empty_conv)
qed

lemma claim_update:
  assumes "table_ok t" "row \<in> set (t_jobs t)"
  shows "update_where (\<lambda>r. j_id r = j_id row)
           (\<lambda>r. r\<lparr>j_state := Running, j_claimed_at := Some now,
                  j_lease_until := Some (now + leaseMs), j_worker_token := Some tok,
                  j_reclaims := j_reclaims row + (if j_state row = Running then 1 else 0)\<rparr>) (t_jobs t) =
         update_where (\<lambda>r. j_id r = j_id row) (claimed now tok leaseMs) (t_jobs t)"
proof -
  have "r = row" if "r \<in> set (t_jobs t)" "j_id r = j_id row" for r
    using assms that by (auto simp: table_ok_def distinct_map inj_on_def)
  then show ?thesis unfolding update_where_def
    by (intro map_cong refl) (metis (no_types, lifting) claimed_def)
qed

lemma claim_cases:
  assumes "table_ok t"
  shows "claimNextJob now tok l f t =
     (if onlyTypes f = Some [] then (None, t)
      else case first_runnable now f (t_jobs t) of
             None \<Rightarrow> (None, t)
           | Some row \<Rightarrow> (Some (claimed now tok l row),
                          snd (exec_update (\<lambda>r. j_id r = j_id row) (claimed now tok l) t)))"
  using claim_update [OF assms first_runnable_Some(1), of now f]
  by (auto simp: claimNextJob_def exec_update_def split: option.split)

lemma claimed_simps [simp]:
  "j_id (claimed now tok l r) = j_id r" "j_dedupe_key (claimed now tok l r) = j_dedupe_key r"
  "j_type (claimed now tok l r) = j_type r" "j_priority (claimed now tok l r) = j_priority r"
  "j_state (claimed now tok l r) = Running" "j_worker_token (claimed now tok l r) = Some tok"
  "j_lease_until (claimed now tok l r) = Some (now + l)"
  "j_attempts (claimed now tok l r) = j_attempts r"
  by (simp_all add: claimed_def)

lemma table_ok_claim: "table_ok t \<Longrightarrow> table_ok (snd (claimNextJob now tok l f t))"
  by (simp add: claim_cases split: option.split)
    (auto intro!: table_ok_update simp: row_ok_def)

lemma table_ok_enqueue: "table_ok t \<Longrightarrow> table_ok (snd (enqueueJob ty k p nb t))"
  by (auto simp: enqueueJob_def find_None_iff table_ok_def new_row_def row_ok_def less_Suc_eq
      split: option.split)

lemma table_ok_run_op:
  assumes "table_ok t"
  shows "table_ok (run_op op t)"
  using assms
  by (cases op)
    (auto simp: owner_ops reclaimExpiredLeases_def resumeWaitingJobs_def resumeDaemonParkedJobs_def
       resumeEventNotLiveJobs_def clearMatchJobMemo_def clearAttendeeJobMemo_def
       supersedePendingJobs_def cancelSubjectPipelineJobs_def cancelJobsForEvent_def
       table_ok_claim table_ok_enqueue table_ok_delete resumed_def row_ok_def
       intro!: table_ok_update)


text \<open>
  Every statement of the queue keeps the table well formed: ids and dedupe keys stay unique,
  a row carries a token and a lease exactly while it runs, and its priority is its type's.
\<close>

theorem run_op_table_ok:
  assumes "table_ok t"
  shows "table_ok (run_op op t) \<and> distinct (map j_dedupe_key (t_jobs (run_op op t))) \<and>
         (\<forall>r. r \<in> set (t_jobs (run_op op t)) \<and> j_state r \<noteq> Running \<longrightarrow> j_worker_token r = None)"
  using table_ok_run_op [OF assms, of op] by (auto simp: table_ok_def row_ok_def)

section \<open>The lease discipline\<close>

text \<open>The tokens handed out so far, beside the table; \<open>randomUUID\<close> never repeats one.\<close>

type_synonym lease_state = "string set \<times> job_table"

fun is_claim :: "job_op \<Rightarrow> bool" where
  "is_claim (ClaimNext _ _ _ _) = True"
| "is_claim _ = False"

inductive lease_step :: "lease_state \<Rightarrow> lease_state \<Rightarrow> bool" where
  Claim: "tok \<notin> toks \<Longrightarrow>
     lease_step (toks, t) (insert tok toks, run_op (ClaimNext now tok l f) t)"
| Other: "\<not> is_claim op \<Longrightarrow> lease_step (toks, t) (toks, run_op op t)"

definition row_token :: "job_table \<Rightarrow> nat \<Rightarrow> string option" where
  "row_token t i =
     (case List.find (\<lambda>r. j_id r = i) (t_jobs t) of None \<Rightarrow> None | Some r \<Rightarrow> j_worker_token r)"

definition lease_owner :: "lease_state \<Rightarrow> nat \<Rightarrow> string option" where
  "lease_owner s i = row_token (snd s) i"

definition lease_ok :: "lease_state \<Rightarrow> bool" where
  "lease_ok s \<longleftrightarrow> table_ok (snd s) \<and>
     (\<forall>r\<in>set (t_jobs (snd s)). \<forall>k. j_worker_token r = Some k \<longrightarrow> k \<in> fst s)"

lemma row_token_Some:
  assumes "table_ok t"
  shows "row_token t i = Some k \<longleftrightarrow> (\<exists>r\<in>set (t_jobs t). j_id r = i \<and> j_worker_token r = Some k)"
proof (cases "List.find (\<lambda>r. j_id r = i) (t_jobs t)")
  case None
  then have "\<forall>r\<in>set (t_jobs t). j_id r \<noteq> i" by (auto simp: find_None_iff)
  with None show ?thesis by (auto simp: row_token_def)
next
  case (Some r)
  then have r: "r \<in> set (t_jobs t)" "j_id r = i" using find_Some_in by force+
  then have "r' = r" if "r' \<in> set (t_jobs t)" "j_id r' = i" for r'
    using assms that by (auto simp: table_ok_def distinct_map inj_on_def)
  then have "(\<exists>r'\<in>set (t_jobs t). j_id r' = i \<and> j_worker_token r' = Some k) \<longleftrightarrow> j_worker_token r = Some k"
    using r by blast
  with Some show ?thesis by (simp add: row_token_def)
qed

lemma token_origin:
  assumes "r' \<in> set (t_jobs (run_op op t))" "j_worker_token r' = Some k"
    and "\<not> is_claim op"
  shows "\<exists>r\<in>set (t_jobs t). j_id r = j_id r' \<and> j_worker_token r = Some k"
  using assms
  by (cases op)
    (auto simp: owner_ops reclaimExpiredLeases_def resumeWaitingJobs_def resumeDaemonParkedJobs_def
       resumeEventNotLiveJobs_def clearMatchJobMemo_def clearAttendeeJobMemo_def
       supersedePendingJobs_def cancelSubjectPipelineJobs_def cancelJobsForEvent_def
       enqueueJob_def new_row_def resumed_def set_update_where split: option.splits)

lemma token_origin_claim:
  assumes "table_ok t" "r' \<in> set (t_jobs (snd (claimNextJob now tok l f t)))" "j_worker_token r' = Some k"
  shows "k = tok \<or> (\<exists>r\<in>set (t_jobs t). j_id r = j_id r' \<and> j_worker_token r = Some k)"
  using assms by (auto simp: claim_cases set_update_where split: option.splits if_splits)

lemma lease_ok_step: "lease_step s s' \<Longrightarrow> lease_ok s \<Longrightarrow> lease_ok s'"
proof (induction rule: lease_step.induct)
  case (Claim tok toks t now l f)
  then have ok: "table_ok t" by (simp add: lease_ok_def)
  have "k \<in> insert tok toks"
    if "r' \<in> set (t_jobs (run_op (ClaimNext now tok l f) t))" "j_worker_token r' = Some k" for r' k
    using that Claim.prems token_origin_claim [OF ok, of r' now tok l f k] by (auto simp: lease_ok_def)
  then show ?case using table_ok_run_op [OF ok, of "ClaimNext now tok l f"] by (auto simp: lease_ok_def)
next
  case (Other op toks t)
  then have ok: "table_ok t" by (simp add: lease_ok_def)
  have "k \<in> toks" if "r' \<in> set (t_jobs (run_op op t))" "j_worker_token r' = Some k" for r' k
    using that Other token_origin [of r' op t k] by (auto simp: lease_ok_def)
  then show ?case using table_ok_run_op [OF ok, of op] by (auto simp: lease_ok_def)
qed

lemma lease_owner_step:
  assumes "lease_ok s" "lease_step s s'" "lease_owner s' i = Some k"
  shows "lease_owner s i = Some k \<or> k \<notin> fst s"
proof -
  obtain toks t where s: "s = (toks, t)" by force
  have ok: "table_ok t" "table_ok (snd s')"
    using assms(1) lease_ok_step [OF assms(2,1)] by (simp_all add: s lease_ok_def)
  obtain r' where r': "r' \<in> set (t_jobs (snd s'))" "j_id r' = i" "j_worker_token r' = Some k"
    using assms(3) row_token_Some [OF ok(2)] by (auto simp: lease_owner_def)
  from assms(2) show ?thesis
  proof (cases rule: lease_step.cases)
    case (Claim tok toks' t' now l f)
    then show ?thesis using r' ok token_origin_claim [OF ok(1), of r' now tok l f k]
      by (auto simp: s lease_owner_def row_token_Some)
  next
    case (Other op toks' t')
    then show ?thesis using r' ok token_origin [of r' op t k]
      by (auto simp: s lease_owner_def row_token_Some)
  qed
qed

interpretation jobs: leases lease_owner fst lease_step lease_ok
proof unfold_locales
  fix s i k assume "lease_ok s" "lease_owner s i = Some k"
  then show "k \<in> fst s" by (auto simp: lease_ok_def lease_owner_def row_token_Some)
next
  fix s t :: lease_state assume "lease_step s t"
  then show "fst s \<subseteq> fst t" by (auto elim: lease_step.cases)
qed (use lease_owner_step lease_ok_step in blast)+

text \<open>What a worker with a stale token can still do: nothing.\<close>

lemma stale_token_noop:
  assumes "table_ok t" "row_token t i \<noteq> Some k" "k \<noteq> []"
  shows "\<not> fst (completeJob i (Some k) t)" "run_op (Complete i (Some k)) t = t"
    "\<not> fst (failJob i a n e p (Some k) t)" "run_op (Fail i a n e p (Some k)) t = t"
    "\<not> fst (releaseJob i (Some k) t)" "run_op (Release i (Some k)) t = t"
    "\<not> fst (parkJob i why (Some k) rs t)" "run_op (Park i why (Some k) rs) t = t"
    "\<not> fst (heartbeatJob i k u t)" "run_op (Heartbeat i k u) t = t"
proof -
  have no: "\<not> (j_id r = i \<and> j_worker_token r = Some k)" if "r \<in> set (t_jobs t)" for r
    using that assms by (auto simp: row_token_Some)
  then have no': "\<not> owned_row i (Some k) r" if "r \<in> set (t_jobs t)" for r
    using that assms(3) by (auto simp: owned_row_def)
  have id: "snd (exec_update P f t) = t" if "\<And>r. r \<in> set (t_jobs t) \<Longrightarrow> \<not> P r" for P f
    using that by (simp add: exec_update_def update_where_id)
  show "\<not> fst (completeJob i (Some k) t)" "\<not> fst (failJob i a n e p (Some k) t)"
    "\<not> fst (releaseJob i (Some k) t)" "\<not> fst (parkJob i why (Some k) rs t)"
    "\<not> fst (heartbeatJob i k u t)"
    using no no' by (auto simp: owner_results)
  show "run_op (Complete i (Some k)) t = t" "run_op (Fail i a n e p (Some k)) t = t"
    "run_op (Release i (Some k)) t = t" "run_op (Park i why (Some k) rs) t = t"
    "run_op (Heartbeat i k u) t = t"
    using no no' by (simp_all only: run_op.simps owner_ops) (rule id; blast)+
qed

text \<open>
  (C4) A worker that lost its lease can never write its result: once a token does not hold a row,
  then after any interleaving of claims, sweeps, cancellations and other workers' statements its
  complete, fail, release, park and heartbeat report failure and leave the table as it is.
\<close>

theorem lost_lease_never_writes:
  assumes "lease_ok (toks, t)" "k \<in> toks" "k \<noteq> []" "row_token t i \<noteq> Some k"
    and "lease_step\<^sup>*\<^sup>* (toks, t) (toks', t')"
  shows "row_token t' i \<noteq> Some k \<and>
         completeJob i (Some k) t' = (False, t') \<and>
         failJob i a n e p (Some k) t' = (False, t') \<and>
         releaseJob i (Some k) t' = (False, t') \<and>
         parkJob i why (Some k) rs t' = (False, t') \<and>
         heartbeatJob i k u t' = (False, t')"
proof -
  have "lease_ok (toks', t') \<and> k \<in> fst (toks', t') \<and> lease_owner (toks', t') i \<noteq> Some k"
    using assms by (intro jobs.lost_stays_lost [OF assms(5)]) (simp_all add: lease_owner_def)
  then have t': "table_ok t'" "row_token t' i \<noteq> Some k"
    by (simp_all add: lease_ok_def lease_owner_def)
  from stale_token_noop [OF this assms(3)] t'(2) show ?thesis
    by (simp add: prod_eq_iff)
qed


section \<open>What a claim takes\<close>

text \<open>
  A claim returns the runnable row of an allowed type that is first by priority and then by
  id, stamped with the claimer's token and lease, and changes that row only; a parked, finished
  or poisoned row is never taken; and it returns nothing only when nothing is claimable.
\<close>

theorem claimNextJob_spec:
  assumes "table_ok t"
  shows "case claimNextJob now tok leaseMs f t of
      (None, t') \<Rightarrow> t' = t \<and>
        (onlyTypes f = Some [] \<or> (\<forall>r\<in>set (t_jobs t). \<not> (runnable now r \<and> type_allowed f (j_type r))))
    | (Some r, t') \<Rightarrow>
        \<exists>row\<in>set (t_jobs t).
          runnable now row \<and> type_allowed f (j_type row) \<and> j_state row \<in> {Pending, Running} \<and>
          (\<forall>r'\<in>set (t_jobs t). runnable now r' \<and> type_allowed f (j_type r') \<longrightarrow> schedule_le row r') \<and>
          r = claimed now tok leaseMs row \<and>
          t_jobs t' = map (\<lambda>x. if j_id x = j_id row then r else x) (t_jobs t)"
proof (cases "onlyTypes f = Some []")
  case True
  then show ?thesis by (simp add: claimNextJob_def)
next
  case False
  show ?thesis
  proof (cases "first_runnable now f (t_jobs t)")
    case None
    with False show ?thesis using first_runnable_None [of now f "t_jobs t"]
      by (simp add: claimNextJob_def)
  next
    case (Some row)
    note fr = first_runnable_Some [OF Some]
    have "x = row" if "x \<in> set (t_jobs t)" "j_id x = j_id row" for x
      using assms that fr(1) by (auto simp: table_ok_def distinct_map inj_on_def)
    then have "update_where (\<lambda>r. j_id r = j_id row) (claimed now tok leaseMs) (t_jobs t) =
        map (\<lambda>x. if j_id x = j_id row then claimed now tok leaseMs row else x) (t_jobs t)"
      by (auto simp: update_where_def)
    moreover have "j_state row \<in> {Pending, Running}" using fr(2) by (auto simp: runnable_def)
    ultimately show ?thesis using fr False Some
      by (auto simp: claim_cases [OF assms])
  qed
qed

section \<open>Superseding\<close>

lemma sql_like_rest: "sql_like e [CHR ''%''] s" if "e \<noteq> Some CHR ''%''"
  using that by (induction s) auto

definition like_special :: "char \<Rightarrow> bool" where
  "like_special c \<longleftrightarrow> c \<in> {CHR 92, CHR ''%'', CHR ''_''}"

lemma like_escape_Cons:
  "like_escape (c # p) = (if like_special c then [CHR 92, c] else [c]) @ like_escape p"
  by (simp add: like_escape_def like_special_def)

lemma sql_like_escaped: "sql_like (Some e) (e # c # ps) (d # s) \<longleftrightarrow> sql_lower c = sql_lower d \<and> sql_like (Some e) ps s"
  by simp

lemma sql_like_plain:
  "\<not> like_special c \<Longrightarrow>
   sql_like (Some CHR 92) (c # ps) (d # s) \<longleftrightarrow> sql_lower c = sql_lower d \<and> sql_like (Some CHR 92) ps s"
  by (auto simp: like_special_def)

lemma like_escape_prefix:
  "sql_like (Some CHR 92) (like_escape p @ ''%'') s \<longleftrightarrow>
     map sql_lower p = map sql_lower (take (length p) s)"
proof (induction p arbitrary: s)
  case Nil
  then show ?case using sql_like_rest [of "Some CHR 92" s] by (simp add: like_escape_def)
next
  case (Cons c p)
  show ?case
  proof (cases s)
    case Nil
    then show ?thesis by (simp add: like_escape_Cons like_special_def)
  next
    case (Cons d s')
    then show ?thesis using Cons.IH [of s']
      by (cases "like_special c")
        (simp_all add: like_escape_Cons sql_like_escaped sql_like_plain del: sql_like.simps)
  qed
qed

text \<open>
  Superseding deletes exactly the pending and parked rows whose dedupe key begins with the
  attendee's prefix, letters compared without regard to case, and is not the key to keep: no
  character of an organizer-chosen identifier acts as a wildcard, and a running job is left alone.
\<close>

theorem supersede_exact:
  "t_jobs (snd (supersedePendingJobs prefix keepKey t)) =
     filter (\<lambda>r. \<not> (j_state r \<in> {Pending, Waiting} \<and> j_dedupe_key r \<noteq> keepKey \<and>
                     map sql_lower (take (length prefix) (j_dedupe_key r)) = map sql_lower prefix)) (t_jobs t)"
  by (auto simp: supersedePendingJobs_def delete_where_def like_escape_prefix intro!: filter_cong)

text \<open>
  The comparison folds case, so the jobs of an event whose identifier differs in case only are
  deleted with it, for the same attendee.
\<close>

lemma supersede_folds_case:
  "t_jobs (snd (supersedePendingJobs ''proc:31923:k:Meetup:p:'' ''proc:31923:k:Meetup:p:2''
     (snd (enqueueJob ''process_attendee'' ''proc:31923:k:meetup:p:1'' JNull 0
        \<lparr>t_jobs = [], t_next_id = 1\<rparr>)))) = []"
  unfolding supersede_exact
  by (simp add: enqueueJob_def new_row_def sql_lower_def) code_simp

section \<open>Forgetting finished work\<close>

text \<open>
  After an organizer's recompute has dropped the finished matching rows of its event, an
  enqueue of matching work for that event is never suppressed by finished work: it creates a
  pending row, or coalesces with a row that is still live.
\<close>

theorem recompute_reenqueues:
  assumes "table_ok t"
    and "\<forall>r\<in>set (t_jobs t). j_dedupe_key r = key \<longrightarrow>
           j_type r \<in> set MATCH_JOB_TYPES \<and> for_coordinate coordinate r"
  shows "case enqueueJob type key payload nb (snd (clearMatchJobMemo coordinate t)) of
      (Enqueued, t') \<Rightarrow> \<exists>r\<in>set (t_jobs t'). j_dedupe_key r = key \<and> j_state r = Pending \<and> j_type r = type
    | (Existing st, t') \<Rightarrow> st \<in> {Pending, Running, Waiting} \<and> t' = snd (clearMatchJobMemo coordinate t)"
proof (cases "List.find (\<lambda>r. j_dedupe_key r = key) (t_jobs (snd (clearMatchJobMemo coordinate t)))")
  case None
  then show ?thesis by (simp add: enqueueJob_def new_row_def)
next
  case (Some r)
  then have r: "r \<in> set (t_jobs (snd (clearMatchJobMemo coordinate t)))" "j_dedupe_key r = key"
    using find_Some_in by force+
  then have "\<not> terminal r" using assms(2) by (auto simp: clearMatchJobMemo_def)
  then have "j_state r \<in> {Pending, Running, Waiting}" by (cases "j_state r") (auto simp: terminal_def)
  with Some show ?thesis by (simp add: enqueueJob_def)
qed

section \<open>At concrete tables\<close>

definition score_payload :: json where
  "score_payload = JObj [(''coordinate'', JStr ''ev''), (''pubkey'', JStr ''p'')]"

definition sample_table :: job_table where
  "sample_table =
     \<lparr>t_jobs = [new_row 1 ''score_reverse_batch'' ''a'' score_payload 0,
                new_row 2 ''publish_matches'' ''b'' score_payload 0,
                (new_row 3 ''score_batch'' ''c'' score_payload 0)\<lparr>j_state := Done\<rparr>],
      t_next_id = 4\<rparr>"

lemma sample_table_ok [simp]: "table_ok sample_table"
  by (simp add: table_ok_def sample_table_def new_row_def row_ok_def)

lemma run_op_table_ok_witness: "table_ok (run_op (ClaimNext 5 ''w'' 10 no_filter) sample_table)"
  using run_op_table_ok [OF sample_table_ok] by blast

lemma sample_claim:
  "fst (claimNextJob 5 ''w'' 10 no_filter sample_table) =
     Some (claimed 5 ''w'' 10 (new_row 2 ''publish_matches'' ''b'' score_payload 0))"
  by (simp add: claimNextJob_def first_runnable_def no_filter_def sample_table_def new_row_def runnable_def
      type_allowed_def schedule_le_def jobPriority_def JOB_PRIORITY_def)

lemma claimNextJob_spec_witness:
  "\<exists>row. row \<in> set (t_jobs sample_table) \<and> j_type row = ''publish_matches'' \<and> runnable 5 row"
proof -
  obtain t' where cl: "claimNextJob 5 ''w'' 10 no_filter sample_table =
      (Some (claimed 5 ''w'' 10 (new_row 2 ''publish_matches'' ''b'' score_payload 0)), t')"
    using sample_claim by (metis prod.collapse)
  from claimNextJob_spec [OF sample_table_ok, where now = 5 and tok = "''w''" and leaseMs = 10 and f = no_filter]
  obtain row where "row \<in> set (t_jobs sample_table)" "runnable 5 row"
    "claimed 5 ''w'' 10 (new_row 2 ''publish_matches'' ''b'' score_payload 0) = claimed 5 ''w'' 10 row"
    unfolding cl by auto
  moreover from this(3) have "j_type (new_row 2 ''publish_matches'' ''b'' score_payload 0) = j_type row"
    by (metis claimed_simps(3))
  ultimately show ?thesis by (auto simp: new_row_def)
qed

lemma recompute_reenqueues_witness:
  "\<exists>t'. enqueueJob ''score_batch'' ''c'' score_payload 0 (snd (clearMatchJobMemo ''ev'' sample_table)) = (Enqueued, t')
     \<and> (\<exists>r\<in>set (t_jobs t'). j_dedupe_key r = ''c'' \<and> j_state r = Pending)"
proof -
  let ?e = "enqueueJob ''score_batch'' ''c'' score_payload 0 (snd (clearMatchJobMemo ''ev'' sample_table))"
  have "fst ?e = Enqueued"
    by (simp add: enqueueJob_def clearMatchJobMemo_def exec_delete_def sample_table_def new_row_def terminal_def
        for_coordinate_def json_field_def score_payload_def MATCH_JOB_TYPES_def)
  moreover have "case ?e of
      (Enqueued, t') \<Rightarrow> \<exists>r\<in>set (t_jobs t'). j_dedupe_key r = ''c'' \<and> j_state r = Pending \<and> j_type r = ''score_batch''
    | (Existing st, t') \<Rightarrow> st \<in> {Pending, Running, Waiting} \<and> t' = snd (clearMatchJobMemo ''ev'' sample_table)"
    by (rule recompute_reenqueues [OF sample_table_ok])
      (simp add: sample_table_def new_row_def for_coordinate_def json_field_def score_payload_def MATCH_JOB_TYPES_def)
  ultimately show ?thesis by (cases ?e) auto
qed

lemma lost_lease_never_writes_witness:
  "completeJob 2 (Some ''dead'') (run_op (ClaimNext 5 ''w'' 10 no_filter) sample_table) =
     (False, run_op (ClaimNext 5 ''w'' 10 no_filter) sample_table)"
proof -
  have "lease_ok ({''dead''}, sample_table)"
    using sample_table_ok by (auto simp: lease_ok_def) (auto simp: sample_table_def new_row_def)
  moreover have "lease_step\<^sup>*\<^sup>* ({''dead''}, sample_table)
      (insert ''w'' {''dead''}, run_op (ClaimNext 5 ''w'' 10 no_filter) sample_table)"
    by (intro r_into_rtranclp lease_step.Claim) simp
  moreover have "row_token sample_table 2 \<noteq> Some ''dead''"
    by (simp add: row_token_def sample_table_def new_row_def)
  ultimately show ?thesis
    using lost_lease_never_writes [of "{''dead''}" sample_table "''dead''" 2] by blast
qed

end
