(* ===== verification/Job_Runner.thy ===== *)
theory Job_Runner
  imports Job_Store
begin

text \<open>
  The job runner (\<open>packages/coordinator/src/pipeline/jobs.ts\<close>): the retry schedule, the lanes of
  the worker pool, one claimed execution with its poison, park and release rules, and the drain
  loop.

  A handler is an argument of the model: a function of the payload and the runner's state that
  returns the state as it finds it when the promise settles (everything that happened during the
  await included: other statements on the table, the clock, a shutdown) and what was thrown.
\<close>

section \<open>Options and schedule\<close>

definition MAX_LEASE_RECLAIMS :: nat where "MAX_LEASE_RECLAIMS = 3"

definition SCORE_LANE :: "string list" where
  "SCORE_LANE = [''score_batch'', ''score_reverse_batch'']"

datatype lane = Score | Serial

definition laneOf :: "string \<Rightarrow> lane" where
  "laneOf type = (if type \<in> set SCORE_LANE then Score else Serial)"

text \<open>A \<open>ParkJobError\<close>, or any other thrown value with its message.\<close>

datatype job_error = ParkJobError string | OtherError string string

fun error_message :: "job_error \<Rightarrow> string" where
  "error_message (ParkJobError m) = m"
| "error_message (OtherError _ m) = m"

record runner_options =
  opt_maxAttempts :: "nat option"
  opt_baseBackoffMs :: "int option"
  opt_backoffScheduleMs :: "int list option"
  opt_leaseMs :: "int option"
  opt_scoreConcurrency :: "nat option"
  opt_poisonExempt :: "job_error \<Rightarrow> string option"
  opt_retryBudget :: "job_error \<Rightarrow> nat option"
  opt_onPoison :: bool

record runner =
  backoffSchedule :: "int list"
  maxAttempts :: nat
  leaseMs :: int
  scoreConcurrency :: nat
  poisonExempt :: "job_error \<Rightarrow> string option"
  retryBudget :: "job_error \<Rightarrow> nat option"
  notifies :: bool

definition HOUR :: int where "HOUR = 60 * 60000"
definition THREE_DAYS :: int where "THREE_DAYS = 3 * 24 * HOUR"

text \<open>The \<open>while (total < THREE_DAYS)\<close> loop.\<close>

function extend_schedule :: "int \<Rightarrow> int list \<Rightarrow> int list" where
  "extend_schedule acc schedule =
     (if acc < THREE_DAYS then extend_schedule (acc + 4 * HOUR) (schedule @ [4 * HOUR])
      else schedule)"
  by pat_completeness auto
termination
  by (relation "measure (\<lambda>(acc, _). nat (THREE_DAYS - acc))") (auto simp: HOUR_def)

declare extend_schedule.simps [simp del]

definition buildDefaultBackoffSchedule :: "int list" where
  "buildDefaultBackoffSchedule =
     (let schedule = [1000, 10000, 100000] @ replicate 6 HOUR
      in extend_schedule (sum_list schedule) schedule)"

definition new_runner :: "runner_options \<Rightarrow> runner" where
  "new_runner opts =
     (let schedule =
        (case opt_backoffScheduleMs opts of
           Some s \<Rightarrow> s
         | None \<Rightarrow>
             if opt_maxAttempts opts \<noteq> None \<or> opt_baseBackoffMs opts \<noteq> None
             then map (\<lambda>i. (case opt_baseBackoffMs opts of Some b \<Rightarrow> b | None \<Rightarrow> 1000) * 2 ^ i)
                    [0..<(case opt_maxAttempts opts of Some m \<Rightarrow> m | None \<Rightarrow> 5) - 1]
             else buildDefaultBackoffSchedule)
      in \<lparr>backoffSchedule = schedule,
          maxAttempts = (case opt_maxAttempts opts of Some m \<Rightarrow> m | None \<Rightarrow> length schedule + 1),
          leaseMs = (case opt_leaseMs opts of Some l \<Rightarrow> l | None \<Rightarrow> 5 * 60000),
          scoreConcurrency = max 1 (case opt_scoreConcurrency opts of Some c \<Rightarrow> c | None \<Rightarrow> 1),
          poisonExempt = opt_poisonExempt opts,
          retryBudget = opt_retryBudget opts,
          notifies = opt_onPoison opts\<rparr>)"

definition backoffForAttempt :: "runner \<Rightarrow> nat \<Rightarrow> int" where
  "backoffForAttempt R attempts =
     (if backoffSchedule R = [] then 0
      else backoffSchedule R ! (min attempts (length (backoffSchedule R)) - 1))"

section \<open>Lanes\<close>

record pool_state =
  p_busy :: nat
  p_score :: nat
  p_serial :: nat

definition claimableTypes :: "runner \<Rightarrow> pool_state \<Rightarrow> type_filter" where
  "claimableTypes R pool =
     (let scoreFull = p_score pool \<ge> scoreConcurrency R; serialFull = p_serial pool \<ge> 1
      in if serialFull \<and> scoreFull then \<lparr>onlyTypes = Some [], excludeTypes = None\<rparr>
         else if serialFull then \<lparr>onlyTypes = Some SCORE_LANE, excludeTypes = None\<rparr>
         else if scoreFull then \<lparr>onlyTypes = None, excludeTypes = Some SCORE_LANE\<rparr>
         else no_filter)"

fun lane_enter :: "lane \<Rightarrow> pool_state \<Rightarrow> pool_state" where
  "lane_enter Score p = p\<lparr>p_score := p_score p + 1\<rparr>"
| "lane_enter Serial p = p\<lparr>p_serial := p_serial p + 1\<rparr>"

fun lane_leave :: "lane \<Rightarrow> pool_state \<Rightarrow> pool_state" where
  "lane_leave Score p = p\<lparr>p_score := p_score p - 1\<rparr>"
| "lane_leave Serial p = p\<lparr>p_serial := p_serial p - 1\<rparr>"

section \<open>One execution\<close>

record poison_info =
  pi_type :: string
  pi_payload :: json
  pi_attempts :: nat
  pi_error :: string
  pi_parked :: "string option"

record run_state =
  rs_table :: job_table
  rs_now :: int
  rs_stopping :: bool
  rs_aborted :: bool
  rs_notices :: "poison_info list"

type_synonym handler = "json \<Rightarrow> run_state \<Rightarrow> run_state \<times> job_error option"

definition on_poison :: "runner \<Rightarrow> bool \<Rightarrow> poison_info \<Rightarrow> run_state \<Rightarrow> run_state" where
  "on_poison R owned info s =
     (if owned \<and> notifies R then s\<lparr>rs_notices := rs_notices s @ [info]\<rparr> else s)"

definition no_handler_message :: "string \<Rightarrow> string" where
  "no_handler_message type = ''no handler for '' @ type"

definition crash_message :: "nat \<Rightarrow> string" where
  "crash_message n =
     ''recovered '' @ show_nat n @ '' times after its worker died mid-run '' @
     [CHR 0xE2, CHR 0x80, CHR 0x94] @ '' presumed to crash the process''"

definition failure :: "runner \<Rightarrow> job_row \<Rightarrow> string \<Rightarrow> job_error \<Rightarrow> run_state \<Rightarrow> run_state" where
  "failure R job tok err s =
     (let attempts = j_attempts job + 1;
          budget = min (case retryBudget R err of Some b \<Rightarrow> b | None \<Rightarrow> maxAttempts R) (maxAttempts R);
          poison = attempts \<ge> budget;
          backoff = backoffForAttempt R attempts;
          msg = error_message err;
          parkReason = (if poison then poisonExempt R err else None)
      in case parkReason of
           Some (c # cs) \<Rightarrow>
             (let (parked, t) = parkJob (j_id job) ((c # cs) @ '': '' @ msg) (Some tok) True (rs_table s)
              in on_poison R parked
                   \<lparr>pi_type = j_type job, pi_payload = j_payload job, pi_attempts = attempts,
                    pi_error = msg, pi_parked = Some (c # cs)\<rparr> (s\<lparr>rs_table := t\<rparr>))
         | _ \<Rightarrow>
             (let (owned, t) = failJob (j_id job) attempts (rs_now s + backoff) msg poison (Some tok) (rs_table s)
              in on_poison R (poison \<and> owned)
                   \<lparr>pi_type = j_type job, pi_payload = j_payload job, pi_attempts = attempts,
                    pi_error = msg, pi_parked = None\<rparr> (s\<lparr>rs_table := t\<rparr>)))"

definition settle :: "runner \<Rightarrow> job_row \<Rightarrow> string \<Rightarrow> run_state \<times> job_error option \<Rightarrow> run_state" where
  "settle R job tok outcome =
     (case outcome of
        (s, None) \<Rightarrow> s\<lparr>rs_table := snd (completeJob (j_id job) (Some tok) (rs_table s))\<rparr>
      | (s, Some err) \<Rightarrow>
          if rs_aborted s
          then s\<lparr>rs_table := snd (releaseJob (j_id job) (Some tok) (rs_table s))\<rparr>
          else (case err of
                  ParkJobError why \<Rightarrow>
                    s\<lparr>rs_table := snd (parkJob (j_id job) why (Some tok) False (rs_table s))\<rparr>
                | OtherError _ _ \<Rightarrow> failure R job tok err s))"

definition execute ::
  "runner \<Rightarrow> (string \<Rightarrow> handler option) \<Rightarrow> job_row \<Rightarrow> string \<Rightarrow> run_state \<Rightarrow> run_state" where
  "execute R handlers job tok s =
     (case handlers (j_type job) of
        None \<Rightarrow>
          s\<lparr>rs_table := snd (failJob (j_id job) (j_attempts job + 1) (rs_now s)
              (no_handler_message (j_type job)) True (Some tok) (rs_table s))\<rparr>
      | Some h \<Rightarrow>
          if j_reclaims job \<ge> MAX_LEASE_RECLAIMS
          then (let (owned, t) = failJob (j_id job) (j_attempts job + 1) (rs_now s)
                      (crash_message (j_reclaims job)) True (Some tok) (rs_table s)
                in on_poison R owned
                     \<lparr>pi_type = j_type job, pi_payload = j_payload job, pi_attempts = j_attempts job + 1,
                      pi_error = crash_message (j_reclaims job), pi_parked = None\<rparr> (s\<lparr>rs_table := t\<rparr>))
          else settle R job tok (h (j_payload job) s))"

definition runOne ::
  "runner \<Rightarrow> (string \<Rightarrow> handler option) \<Rightarrow> type_filter \<Rightarrow> string \<Rightarrow> run_state \<Rightarrow> bool \<times> run_state" where
  "runOne R handlers f tok s =
     (case claimNextJob (rs_now s) tok (leaseMs R) f (rs_table s) of
        (None, t) \<Rightarrow> (False, s\<lparr>rs_table := t\<rparr>)
      | (Some job, t) \<Rightarrow> (True, execute R handlers job tok (s\<lparr>rs_table := t\<rparr>)))"

text \<open>
  The serial drain: one iteration per element of \<open>toks\<close>, the random tokens of the successive
  claims, so \<open>maxIterations\<close> is the length of the list. With one worker no sibling is ever busy,
  so the loop returns at the first claim that finds nothing.
\<close>

fun drain :: "runner \<Rightarrow> (string \<Rightarrow> handler option) \<Rightarrow> string list \<Rightarrow> run_state \<Rightarrow> run_state" where
  "drain R handlers [] s = s"
| "drain R handlers (tok # toks) s =
     (if rs_stopping s then s
      else (let (ran, s') = runOne R handlers (claimableTypes R \<lparr>p_busy = 1, p_score = 0, p_serial = 0\<rparr>) tok s
            in if ran then drain R handlers toks s' else s'))"

definition stopClaiming :: "run_state \<Rightarrow> run_state" where
  "stopClaiming s = s\<lparr>rs_stopping := True\<rparr>"

definition abort_runner :: "run_state \<Rightarrow> run_state" where
  "abort_runner s = s\<lparr>rs_stopping := True, rs_aborted := True\<rparr>"

definition recoverStrandedJobs :: "run_state \<Rightarrow> nat \<times> run_state" where
  "recoverStrandedJobs s =
     (let (n, t) = reclaimExpiredLeases (rs_now s) (rs_table s) in (n, s\<lparr>rs_table := t\<rparr>))"


section \<open>The default tail\<close>

definition default_options :: runner_options where
  "default_options =
     \<lparr>opt_maxAttempts = None, opt_baseBackoffMs = None, opt_backoffScheduleMs = None, opt_leaseMs = None,
      opt_scoreConcurrency = None, opt_poisonExempt = (\<lambda>_. None), opt_retryBudget = (\<lambda>_. None),
      opt_onPoison = True\<rparr>"

lemma default_schedule:
  "buildDefaultBackoffSchedule = [1000, 10000, 100000] @ replicate 6 HOUR @ replicate 17 (4 * HOUR)"
  by (simp add: buildDefaultBackoffSchedule_def extend_schedule.simps HOUR_def THREE_DAYS_def
      numeral_eq_Suc)

text \<open>
  The default schedule tries a failing job 27 times; the waits between the tries add up to
  at least three days, the first 25 of them to less, and each wait is as long as the one before
  it or longer.
\<close>

theorem default_retry_tail:
  "maxAttempts (new_runner default_options) = 27 \<and>
   sum_list (map (backoffForAttempt (new_runner default_options)) [1..<27]) \<ge> THREE_DAYS \<and>
   sum_list (map (backoffForAttempt (new_runner default_options)) [1..<26]) < THREE_DAYS \<and>
   sorted (map (backoffForAttempt (new_runner default_options)) [1..<60])"
  by (simp add: new_runner_def default_options_def default_schedule backoffForAttempt_def HOUR_def
      THREE_DAYS_def upt_rec nth_append)

section \<open>Settling an execution\<close>

lemma owned_update:
  assumes "table_ok t" "row_token t i = Some tok" "r \<in> set (t_jobs t)" "j_id r = i"
  shows "f r \<in> set (t_jobs (snd (exec_update (owned_row i (Some tok)) f t)))"
proof -
  obtain r' where "r' \<in> set (t_jobs t)" "j_id r' = i" "j_worker_token r' = Some tok"
    using assms by (auto simp: row_token_Some)
  moreover from this have "r' = r" using assms by (auto simp: table_ok_def distinct_map inj_on_def)
  ultimately have "owned_row i (Some tok) r" by (simp add: owned_row_def)
  then show ?thesis using assms(3) by (auto simp: set_update_where)
qed

lemma owned_result:
  assumes "table_ok t" "row_token t i = Some tok"
  shows "fst (failJob i a n e p (Some tok) t)" "fst (parkJob i why (Some tok) rs t)"
  using assms by (auto simp: owner_results row_token_Some owned_row_def)

definition out_of_retries :: "runner \<Rightarrow> job_row \<Rightarrow> job_error \<Rightarrow> bool" where
  "out_of_retries R job err \<longleftrightarrow>
     j_attempts job + 1 \<ge>
       min (case retryBudget R err of Some b \<Rightarrow> b | None \<Rightarrow> maxAttempts R) (maxAttempts R)"

definition exempt_reason :: "runner \<Rightarrow> job_error \<Rightarrow> string option" where
  "exempt_reason R err = (case poisonExempt R err of Some (c # cs) \<Rightarrow> Some (c # cs) | _ \<Rightarrow> None)"

lemma on_poison_table [simp]: "rs_table (on_poison R b info s) = rs_table s"
  "rs_aborted (on_poison R b info s) = rs_aborted s" "rs_stopping (on_poison R b info s) = rs_stopping s"
  "rs_now (on_poison R b info s) = rs_now s"
  by (simp_all add: on_poison_def)

lemma failure_eq:
  "failure R job tok err s =
     (case (if out_of_retries R job err then exempt_reason R err else None) of
        Some why \<Rightarrow>
          on_poison R (fst (parkJob (j_id job) (why @ '': '' @ error_message err) (Some tok) True (rs_table s)))
            \<lparr>pi_type = j_type job, pi_payload = j_payload job, pi_attempts = j_attempts job + 1,
             pi_error = error_message err, pi_parked = Some why\<rparr>
            (s\<lparr>rs_table := snd (parkJob (j_id job) (why @ '': '' @ error_message err) (Some tok) True (rs_table s))\<rparr>)
      | None \<Rightarrow>
          (let f = failJob (j_id job) (j_attempts job + 1)
                     (rs_now s + backoffForAttempt R (j_attempts job + 1)) (error_message err)
                     (out_of_retries R job err) (Some tok) (rs_table s)
           in on_poison R (out_of_retries R job err \<and> fst f)
                \<lparr>pi_type = j_type job, pi_payload = j_payload job, pi_attempts = j_attempts job + 1,
                 pi_error = error_message err, pi_parked = None\<rparr> (s\<lparr>rs_table := snd f\<rparr>)))"
  unfolding failure_def out_of_retries_def [symmetric] exempt_reason_def Let_def case_prod_beta
  by (cases "out_of_retries R job err"; cases "poisonExempt R err"; cases "the (poisonExempt R err)") simp_all

text \<open>
  (C5) What a settled execution leaves in its own row, when the worker still holds it: done on
  success; released at once, no retry consumed, on a shutdown abort; parked, no retry consumed, on
  a \<open>ParkJobError\<close>; otherwise retried after the scheduled wait, or, when the retries are used up,
  poisoned, or parked with a fresh counter if the failure is exempt. The lease is gone in each case.
\<close>

theorem execute_settles:
  assumes "handlers (j_type job) = Some h" "j_reclaims job < MAX_LEASE_RECLAIMS"
    and "h (j_payload job) s = (s', out)" "table_ok (rs_table s')"
    and "row_token (rs_table s') (j_id job) = Some tok"
    and "r \<in> set (t_jobs (rs_table s'))" "j_id r = j_id job"
  shows "\<exists>r'\<in>set (t_jobs (rs_table (execute R handlers job tok s))).
     j_id r' = j_id job \<and> j_worker_token r' = None \<and> j_lease_until r' = None \<and>
     (case out of
        None \<Rightarrow> j_state r' = Done
      | Some err \<Rightarrow>
          if rs_aborted s' then j_state r' = Pending \<and> j_next_run_at r' = 0 \<and> j_attempts r' = j_attempts r
          else case err of
            ParkJobError why \<Rightarrow> j_state r' = Waiting \<and> j_last_error r' = Some why \<and> j_attempts r' = j_attempts r
          | OtherError _ msg \<Rightarrow>
              if \<not> out_of_retries R job err
              then j_state r' = Pending \<and> j_attempts r' = j_attempts job + 1 \<and>
                   j_next_run_at r' = rs_now s' + backoffForAttempt R (j_attempts job + 1)
              else (case exempt_reason R err of
                      None \<Rightarrow> j_state r' = Poison \<and> j_last_error r' = Some msg
                    | Some why \<Rightarrow> j_state r' = Waiting \<and> j_attempts r' = 0))"
proof -
  note upd = owned_update [OF assms(4-7)]
  have ex: "execute R handlers job tok s = settle R job tok (s', out)"
    using assms by (simp add: execute_def)
  show ?thesis
  proof (cases out)
    case None
    have "unleased (r\<lparr>j_state := Done\<rparr>) \<in> set (t_jobs (rs_table (execute R handlers job tok s)))"
      using upd by (simp add: ex settle_def None owner_ops del: exec_update_simps)
    then show ?thesis by (rule rev_bexI) (use assms(7) None in simp)
  next
    case Err: (Some err)
    show ?thesis
    proof (cases "rs_aborted s'")
      case True
      have "unleased (r\<lparr>j_state := Pending, j_next_run_at := 0\<rparr>)
          \<in> set (t_jobs (rs_table (execute R handlers job tok s)))"
        using upd by (simp add: ex settle_def Err True owner_ops del: exec_update_simps)
      then show ?thesis by (rule rev_bexI) (use assms(7) Err True in simp)
    next
      case False
      show ?thesis
      proof (cases err)
        case (ParkJobError why)
        have "unleased (r\<lparr>j_state := Waiting, j_last_error := Some why,
             j_attempts := (if False then 0 else j_attempts r)\<rparr>)
          \<in> set (t_jobs (rs_table (execute R handlers job tok s)))"
          using upd by (simp only: ex settle_def Err False ParkJobError owner_ops) (simp del: exec_update_simps add: owner_ops False)
        then show ?thesis by (rule rev_bexI) (use assms(7) Err False ParkJobError in simp)
      next
        case (OtherError k msg)
        have st: "execute R handlers job tok s = failure R job tok err s'"
          using False Err OtherError by (simp add: ex settle_def)
        show ?thesis
        proof (cases "if out_of_retries R job err then exempt_reason R err else None")
          case None
          let ?F = "\<lambda>r. unleased (r\<lparr>j_state := (if out_of_retries R job err then Poison else Pending),
               j_attempts := j_attempts job + 1,
               j_next_run_at := rs_now s' + backoffForAttempt R (j_attempts job + 1),
               j_last_error := Some (error_message err)\<rparr>)"
          have "rs_table (execute R handlers job tok s) =
              snd (exec_update (owned_row (j_id job) (Some tok)) ?F (rs_table s'))"
            by (simp only: st failure_eq None option.case Let_def on_poison_table owner_ops) simp
          then have "?F r \<in> set (t_jobs (rs_table (execute R handlers job tok s)))"
            using upd by (simp only:)
          then show ?thesis
            by (rule rev_bexI) (use assms(7) Err False OtherError None in \<open>auto split: if_splits\<close>)
        next
          case (Some why)
          have "unleased (r\<lparr>j_state := Waiting, j_last_error := Some (why @ '': '' @ error_message err),
               j_attempts := (if True then 0 else j_attempts r)\<rparr>)
            \<in> set (t_jobs (rs_table (execute R handlers job tok s)))"
            using upd by (simp only: st failure_eq Some option.case) (simp add: owner_ops del: exec_update_simps)
          then show ?thesis
            by (rule rev_bexI) (use assms(7) Err False OtherError Some in \<open>auto split: if_splits\<close>)
        qed
      qed
    qed
  qed
qed


text \<open>
  A worker whose lease was taken over while its handler ran discards whatever it got: the
  table is left exactly as found, and nobody is notified.
\<close>

theorem execute_stale_discards:
  assumes "handlers (j_type job) = Some h" "j_reclaims job < MAX_LEASE_RECLAIMS"
    and "h (j_payload job) s = (s', out)" "table_ok (rs_table s')"
    and "row_token (rs_table s') (j_id job) \<noteq> Some tok" "tok \<noteq> []"
  shows "execute R handlers job tok s = s'"
proof -
  note st = stale_token_noop [OF assms(4-6), unfolded run_op.simps]
  have ex: "execute R handlers job tok s = settle R job tok (s', out)"
    using assms by (simp add: execute_def)
  show ?thesis
  proof (cases out)
    case None
    then show ?thesis by (simp add: ex settle_def st)
  next
    case (Some err)
    have "failure R job tok err s' = s'"
      by (cases "if out_of_retries R job err then exempt_reason R err else None")
        (simp_all only: failure_eq option.case Let_def, simp_all add: st on_poison_def)
    then show ?thesis using Some
      by (cases err) (simp_all add: ex settle_def st)
  qed
qed

text \<open>
  A job whose worker died under it three times is poisoned without running its handler
  again, and the organizer hears of it exactly when the row was still the worker's.
\<close>

theorem crash_loop_poisons:
  assumes "handlers (j_type job) = Some h" "MAX_LEASE_RECLAIMS \<le> j_reclaims job"
    and "table_ok (rs_table s)" "row_token (rs_table s) (j_id job) = Some tok"
    and "r \<in> set (t_jobs (rs_table s))" "j_id r = j_id job"
  shows "(\<exists>r'\<in>set (t_jobs (rs_table (execute R handlers job tok s))).
            j_id r' = j_id job \<and> j_state r' = Poison \<and> j_worker_token r' = None) \<and>
         length (rs_notices (execute R handlers job tok s)) =
            length (rs_notices s) + (if notifies R then 1 else 0) \<and>
         (\<forall>h'. execute R (\<lambda>_. Some h') job tok s = execute R handlers job tok s)"
proof -
  let ?F = "\<lambda>r. unleased (r\<lparr>j_state := (if True then Poison else Pending), j_attempts := j_attempts job + 1,
         j_next_run_at := rs_now s, j_last_error := Some (crash_message (j_reclaims job))\<rparr>)"
  have "rs_table (execute R handlers job tok s) =
      snd (exec_update (owned_row (j_id job) (Some tok)) ?F (rs_table s))"
    using assms(1,2) by (simp only: execute_def option.case if_True Let_def case_prod_beta on_poison_table owner_ops) simp
  then have "?F r \<in> set (t_jobs (rs_table (execute R handlers job tok s)))"
    using owned_update [OF assms(3-6)] by (simp only:)
  then have "\<exists>r'\<in>set (t_jobs (rs_table (execute R handlers job tok s))).
            j_id r' = j_id job \<and> j_state r' = Poison \<and> j_worker_token r' = None"
    by (rule rev_bexI) (use assms(6) in simp)
  moreover have "length (rs_notices (execute R handlers job tok s)) =
            length (rs_notices s) + (if notifies R then 1 else 0)"
    using assms(1,2) owned_result(1) [OF assms(3,4)]
    by (simp add: execute_def Let_def case_prod_beta on_poison_def)
  ultimately show ?thesis using assms(1,2) by (simp add: execute_def)
qed

section \<open>The drain\<close>

text \<open>A job that can still run has tries left; every write of the runner keeps it so.\<close>

definition retry_ok :: "runner \<Rightarrow> job_table \<Rightarrow> bool" where
  "retry_ok R t \<longleftrightarrow>
     (\<forall>r\<in>set (t_jobs t). j_state r \<in> {Pending, Running, Waiting} \<longrightarrow> j_attempts r < maxAttempts R)"

definition queue_ok :: "runner \<Rightarrow> job_table \<Rightarrow> bool" where
  "queue_ok R t \<longleftrightarrow> table_ok t \<and> retry_ok R t"

definition handlers_ok :: "runner \<Rightarrow> (string \<Rightarrow> handler option) \<Rightarrow> bool" where
  "handlers_ok R handlers \<longleftrightarrow>
     (\<forall>ty h p s. handlers ty = Some h \<longrightarrow> queue_ok R (rs_table s) \<longrightarrow> queue_ok R (rs_table (fst (h p s))))"

lemma retry_ok_update:
  assumes "retry_ok R t"
    and "\<And>r. r \<in> set (t_jobs t) \<Longrightarrow> P r \<Longrightarrow>
      j_state (f r) \<in> {Pending, Running, Waiting} \<Longrightarrow> retry_ok R t \<Longrightarrow> j_attempts (f r) < maxAttempts R"
  shows "retry_ok R (snd (exec_update P f t))"
  using assms by (auto simp: retry_ok_def set_update_where)

lemma queue_ok_worker_ops:
  assumes "queue_ok R t" "0 < maxAttempts R"
  shows "a < maxAttempts R \<or> p \<Longrightarrow> queue_ok R (snd (failJob i a n e p tok t))"
    and "table_ok t \<Longrightarrow> (\<And>r. r \<in> set (t_jobs t) \<Longrightarrow> owned_row i tok r \<Longrightarrow> j_state r = Running) \<Longrightarrow>
           queue_ok R (snd (parkJob i why tok rs t))"
    and "queue_ok R (snd (completeJob i tok t))"
    and "(\<And>r. r \<in> set (t_jobs t) \<Longrightarrow> owned_row i tok r \<Longrightarrow> j_state r = Running) \<Longrightarrow>
           queue_ok R (snd (releaseJob i tok t))"
  using assms table_ok_run_op [of t "Fail i a n e p tok"] table_ok_run_op [of t "Park i why tok rs"]
    table_ok_run_op [of t "Complete i tok"] table_ok_run_op [of t "Release i tok"]
  unfolding queue_ok_def run_op.simps owner_ops
  by (auto intro!: retry_ok_update) (auto simp: retry_ok_def)

lemma queue_ok_claim:
  assumes "queue_ok R t"
  shows "queue_ok R (snd (claimNextJob now tok l f t))"
    and "claimNextJob now tok l f t = (Some job, t') \<Longrightarrow> j_attempts job < maxAttempts R"
proof -
  have ok: "table_ok t" "retry_ok R t" using assms by (simp_all add: queue_ok_def)
  have live: "j_attempts row < maxAttempts R"
    if "first_runnable now f (t_jobs t) = Some row" for row
    using first_runnable_Some [OF that] ok(2) by (auto simp: retry_ok_def runnable_def)
  have "retry_ok R (snd (exec_update (\<lambda>r. j_id r = j_id row) (claimed now tok l) t))"
    if "first_runnable now f (t_jobs t) = Some row" for row
  proof (rule retry_ok_update [OF ok(2)])
    fix r assume r: "r \<in> set (t_jobs t)" "j_id r = j_id row"
    have "r = row" using first_runnable_Some(1) [OF that] r ok(1)
      by (auto simp: table_ok_def distinct_map inj_on_def)
    then show "j_attempts (claimed now tok l r) < maxAttempts R" using live [OF that] by simp
  qed
  then have "retry_ok R (snd (claimNextJob now tok l f t))"
    using ok(2) by (auto simp: claim_cases [OF ok(1)] split: option.split)
  then show "queue_ok R (snd (claimNextJob now tok l f t))"
    using table_ok_claim [OF ok(1)] by (simp add: queue_ok_def)
  show "claimNextJob now tok l f t = (Some job, t') \<Longrightarrow> j_attempts job < maxAttempts R"
    using live by (auto simp: claim_cases [OF ok(1)] split: option.splits if_splits)
qed

lemma owned_running:
  assumes "table_ok t" "tok \<noteq> []" "r \<in> set (t_jobs t)" "owned_row i (Some tok) r"
  shows "j_state r = Running"
  using assms by (auto simp: table_ok_def row_ok_def owned_row_def)

lemma execute_queue_ok:
  assumes "queue_ok R (rs_table s)" "handlers_ok R handlers" "0 < maxAttempts R" "tok \<noteq> []"
    and "j_attempts job < maxAttempts R"
  shows "queue_ok R (rs_table (execute R handlers job tok s))"
proof (cases "handlers (j_type job)")
  case None
  then show ?thesis using assms by (simp add: execute_def queue_ok_worker_ops)
next
  case (Some h)
  show ?thesis
  proof (cases "j_reclaims job \<ge> MAX_LEASE_RECLAIMS")
    case True
    then show ?thesis using assms Some
      by (simp add: execute_def Let_def case_prod_beta queue_ok_worker_ops)
  next
    case False
    obtain s' out where h: "h (j_payload job) s = (s', out)" by force
    have q: "queue_ok R (rs_table s')" using assms(1,2) Some h by (metis fst_conv handlers_ok_def)
    then have t: "table_ok (rs_table s')" by (simp add: queue_ok_def)
    note ops = queue_ok_worker_ops [OF q assms(3)] owned_running [OF t assms(4)]
    have "j_attempts job + 1 < maxAttempts R \<or> out_of_retries R job err" for err
      by (auto simp: out_of_retries_def)
    then have "queue_ok R (rs_table (failure R job tok err s'))" for err
      by (cases "if out_of_retries R job err then exempt_reason R err else None")
        (simp_all only: failure_eq option.case Let_def on_poison_table run_state.simps, auto intro!: ops t)
    then show ?thesis using False Some h
      by (auto simp: execute_def settle_def intro!: ops t split: option.split job_error.split)
  qed
qed

text \<open>
  (C28) However long the drain runs and whatever its handlers throw, every row that can still run
  has fewer failed tries than the limit, as long as the handlers themselves keep the queue that
  way; so no job is retried past \<open>maxAttempts\<close>.
\<close>

theorem drain_bounds_retries:
  assumes "queue_ok R (rs_table s)" "handlers_ok R handlers" "0 < maxAttempts R" "[] \<notin> set toks"
  shows "queue_ok R (rs_table (drain R handlers toks s))"
  using assms
proof (induction toks arbitrary: s)
  case Nil
  then show ?case by simp
next
  case (Cons tok toks)
  let ?f = "claimableTypes R \<lparr>p_busy = 1, p_score = 0, p_serial = 0\<rparr>"
  obtain res t' where c: "claimNextJob (rs_now s) tok (leaseMs R) ?f (rs_table s) = (res, t')" by force
  have t': "queue_ok R t'" using queue_ok_claim(1) [OF Cons.prems(1)] c by (metis snd_conv)
  show ?case
  proof (cases res)
    case None
    then show ?thesis using Cons.prems(1) t' c by (simp add: runOne_def)
  next
    case (Some job)
    then have "j_attempts job < maxAttempts R" using queue_ok_claim(2) [OF Cons.prems(1)] c by blast
    then have "queue_ok R (rs_table (execute R handlers job tok (s\<lparr>rs_table := t'\<rparr>)))"
      using t' Cons.prems by (intro execute_queue_ok) auto
    then show ?thesis using Cons.prems Some c by (simp add: runOne_def Cons.IH)
  qed
qed


section \<open>The pool\<close>

text \<open>
  The interleavings of a drain's workers: a worker claims what the lanes leave it and enters the
  lane (one synchronous step of \<open>runOne\<close>), an execution settles and its worker leaves the lane,
  and in between the table may change in any way.
\<close>

record pool_run =
  pr_pool :: pool_state
  pr_table :: job_table
  pr_running :: "job_row list"

inductive pool_step :: "runner \<Rightarrow> pool_run \<Rightarrow> pool_run \<Rightarrow> bool" for R where
  Start: "claimNextJob now tok (leaseMs R) (claimableTypes R (pr_pool c)) (pr_table c) = (Some job, t') \<Longrightarrow>
     pool_step R c \<lparr>pr_pool = lane_enter (laneOf (j_type job)) (pr_pool c), pr_table = t',
                    pr_running = job # pr_running c\<rparr>"
| Settle: "job \<in> set (pr_running c) \<Longrightarrow>
     pool_step R c \<lparr>pr_pool = lane_leave (laneOf (j_type job)) (pr_pool c), pr_table = t',
                    pr_running = remove1 job (pr_running c)\<rparr>"
| Elsewhere: "pool_step R c (c\<lparr>pr_table := t'\<rparr>)"

definition in_lane :: "lane \<Rightarrow> job_row list \<Rightarrow> nat" where
  "in_lane ln jobs = length (filter (\<lambda>j. laneOf (j_type j) = ln) jobs)"

definition pool_ok :: "runner \<Rightarrow> pool_run \<Rightarrow> bool" where
  "pool_ok R c \<longleftrightarrow>
     p_score (pr_pool c) = in_lane Score (pr_running c) \<and>
     p_serial (pr_pool c) = in_lane Serial (pr_running c) \<and>
     in_lane Serial (pr_running c) \<le> 1 \<and> in_lane Score (pr_running c) \<le> scoreConcurrency R"

lemma in_lane_simps [simp]:
  "in_lane ln [] = 0"
  "in_lane ln (j # js) = (if laneOf (j_type j) = ln then Suc (in_lane ln js) else in_lane ln js)"
  by (simp_all add: in_lane_def)

lemma in_lane_remove1:
  "j \<in> set js \<Longrightarrow>
   in_lane ln (remove1 j js) = (if laneOf (j_type j) = ln then in_lane ln js - 1 else in_lane ln js)"
  unfolding in_lane_def
  by (simp add: filter_remove1 length_remove1)

lemma claim_type_allowed:
  "claimNextJob now tok l f t = (Some job, t') \<Longrightarrow> onlyTypes f \<noteq> Some [] \<and> type_allowed f (j_type job)"
  using first_runnable_Some(3) [of now f "t_jobs t"]
  by (auto simp: claimNextJob_def split: if_splits option.splits)

lemma claimable_lane:
  assumes "onlyTypes (claimableTypes R p) \<noteq> Some []" "type_allowed (claimableTypes R p) ty"
  shows "laneOf ty = Score \<longrightarrow> p_score p < scoreConcurrency R"
    and "laneOf ty = Serial \<longrightarrow> p_serial p = 0"
  using assms
  by (auto simp: claimableTypes_def Let_def type_allowed_def laneOf_def SCORE_LANE_def no_filter_def
      split: if_splits)

lemma pool_step_ok:
  assumes "pool_step R c c'" "pool_ok R c"
  shows "pool_ok R c'"
  using assms
proof (induction rule: pool_step.induct)
  case (Start now tok c job t')
  then show ?case
    using claimable_lane [of R "pr_pool c" "j_type job"] claim_type_allowed [OF Start.hyps]
    by (cases "laneOf (j_type job)") (auto simp: pool_ok_def)
next
  case (Settle job c t')
  then show ?case
    by (cases "laneOf (j_type job)") (auto simp: pool_ok_def in_lane_remove1)
next
  case (Elsewhere c t')
  then show ?case by (simp add: pool_ok_def)
qed

text \<open>
  (C27) Whatever the interleaving of the pool's workers, at most one job outside the scoring lane
  is in flight, and at most \<open>scoreConcurrency\<close> scoring jobs are.
\<close>

theorem lanes_bound_concurrency:
  assumes "(pool_step R)\<^sup>*\<^sup>*
      \<lparr>pr_pool = \<lparr>p_busy = b, p_score = 0, p_serial = 0\<rparr>, pr_table = t, pr_running = []\<rparr> c"
  shows "length (filter (\<lambda>j. j_type j \<notin> set SCORE_LANE) (pr_running c)) \<le> 1 \<and>
         length (filter (\<lambda>j. j_type j \<in> set SCORE_LANE) (pr_running c)) \<le> scoreConcurrency R"
proof -
  have "pool_ok R c"
    using assms
  proof (induction rule: rtranclp_induct)
    case base
    then show ?case by (simp add: pool_ok_def)
  next
    case (step d e)
    then show ?case using pool_step_ok by blast
  qed
  moreover have "length (filter (\<lambda>j. j_type j \<notin> set SCORE_LANE) xs) = in_lane Serial xs"
    "length (filter (\<lambda>j. j_type j \<in> set SCORE_LANE) xs) = in_lane Score xs" for xs
    by (simp_all add: laneOf_def in_lane_def)
  ultimately show ?thesis by (simp add: pool_ok_def)
qed

section \<open>At a concrete run\<close>

definition failing_handler :: handler where
  "failing_handler p s = (s, Some (OtherError ''Error'' ''boom''))"

definition sample_handlers :: "string \<Rightarrow> handler option" where
  "sample_handlers ty = (if ty = ''publish_matches'' then Some failing_handler else None)"

definition sample_run :: run_state where
  "sample_run = \<lparr>rs_table = run_op (ClaimNext 5 ''w'' 10 no_filter) sample_table, rs_now = 5,
                 rs_stopping = False, rs_aborted = False, rs_notices = []\<rparr>"

definition sample_job :: job_row where
  "sample_job = claimed 5 ''w'' 10 (new_row 2 ''publish_matches'' ''b'' score_payload 0)"

lemma sample_run_table:
  "rs_table sample_run =
     \<lparr>t_jobs = [new_row 1 ''score_reverse_batch'' ''a'' score_payload 0, sample_job,
                (new_row 3 ''score_batch'' ''c'' score_payload 0)\<lparr>j_state := Done\<rparr>], t_next_id = 4\<rparr>"
  by (simp add: sample_run_def sample_job_def claimNextJob_def first_runnable_def no_filter_def
      sample_table_def new_row_def runnable_def type_allowed_def schedule_le_def jobPriority_def
      JOB_PRIORITY_def claimed_def)

lemma sample_run_ok: "table_ok (rs_table sample_run)" "row_token (rs_table sample_run) 2 = Some ''w''"
    "sample_job \<in> set (t_jobs (rs_table sample_run))"
  by (simp_all add: sample_run_table)
    (simp_all add: table_ok_def new_row_def row_ok_def sample_job_def claimed_def row_token_def)

lemma sample_job_simps [simp]:
  "j_id sample_job = 2" "j_type sample_job = ''publish_matches''" "j_reclaims sample_job = 0"
  "j_attempts sample_job = 0"
  by (simp_all add: sample_job_def new_row_def claimed_def)

lemma execute_settles_witness:
  "\<exists>r'. r' \<in> set (t_jobs (rs_table
     (execute (new_runner default_options) sample_handlers sample_job ''w'' sample_run))) \<and>
     j_state r' = Pending \<and> j_attempts r' = 1"
  using execute_settles [of sample_handlers sample_job failing_handler sample_run sample_run
      "Some (OtherError ''Error'' ''boom'')" "''w''" sample_job "new_runner default_options"] sample_run_ok
  by (auto simp: sample_handlers_def failing_handler_def MAX_LEASE_RECLAIMS_def sample_run_def
      out_of_retries_def new_runner_def default_options_def default_schedule)

lemma execute_stale_discards_witness:
  "execute (new_runner default_options) sample_handlers sample_job ''late'' sample_run = sample_run"
  by (rule execute_stale_discards [of _ _ failing_handler _ _ "Some (OtherError ''Error'' ''boom'')"])
    (simp_all add: sample_handlers_def failing_handler_def MAX_LEASE_RECLAIMS_def sample_run_ok)

lemma crash_loop_poisons_witness:
  "length (rs_notices (execute (new_runner default_options) sample_handlers
     (sample_job\<lparr>j_reclaims := 3\<rparr>) ''w'' sample_run)) = 1"
  using crash_loop_poisons [of sample_handlers "sample_job\<lparr>j_reclaims := 3\<rparr>" failing_handler sample_run
      "''w''" sample_job "new_runner default_options"] sample_run_ok
  by (simp add: sample_handlers_def MAX_LEASE_RECLAIMS_def new_runner_def default_options_def sample_run_def)

lemma drain_bounds_retries_witness:
  "retry_ok (new_runner default_options)
     (rs_table (drain (new_runner default_options) sample_handlers [''x'', ''y''] sample_run))"
proof -
  have m: "maxAttempts (new_runner default_options) = 27"
    by (simp add: new_runner_def default_options_def default_schedule)
  have "queue_ok (new_runner default_options) (rs_table sample_run)"
    using sample_run_ok(1)
    by (simp add: queue_ok_def) (simp add: retry_ok_def m sample_run_table new_row_def)
  moreover have "handlers_ok (new_runner default_options) sample_handlers"
    by (auto simp: handlers_ok_def sample_handlers_def failing_handler_def)
  ultimately have "queue_ok (new_runner default_options)
     (rs_table (drain (new_runner default_options) sample_handlers [''x'', ''y''] sample_run))"
    by (intro drain_bounds_retries) (simp_all add: m)
  then show ?thesis by (simp add: queue_ok_def)
qed

definition sample_pool_start :: pool_run where
  "sample_pool_start =
     \<lparr>pr_pool = \<lparr>p_busy = 1, p_score = 0, p_serial = 0\<rparr>, pr_table = sample_table, pr_running = []\<rparr>"

lemma sample_pool_step:
  "pool_step (new_runner (default_options\<lparr>opt_leaseMs := Some 10\<rparr>)) sample_pool_start
     \<lparr>pr_pool = lane_enter (laneOf (j_type sample_job)) (pr_pool sample_pool_start),
      pr_table = snd (claimNextJob 5 ''w'' 10 no_filter sample_table),
      pr_running = sample_job # pr_running sample_pool_start\<rparr>"
proof (rule pool_step.Start [of 5 "''w''"])
  show "claimNextJob 5 ''w'' (leaseMs (new_runner (default_options\<lparr>opt_leaseMs := Some 10\<rparr>)))
     (claimableTypes (new_runner (default_options\<lparr>opt_leaseMs := Some 10\<rparr>)) (pr_pool sample_pool_start))
     (pr_table sample_pool_start) = (Some sample_job, snd (claimNextJob 5 ''w'' 10 no_filter sample_table))"
    using sample_claim
    by (simp add: prod_eq_iff sample_job_def new_runner_def default_options_def sample_pool_start_def
        claimableTypes_def)
qed

lemma lanes_bound_concurrency_witness:
  "length (filter (\<lambda>j. j_type j \<notin> set SCORE_LANE) [sample_job]) \<le> 1"
  using lanes_bound_concurrency [of "new_runner (default_options\<lparr>opt_leaseMs := Some 10\<rparr>)" 1 sample_table,
      OF r_into_rtranclp [of "pool_step _", OF sample_pool_step [unfolded sample_pool_start_def]]]
  unfolding pool_run.simps ..

end
