(* ===== verification/Roster.thy ===== *)
theory Roster
  imports Coordinate Js_Number
begin

text \<open>
  Roster pagination (\<open>packages/protocol/src/roster.ts\<close>). A roster is one NIP-44 payload while it
  fits; past that it is split into pages at derived addresses and merged back by readers. Sizes
  are the byte counts of the JSON the code measures, with the fields in wire order. \<open>sha_hex\<close>
  stands for \<open>bytesToHex(sha256(utf8ToBytes(.)))\<close> of the hash package.
\<close>

section \<open>The payload\<close>

definition PROTOCOL_VERSION :: nat where "PROTOCOL_VERSION = 2"
definition ROSTER_PAGED_VERSION :: nat where "ROSTER_PAGED_VERSION = 3"
definition MAX_ROSTER :: nat where "MAX_ROSTER = 2000"
definition MAX_ROSTER_PAGES :: nat where "MAX_ROSTER_PAGES = 40"
definition NIP44_MAX_PLAINTEXT_BYTES :: nat where "NIP44_MAX_PLAINTEXT_BYTES = 65535"
definition ROSTER_PAGE_TARGET_BYTES :: nat where "ROSTER_PAGE_TARGET_BYTES = 60000"

record roster_chat_key =
  ck_pubkey :: pubkey
  ck_label :: "string option"
  ck_added_at :: int
  ck_external :: bool

record roster_attendee =
  at_pubkey :: pubkey
  at_d :: string
  at_role :: string
  at_chat_keys :: "roster_chat_key list option"

record roster_content =
  rc_v :: nat
  rc_eck_current :: nat
  rc_nostr_group_id :: "string option"
  rc_pages :: "nat option"
  rc_attendees :: "roster_attendee list"

definition opt_field :: "string \<Rightarrow> ('a \<Rightarrow> json) \<Rightarrow> 'a option \<Rightarrow> (string \<times> json) list" where
  "opt_field k f x = (case x of None \<Rightarrow> [] | Some v \<Rightarrow> [(k, f v)])"

definition chat_key_json :: "roster_chat_key \<Rightarrow> json" where
  "chat_key_json k = JObj ([(''pubkey'', JStr (ck_pubkey k))] @ opt_field ''label'' JStr (ck_label k) @
     [(''added_at'', JInt (ck_added_at k))] @ (if ck_external k then [(''external'', JBool True)] else []))"

definition attendee_json :: "roster_attendee \<Rightarrow> json" where
  "attendee_json a = JObj ([(''pubkey'', JStr (at_pubkey a)), (''d'', JStr (at_d a)), (''role'', JStr (at_role a))] @
     opt_field ''chat_keys'' (\<lambda>ks. JArr (map chat_key_json ks)) (at_chat_keys a))"

definition roster_json :: "roster_content \<Rightarrow> json" where
  "roster_json r = JObj ([(''v'', JInt (int (rc_v r))), (''eck_current'', JInt (int (rc_eck_current r)))] @
     opt_field ''nostr_group_id'' JStr (rc_nostr_group_id r) @
     opt_field ''pages'' (\<lambda>n. JInt (int n)) (rc_pages r) @
     [(''attendees'', JArr (map attendee_json (rc_attendees r)))])"

section \<open>Addresses\<close>

datatype roster_error =
    PageIndex js_number
  | TooManyMembers nat
  | TooManyPages nat
  | PageTooBig nat nat
  | EmptyPageSet

definition SPACE_RECORDS_D_TAG :: string where
  "SPACE_RECORDS_D_TAG = ''nostrautica-space-records-v2''"

definition space_records_message :: "string \<Rightarrow> string" where
  "space_records_message coordinate = stringify (JArr [JStr SPACE_RECORDS_D_TAG, JStr coordinate])"

definition spaceRecordsD :: "(string \<Rightarrow> string) \<Rightarrow> string \<Rightarrow> string" where
  "spaceRecordsD sha_hex coordinate = sha_hex (space_records_message coordinate)"

definition legacyRosterD :: "string \<Rightarrow> coord_error + string" where
  "legacyRosterD coordinate =
     (case parseCoordinate coordinate of Inl e \<Rightarrow> Inl e | Inr c \<Rightarrow> Inr (co_identifier c))"

definition rosterPage0Ds :: "(string \<Rightarrow> string) \<Rightarrow> string \<Rightarrow> coord_error + string list" where
  "rosterPage0Ds sha_hex coordinate =
     (let derived = spaceRecordsD sha_hex coordinate
      in case legacyRosterD coordinate of
           Inl e \<Rightarrow> Inl e
         | Inr legacy \<Rightarrow> Inr (if derived = legacy then [derived] else [derived, legacy]))"

text \<open>The regular expression \<open>/^[0-9a-f]{64}(:|$)/\<close>.\<close>

definition legacyRosterDCollidesWithDerived :: "string \<Rightarrow> bool" where
  "legacyRosterDCollidesWithDerived identifier \<longleftrightarrow>
     hex32 (take 64 identifier) \<and> (drop 64 identifier = [] \<or> hd (drop 64 identifier) = CHR '':'')"

definition isRosterPageFor :: "string \<Rightarrow> string list \<Rightarrow> tag list option \<Rightarrow> bool" where
  "isRosterPageFor coordinate ds tags =
     (case tags of
        None \<Rightarrow> False
      | Some ts \<Rightarrow>
          (case tag_value ''d'' ts of
             None \<Rightarrow> False
           | Some d \<Rightarrow> d \<in> set ds \<and>
               (case tag_value ''a'' ts of None \<Rightarrow> True | Some a \<Rightarrow> a = coordinate)))"

definition page_d :: "string \<Rightarrow> nat \<Rightarrow> string" where
  "page_d base page = (if page = 0 then base else base @ '':'' @ show_nat page)"

definition rosterPageD :: "string \<Rightarrow> js_number \<Rightarrow> roster_error + string" where
  "rosterPageD base page =
     (case as_integer page of
        None \<Rightarrow> Inl (PageIndex page)
      | Some i \<Rightarrow> if i < 0 then Inl (PageIndex page) else Inr (page_d base (nat i)))"

definition rosterPageDs :: "string \<Rightarrow> js_number \<Rightarrow> string list" where
  "rosterPageDs base pages =
     (let n = (case pages of Num q \<Rightarrow> min (int MAX_ROSTER_PAGES) (max 1 \<lfloor>q\<rfloor>) | _ \<Rightarrow> 1)
      in map (page_d base) [0..<nat n])"

definition rosterContinuationDs :: "string \<Rightarrow> js_number \<Rightarrow> string list" where
  "rosterContinuationDs base pages = drop 1 (rosterPageDs base pages)"

definition rosterPageCountOf :: "roster_content \<Rightarrow> nat" where
  "rosterPageCountOf page0 = (case rc_pages page0 of Some n \<Rightarrow> n | None \<Rightarrow> 1)"

section \<open>Splitting\<close>

definition payloadBytes :: "roster_content \<Rightarrow> nat" where
  "payloadBytes r = json_bytes (roster_json r)"

definition rosterFitsOnePage :: "roster_content \<Rightarrow> bool" where
  "rosterFitsOnePage r \<longleftrightarrow> payloadBytes r \<le> NIP44_MAX_PLAINTEXT_BYTES"

text \<open>\<open>roster.nostr_group_id ? { nostr_group_id } : {}\<close> drops an empty one too.\<close>

definition truthy_id :: "string option \<Rightarrow> string option" where
  "truthy_id x = (if x = Some [] then None else x)"

definition buildPage :: "roster_content \<Rightarrow> nat \<Rightarrow> nat \<Rightarrow> roster_attendee list \<Rightarrow> roster_content" where
  "buildPage r index pages attendees =
     (if index > 0
      then \<lparr>rc_v = ROSTER_PAGED_VERSION, rc_eck_current = rc_eck_current r, rc_nostr_group_id = None,
            rc_pages = None, rc_attendees = attendees\<rparr>
      else \<lparr>rc_v = ROSTER_PAGED_VERSION, rc_eck_current = rc_eck_current r,
            rc_nostr_group_id = truthy_id (rc_nostr_group_id r), rc_pages = Some pages,
            rc_attendees = attendees\<rparr>)"

definition entry_bytes :: "roster_attendee \<Rightarrow> nat" where
  "entry_bytes a = json_bytes (attendee_json a) + 1"

definition page_overhead :: "roster_content \<Rightarrow> nat \<Rightarrow> nat" where
  "page_overhead r index = payloadBytes (buildPage r index MAX_ROSTER_PAGES [])"

fun pack_loop ::
  "roster_content \<Rightarrow> roster_attendee list list \<Rightarrow> roster_attendee list \<Rightarrow> nat \<Rightarrow> roster_attendee list
   \<Rightarrow> roster_attendee list list" where
  "pack_loop r groups current overhead [] = groups @ [current]"
| "pack_loop r groups current overhead (a # as) =
     (if current \<noteq> [] \<and> overhead + entry_bytes a > ROSTER_PAGE_TARGET_BYTES
      then pack_loop r (groups @ [current]) [a]
             (page_overhead r (length groups + 1) + entry_bytes a) as
      else pack_loop r groups (current @ [a]) (overhead + entry_bytes a) as)"

definition packPages :: "roster_content \<Rightarrow> roster_attendee list list" where
  "packPages r = pack_loop r [] [] (page_overhead r 0) (rc_attendees r)"

definition rosterPageCount :: "roster_content \<Rightarrow> nat" where
  "rosterPageCount r = (if rosterFitsOnePage r then 1 else length (packPages r))"

definition oversized_page :: "roster_content list \<Rightarrow> (nat \<times> roster_content) option" where
  "oversized_page pages =
     List.find (\<lambda>(_, p). payloadBytes p > NIP44_MAX_PLAINTEXT_BYTES) (zip [0..<length pages] pages)"

definition splitRoster :: "roster_content \<Rightarrow> roster_error + roster_content list" where
  "splitRoster r =
     (if rosterFitsOnePage r then Inr [r]
      else if length (rc_attendees r) > MAX_ROSTER then Inl (TooManyMembers (length (rc_attendees r)))
      else let groups = packPages r
           in if length groups > MAX_ROSTER_PAGES then Inl (TooManyPages (length groups))
              else let pages = map (\<lambda>(i, as). buildPage r i (length groups) as)
                                 (zip [0..<length groups] groups)
                   in case oversized_page pages of
                        Some (i, p) \<Rightarrow> Inl (PageTooBig i (payloadBytes p))
                      | None \<Rightarrow> Inr pages)"

section \<open>Merging\<close>

text \<open>
  The \<open>break\<close> leaves the inner loop only, and each further page breaks at its first entry, so
  the loop over the entries of all pages in order is the same.
\<close>

fun merge_loop :: "roster_attendee list \<Rightarrow> roster_attendee list \<Rightarrow> roster_attendee list" where
  "merge_loop acc [] = acc"
| "merge_loop acc (a # as) =
     (if length acc \<ge> MAX_ROSTER then acc
      else if at_pubkey a \<in> at_pubkey ` set acc then merge_loop acc as
      else merge_loop (acc @ [a]) as)"

definition mergeRosterPages :: "roster_content list \<Rightarrow> roster_error + roster_content" where
  "mergeRosterPages pages =
     (case pages of
        [] \<Rightarrow> Inl EmptyPageSet
      | page0 # _ \<Rightarrow>
          Inr \<lparr>rc_v = PROTOCOL_VERSION, rc_eck_current = rc_eck_current page0,
               rc_nostr_group_id = truthy_id (rc_nostr_group_id page0), rc_pages = None,
               rc_attendees = merge_loop [] (concat (map rc_attendees pages))\<rparr>)"


section \<open>Sizes\<close>

lemma js_join_snoc:
  "js_join sep (xs @ [y]) = (if xs = [] then y else js_join sep xs @ sep @ y)"
  by (induction sep xs rule: js_join.induct) auto

lemma json_bytes_last_array:
  "json_bytes (JObj (fs @ [(k, JArr xs)])) =
     json_bytes (JObj (fs @ [(k, JArr [])])) + length (js_join '','' (map stringify xs))"
  by (simp add: json_bytes_def js_join_snoc)

lemma payload_attendees:
  "payloadBytes (r\<lparr>rc_attendees := as\<rparr>) =
     payloadBytes (r\<lparr>rc_attendees := []\<rparr>) + length (js_join '','' (map (\<lambda>a. stringify (attendee_json a)) as))"
  using json_bytes_last_array [of "[(''v'', JInt (int (rc_v r))), (''eck_current'', JInt (int (rc_eck_current r)))] @
     opt_field ''nostr_group_id'' JStr (rc_nostr_group_id r) @
     opt_field ''pages'' (\<lambda>n. JInt (int n)) (rc_pages r)" "''attendees''" "map attendee_json as"]
  by (simp add: payloadBytes_def roster_json_def comp_def)

lemma sum_entry_bytes: "sum_list (map entry_bytes as) =
    sum_list (map (\<lambda>a. length (stringify (attendee_json a))) as) + length as"
  by (induction as) (simp_all add: entry_bytes_def json_bytes_def)

lemma join_entries:
  "length (js_join '','' (map (\<lambda>a. stringify (attendee_json a)) as)) \<le> sum_list (map entry_bytes as)"
  using sum_entry_bytes [of as] by (simp add: length_js_join_comma comp_def)

lemma buildPage_attendees [simp]: "rc_attendees (buildPage r i n as) = as"
  by (simp add: buildPage_def)

lemma buildPage_update: "(buildPage r i n as)\<lparr>rc_attendees := bs\<rparr> = buildPage r i n bs"
  by (simp add: buildPage_def)

lemma payload_buildPage:
  "payloadBytes (buildPage r i n as) =
     payloadBytes (buildPage r i n []) + length (js_join '','' (map (\<lambda>a. stringify (attendee_json a)) as))"
  using payload_attendees [of as "buildPage r i n []"] by (simp only: buildPage_update)

lemma length_show_nat_mono:
  assumes "n \<le> 99" "10 \<le> m"
  shows "length (show_nat n) \<le> length (show_nat m)"
proof -
  have "length (show_nat n) \<le> 2"
    using assms(1) by (auto simp: show_nat.simps [of n] show_nat.simps [of "n div 10"])
  moreover have "2 \<le> length (show_nat m)"
    using assms(2) by (subst show_nat.simps) (simp add: Suc_le_eq)
  ultimately show ?thesis by simp
qed

lemma json_bytes_fields:
  "json_bytes (JObj fs) =
     2 + sum_list (map (\<lambda>(k, v). length (json_quote k) + 1 + json_bytes v) fs) + (length fs - 1)"
proof -
  have "sum_list (map length (map (\<lambda>(k, v). json_quote k @ '':'' @ stringify v) fs)) =
      sum_list (map (\<lambda>(k, v). length (json_quote k) + 1 + json_bytes v) fs)"
    by (induction fs) (auto simp: json_bytes_def)
  then show ?thesis by (simp add: json_bytes_def length_js_join_comma)
qed

lemma payload_parts:
  "payloadBytes (r\<lparr>rc_attendees := []\<rparr>) =
     json_bytes (JInt (int (rc_v r))) + json_bytes (JInt (int (rc_eck_current r))) +
     (case rc_nostr_group_id r of None \<Rightarrow> 0 | Some g \<Rightarrow> length (json_quote ''nostr_group_id'') + 2 + json_bytes (JStr g)) +
     (case rc_pages r of None \<Rightarrow> 0 | Some n \<Rightarrow> length (json_quote ''pages'') + 2 + json_bytes (JInt (int n))) +
     (2 + length (json_quote ''v'') + 1 + length (json_quote ''eck_current'') + 1 + 1 +
      length (json_quote ''attendees'') + 1 + json_bytes (JArr []) + 1)"
  by (simp add: payloadBytes_def roster_json_def json_bytes_fields opt_field_def split: option.split)

lemma json_bytes_nat: "json_bytes (JInt (int n)) = length (show_nat n)"
  by (simp add: json_bytes_def show_int_def)

lemma overhead_count:
  assumes "n \<le> MAX_ROSTER_PAGES"
  shows "payloadBytes (buildPage r i n []) \<le> page_overhead r i"
proof -
  have "length (show_nat n) \<le> length (show_nat MAX_ROSTER_PAGES)"
    using assms by (intro length_show_nat_mono) (simp_all add: MAX_ROSTER_PAGES_def)
  then show ?thesis
    using payload_parts [of "buildPage r i n []"] payload_parts [of "buildPage r i MAX_ROSTER_PAGES []"]
    by (cases "i = 0") (simp_all add: page_overhead_def buildPage_def json_bytes_nat split: option.split)
qed

lemma page_overhead_0: "page_overhead r i \<le> page_overhead r 0"
  using payload_parts [of "buildPage r i MAX_ROSTER_PAGES []"] payload_parts [of "buildPage r 0 MAX_ROSTER_PAGES []"]
  by (cases "i = 0") (simp_all add: page_overhead_def buildPage_def split: option.split)

lemma page_overhead_attendees [simp]: "page_overhead (r\<lparr>rc_attendees := as\<rparr>) i = page_overhead r i"
  by (simp add: page_overhead_def buildPage_def)

lemma page_bytes:
  assumes "n \<le> MAX_ROSTER_PAGES"
  shows "payloadBytes (buildPage r i n as) \<le> page_overhead r i + sum_list (map entry_bytes as)"
  using overhead_count [OF assms, of r i] join_entries [of as] payload_buildPage [of r i n as] by simp

section \<open>Packing\<close>

lemma concat_pack_loop: "concat (pack_loop r gs c ov as) = concat gs @ c @ as"
  by (induction r gs c ov as rule: pack_loop.induct) auto

lemma pack_loop_neq_Nil [simp]: "pack_loop r gs c ov as \<noteq> []"
  by (induction r gs c ov as rule: pack_loop.induct) auto

definition group_ok :: "roster_content \<Rightarrow> nat \<Rightarrow> roster_attendee list \<Rightarrow> bool" where
  "group_ok r i g \<longleftrightarrow>
     length g \<le> 1 \<or> page_overhead r i + sum_list (map entry_bytes g) \<le> ROSTER_PAGE_TARGET_BYTES"

definition groups_ok :: "roster_content \<Rightarrow> roster_attendee list list \<Rightarrow> bool" where
  "groups_ok r gs \<longleftrightarrow> (\<forall>i<length gs. group_ok r i (gs ! i))"

lemma groups_ok_snoc [simp]: "groups_ok r (gs @ [g]) \<longleftrightarrow> groups_ok r gs \<and> group_ok r (length gs) g"
  by (auto simp: groups_ok_def nth_append less_Suc_eq)

lemma groups_ok_pack_loop:
  assumes "groups_ok r gs" "group_ok r (length gs) c"
    and "ov = page_overhead r (length gs) + sum_list (map entry_bytes c)"
  shows "groups_ok r (pack_loop r gs c ov as)"
  using assms
proof (induction r gs c ov as rule: pack_loop.induct)
  case (1 r gs c ov)
  then show ?case by simp
next
  case (2 r gs c ov a as)
  show ?case
  proof (cases "c \<noteq> [] \<and> ov + entry_bytes a > ROSTER_PAGE_TARGET_BYTES")
    case True
    then show ?thesis using 2 by (simp add: group_ok_def)
  next
    case False
    then have "group_ok r (length gs) (c @ [a])" using 2 by (auto simp: group_ok_def)
    then have "groups_ok r (pack_loop r gs (c @ [a]) (ov + entry_bytes a) as)"
      using 2(3-) by (intro 2(2) [OF False]) (simp_all add: add.assoc)
    then show ?thesis using False by auto
  qed
qed

lemma packPages_ok: "groups_ok r (packPages r)"
  unfolding packPages_def by (rule groups_ok_pack_loop) (simp_all add: groups_ok_def group_ok_def)

lemma concat_packPages: "concat (packPages r) = rc_attendees r"
  by (simp add: packPages_def concat_pack_loop)

lemma pack_loop_snoc:
  "pack_loop r gs c ov (as @ [x]) = butlast (pack_loop r gs c ov as) @ [last (pack_loop r gs c ov as) @ [x]] \<or>
   pack_loop r gs c ov (as @ [x]) = pack_loop r gs c ov as @ [[x]]"
  by (induction r gs c ov as rule: pack_loop.induct) auto

lemma pack_loop_attendees: "pack_loop (r\<lparr>rc_attendees := bs\<rparr>) gs c ov as = pack_loop r gs c ov as"
  by (induction r gs c ov as rule: pack_loop.induct) auto


section \<open>What a split carries\<close>

definition page_of :: "roster_content \<Rightarrow> nat \<Rightarrow> nat \<Rightarrow> roster_content" where
  "page_of r n i = buildPage r i n (packPages r ! i)"

lemma zip_pages:
  "map (\<lambda>(i, as). buildPage r i n as) (zip [0..<length gs] gs) =
     map (\<lambda>i. buildPage r i n (gs ! i)) [0..<length gs]"
  by (rule nth_equalityI) auto

lemma splitRoster_Inr:
  "splitRoster r = Inr pages \<longleftrightarrow>
     (if rosterFitsOnePage r then pages = [r]
      else length (rc_attendees r) \<le> MAX_ROSTER \<and> length (packPages r) \<le> MAX_ROSTER_PAGES \<and>
           pages = map (page_of r (length (packPages r))) [0..<length (packPages r)] \<and>
           (\<forall>p\<in>set pages. payloadBytes p \<le> NIP44_MAX_PLAINTEXT_BYTES))"
proof -
  have "oversized_page ps = None \<longleftrightarrow> (\<forall>p\<in>set ps. payloadBytes p \<le> NIP44_MAX_PLAINTEXT_BYTES)" for ps
  proof -
    have "oversized_page ps = None \<longleftrightarrow>
        (\<forall>x\<in>set (zip [0..<length ps] ps). payloadBytes (snd x) \<le> NIP44_MAX_PLAINTEXT_BYTES)"
      by (auto simp: oversized_page_def find_None_iff not_less case_prod_beta)
    also have "\<dots> \<longleftrightarrow> (\<forall>p\<in>set (map snd (zip [0..<length ps] ps)). payloadBytes p \<le> NIP44_MAX_PLAINTEXT_BYTES)"
      unfolding set_map by blast
    also have "map snd (zip [0..<length ps] ps) = ps" by simp
    finally show ?thesis .
  qed
  note ov = this
  let ?ps = "map (page_of r (length (packPages r))) [0..<length (packPages r)]"
  show ?thesis
    using ov [of ?ps] unfolding splitRoster_def Let_def zip_pages page_of_def [symmetric]
    by (cases "oversized_page ?ps") (auto simp del: set_map)
qed

lemma concat_pages:
  "concat (map rc_attendees (map (page_of r n) [0..<length (packPages r)])) = rc_attendees r"
proof -
  have "map rc_attendees (map (page_of r n) [0..<length (packPages r)]) = packPages r"
    by (simp add: comp_def page_of_def map_nth)
  then show ?thesis by (simp add: concat_packPages)
qed

lemma packPages_neq_Nil [simp]: "packPages r \<noteq> []"
  by (simp add: packPages_def)

text \<open>
  The pages of a split carry exactly the members, in order; every page fits a NIP-44
  payload; there are at most \<open>MAX_ROSTER_PAGES\<close>; a roster that fits is returned untouched; one that
  does not is marked as paged, with the count on page 0 only.
\<close>

theorem splitRoster_carries_all:
  assumes "splitRoster r = Inr pages"
  shows "concat (map rc_attendees pages) = rc_attendees r \<and>
         (\<forall>p\<in>set pages. payloadBytes p \<le> NIP44_MAX_PLAINTEXT_BYTES) \<and>
         length pages \<le> MAX_ROSTER_PAGES \<and>
         (if rosterFitsOnePage r then pages = [r]
          else rosterPageCountOf (hd pages) = length pages \<and> (\<forall>p\<in>set pages. rc_v p = ROSTER_PAGED_VERSION) \<and>
               (\<forall>p\<in>set (tl pages). rc_pages p = None))"
proof (cases "rosterFitsOnePage r")
  case True
  with assms show ?thesis by (simp add: splitRoster_Inr rosterFitsOnePage_def MAX_ROSTER_PAGES_def)
next
  case False
  let ?n = "length (packPages r)"
  have pages: "pages = map (page_of r ?n) [0..<?n]" and n: "?n \<le> MAX_ROSTER_PAGES"
    and size: "\<forall>p\<in>set pages. payloadBytes p \<le> NIP44_MAX_PLAINTEXT_BYTES"
    using assms False by (simp_all add: splitRoster_Inr)
  have hd: "[0..<?n] = 0 # [1..<?n]" by (simp add: upt_conv_Cons)
  have "rosterPageCountOf (hd pages) = length pages"
    unfolding pages hd by (simp add: page_of_def buildPage_def rosterPageCountOf_def)
  moreover have "\<forall>p\<in>set (tl pages). rc_pages p = None"
    unfolding pages hd by (auto simp: page_of_def buildPage_def)
  moreover have "\<forall>p\<in>set pages. rc_v p = ROSTER_PAGED_VERSION"
    unfolding pages by (auto simp: page_of_def buildPage_def)
  ultimately show ?thesis using False size n concat_pages [of r ?n] by (simp add: pages)
qed

lemma splitRoster_total_lemma:
  assumes "length (rc_attendees r) \<le> MAX_ROSTER" "length (packPages r) \<le> MAX_ROSTER_PAGES"
    and "page_overhead r 0 \<le> NIP44_MAX_PLAINTEXT_BYTES"
    and "\<forall>a\<in>set (rc_attendees r). page_overhead r 0 + entry_bytes a \<le> NIP44_MAX_PLAINTEXT_BYTES"
  shows "\<exists>pages. splitRoster r = Inr pages \<and> length pages = rosterPageCount r"
proof (cases "rosterFitsOnePage r")
  case True
  then show ?thesis by (simp add: splitRoster_Inr rosterPageCount_def)
next
  case False
  let ?n = "length (packPages r)"
  have "payloadBytes (page_of r ?n i) \<le> NIP44_MAX_PLAINTEXT_BYTES" if i: "i < ?n" for i
  proof -
    let ?g = "packPages r ! i"
    have "payloadBytes (page_of r ?n i) \<le> page_overhead r i + sum_list (map entry_bytes ?g)"
      unfolding page_of_def using assms(2) by (rule page_bytes)
    moreover have "group_ok r i ?g" using packPages_ok i by (simp add: groups_ok_def)
    moreover have "page_overhead r i + sum_list (map entry_bytes ?g) \<le> NIP44_MAX_PLAINTEXT_BYTES"
      if "length ?g \<le> 1"
    proof (cases ?g)
      case Nil
      then show ?thesis using assms(3) page_overhead_0 [of r i] by simp
    next
      case (Cons a g)
      have "a \<in> set (concat (packPages r))" using i Cons by (metis UN_I list.set_intros(1) nth_mem set_concat)
      then have "a \<in> set (rc_attendees r)" by (simp only: concat_packPages)
      then have "page_overhead r 0 + entry_bytes a \<le> NIP44_MAX_PLAINTEXT_BYTES" using assms(4) by blast
      then show ?thesis using that Cons page_overhead_0 [of r i] by simp
    qed
    ultimately show ?thesis
      by (auto simp: group_ok_def ROSTER_PAGE_TARGET_BYTES_def NIP44_MAX_PLAINTEXT_BYTES_def)
  qed
  then show ?thesis using assms False by (auto simp: splitRoster_Inr rosterPageCount_def)
qed


text \<open>
  The size assertion of the split cannot fire when each entry alone fits beside the
  envelope: then a roster within the member and page caps always splits.
\<close>

theorem splitRoster_total:
  assumes "length (rc_attendees r) \<le> MAX_ROSTER" "length (packPages r) \<le> MAX_ROSTER_PAGES"
    and "page_overhead r 0 \<le> NIP44_MAX_PLAINTEXT_BYTES"
    and "\<forall>a\<in>set (rc_attendees r). page_overhead r 0 + entry_bytes a \<le> NIP44_MAX_PLAINTEXT_BYTES"
  shows "\<exists>pages. splitRoster r = Inr pages \<and> length pages = rosterPageCount r"
  using assms by (rule splitRoster_total_lemma)

section \<open>Round trip\<close>

lemma merge_loop_id:
  assumes "distinct (map at_pubkey (acc @ as))" "length (acc @ as) \<le> MAX_ROSTER"
  shows "merge_loop acc as = acc @ as"
  using assms by (induction acc as rule: merge_loop.induct) auto

lemma merge_loop_sound:
  assumes "distinct (map at_pubkey acc)" "length acc \<le> MAX_ROSTER"
  shows "distinct (map at_pubkey (merge_loop acc as)) \<and> length (merge_loop acc as) \<le> MAX_ROSTER \<and>
         set (merge_loop acc as) \<subseteq> set acc \<union> set as"
  using assms
proof (induction acc as rule: merge_loop.induct)
  case (2 acc a as)
  then show ?case by auto
qed simp

text \<open>
  (C25) Round trip: a reader that merges the pages of a split gets back the roster that was
  split, whether it needed pages or not.
\<close>

theorem merge_split_roundtrip:
  assumes "splitRoster r = Inr pages"
    and "rc_v r = PROTOCOL_VERSION" "rc_pages r = None" "rc_nostr_group_id r \<noteq> Some []"
    and "distinct (map at_pubkey (rc_attendees r))" "length (rc_attendees r) \<le> MAX_ROSTER"
  shows "mergeRosterPages pages = Inr r"
proof -
  have ml: "merge_loop [] (rc_attendees r) = rc_attendees r"
    using merge_loop_id [of "[]" "rc_attendees r"] assms by simp
  show ?thesis
  proof (cases "rosterFitsOnePage r")
    case True
    then show ?thesis using assms ml
      by (simp add: splitRoster_Inr mergeRosterPages_def truthy_id_def roster_content.equality)
  next
    case False
    let ?n = "length (packPages r)"
    have pages: "pages = map (page_of r ?n) [0..<?n]" using assms(1) False by (simp add: splitRoster_Inr)
    have all: "concat (map rc_attendees pages) = rc_attendees r" unfolding pages by (rule concat_pages)
    obtain rest where "pages = page_of r ?n 0 # rest"
      unfolding pages by (simp add: upt_conv_Cons)
    with all ml assms show ?thesis
      by (simp add: mergeRosterPages_def page_of_def buildPage_def truthy_id_def roster_content.equality)
  qed
qed

text \<open>
  Whatever pages a reader is given, the merged roster names every member once, holds at
  most \<open>MAX_ROSTER\<close> of them, all taken from the pages, and is a logical roster: version 2, no count.
\<close>

theorem mergeRosterPages_bounded:
  "case mergeRosterPages pages of
     Inl e \<Rightarrow> pages = [] \<and> e = EmptyPageSet
   | Inr m \<Rightarrow> distinct (map at_pubkey (rc_attendees m)) \<and> length (rc_attendees m) \<le> MAX_ROSTER \<and>
       set (rc_attendees m) \<subseteq> (\<Union>p\<in>set pages. set (rc_attendees p)) \<and>
       rc_v m = PROTOCOL_VERSION \<and> rc_pages m = None \<and> rc_eck_current m = rc_eck_current (hd pages)"
  using merge_loop_sound [of "[]" "concat (map rc_attendees pages)"]
  by (cases pages) (simp_all add: mergeRosterPages_def)

section \<open>Approving one more member\<close>

lemma payload_mono:
  "payloadBytes (r\<lparr>rc_attendees := as\<rparr>) \<le> payloadBytes (r\<lparr>rc_attendees := as @ [x]\<rparr>)"
  unfolding payload_attendees [of as r] payload_attendees [of "as @ [x]" r]
  by (simp add: js_join_snoc)

lemma packPages_append:
  "packPages (r\<lparr>rc_attendees := rc_attendees r @ [x]\<rparr>) = butlast (packPages r) @ [last (packPages r) @ [x]] \<or>
   packPages (r\<lparr>rc_attendees := rc_attendees r @ [x]\<rparr>) = packPages r @ [[x]]"
  using pack_loop_snoc [of r "[]" "[]" "page_overhead r 0" "rc_attendees r" x]
  by (simp add: packPages_def pack_loop_attendees)

text \<open>
  Appending one member to a paged roster changes the last page or opens a new one: every
  page strictly between the first and the last is the same, and so is page 0 unless it was the
  last page or the page count it carries changed.
\<close>

theorem append_touches_last_page:
  assumes "\<not> rosterFitsOnePage r" "splitRoster r = Inr pages"
    and "splitRoster (r\<lparr>rc_attendees := rc_attendees r @ [x]\<rparr>) = Inr pages'"
  shows "(length pages' = length pages \<or> length pages' = Suc (length pages)) \<and>
         (\<forall>i. 0 < i \<and> Suc i < length pages \<longrightarrow> pages' ! i = pages ! i) \<and>
         (length pages' = length pages \<and> 1 < length pages \<longrightarrow> pages' ! 0 = pages ! 0)"
proof -
  let ?r' = "r\<lparr>rc_attendees := rc_attendees r @ [x]\<rparr>"
  have "payloadBytes r \<le> payloadBytes ?r'"
    using payload_mono [of "rc_attendees r" r x] by simp
  then have "\<not> rosterFitsOnePage ?r'" using assms(1) by (simp add: rosterFitsOnePage_def)
  then have p: "pages = map (page_of r (length (packPages r))) [0..<length (packPages r)]"
    and p': "pages' = map (page_of ?r' (length (packPages ?r'))) [0..<length (packPages ?r')]"
    using assms by (simp_all add: splitRoster_Inr)
  have len: "length (packPages ?r') = length (packPages r) \<or> length (packPages ?r') = Suc (length (packPages r))"
    using packPages_append [of r x] by auto
  have same: "packPages ?r' ! i = packPages r ! i" if "Suc i < length (packPages r)" for i
    using packPages_append [of r x] that by (auto simp: nth_append nth_butlast)
  have build: "buildPage ?r' i n as = buildPage r i n as" for i n as
    by (simp add: buildPage_def)
  have "pages' ! i = pages ! i" if "0 < i" "Suc i < length pages" for i
  proof -
    have i: "Suc i < length (packPages r)" "i < length (packPages ?r')" using that len by (auto simp: p)
    then have "pages' ! i = page_of ?r' (length (packPages ?r')) i"
      "pages ! i = page_of r (length (packPages r)) i"
      by (simp_all add: p p' del: upt_Suc)
    then show ?thesis using same [OF i(1)] that(1) by (simp add: page_of_def buildPage_def)
  qed
  moreover have "pages' ! 0 = pages ! 0" if "length pages' = length pages" "1 < length pages"
    using that same [of 0] by (simp add: p p' page_of_def build)
  ultimately show ?thesis using len by (simp add: p p')
qed


section \<open>Addresses do not collide\<close>

lemma append_last_sep:
  assumes "c \<notin> set t" "c \<notin> set u"
  shows "s @ c # t = s' @ c # u \<longleftrightarrow> s = s' \<and> t = u"
proof -
  have "rev t @ c # rev s = rev u @ c # rev s' \<longleftrightarrow> rev t = rev u \<and> rev s = rev s'"
    using assms by (intro append_sep_inject) auto
  moreover have "s @ c # t = s' @ c # u \<longleftrightarrow> rev (s @ c # t) = rev (s' @ c # u)"
    by (simp only: rev_is_rev_conv)
  ultimately show ?thesis by auto
qed

lemma page_d_cases:
  "page_d base i = base \<or> (\<exists>n. page_d base i = base @ CHR '':'' # show_nat n)"
  by (auto simp: page_d_def)

lemma page_d_inject:
  assumes "CHR '':'' \<notin> set b" "CHR '':'' \<notin> set b'"
  shows "page_d b i = page_d b' j \<longleftrightarrow> b = b' \<and> i = j"
proof -
  have no: "b \<noteq> x @ CHR '':'' # y" "b' \<noteq> x @ CHR '':'' # y" for x y using assms by auto
  have no': "x @ CHR '':'' # y \<noteq> b" "x @ CHR '':'' # y \<noteq> b'" for x y using no by metis+
  show ?thesis
    by (cases "i = 0"; cases "j = 0")
      (auto simp: page_d_def append_last_sep no no')
qed

text \<open>
  Pages of different spaces never share an address: the derived base determines the space
  when the hash separates their messages, the page address determines base and page, and a legacy
  address that does not look derived is no page of a derived base.
\<close>

theorem page_addresses_disjoint:
  assumes hex: "\<And>m. hex32 (sha_hex m)"
    and separates: "sha_hex (space_records_message c) = sha_hex (space_records_message c') \<Longrightarrow>
      space_records_message c = space_records_message c'"
  shows "(page_d (spaceRecordsD sha_hex c) i = page_d (spaceRecordsD sha_hex c') j \<longleftrightarrow> c = c' \<and> i = j) \<and>
         (\<not> legacyRosterDCollidesWithDerived ident \<longrightarrow> page_d ident i \<noteq> page_d (spaceRecordsD sha_hex c) j)"
proof
  have "space_records_message c = space_records_message c' \<longleftrightarrow> c = c'"
    using stringify_strings_inject [of "[SPACE_RECORDS_D_TAG, c]" "[SPACE_RECORDS_D_TAG, c']"]
    by (simp add: space_records_message_def)
  then show "page_d (spaceRecordsD sha_hex c) i = page_d (spaceRecordsD sha_hex c') j \<longleftrightarrow> c = c' \<and> i = j"
    using page_d_inject [OF hex32_no_colon [OF hex] hex32_no_colon [OF hex]] separates
    by (auto simp: spaceRecordsD_def)
  show "\<not> legacyRosterDCollidesWithDerived ident \<longrightarrow> page_d ident i \<noteq> page_d (spaceRecordsD sha_hex c) j"
  proof (intro impI notI)
    let ?b = "spaceRecordsD sha_hex c"
    have b: "hex32 ?b" "length ?b = 64" using hex [of "space_records_message c"]
      by (simp_all add: spaceRecordsD_def hex32_def)
    assume nc: "\<not> legacyRosterDCollidesWithDerived ident" and eq: "page_d ident i = page_d ?b j"
    have "ident = ?b \<or> (\<exists>n. ident = ?b @ CHR '':'' # show_nat n)"
    proof (cases "i = 0")
      case True
      then show ?thesis using eq page_d_cases [of ?b j] by (simp add: page_d_def)
    next
      case False
      then have i: "page_d ident i = ident @ CHR '':'' # show_nat i" by (simp add: page_d_def)
      have "?b \<noteq> ident @ CHR '':'' # show_nat i" using hex32_no_colon [OF b(1)] by auto
      then have "ident @ CHR '':'' # show_nat i = ?b @ CHR '':'' # show_nat j"
        using eq i by (auto simp: page_d_def split: if_splits)
      then have "ident = ?b" by (simp add: append_last_sep)
      then show ?thesis ..
    qed
    then have "legacyRosterDCollidesWithDerived ident"
      using b by (auto simp: legacyRosterDCollidesWithDerived_def)
    with nc show False ..
  qed
qed

text \<open>
  A hostile page count costs a reader at most \<open>MAX_ROSTER_PAGES\<close> addresses, all different,
  page 0 first, and what it then asks for is exactly the rest.
\<close>

theorem rosterPageDs_bounded:
  "length (rosterPageDs base pages) \<le> MAX_ROSTER_PAGES \<and>
   rosterPageDs base pages = base # rosterContinuationDs base pages \<and>
   distinct (rosterPageDs base pages) \<and>
   (\<forall>n. pages = Num (of_nat n) \<and> 1 \<le> n \<and> n \<le> MAX_ROSTER_PAGES \<longrightarrow>
      rosterPageDs base pages = map (page_d base) [0..<n])"
proof -
  define n where "n = (case pages of Num q \<Rightarrow> min (int MAX_ROSTER_PAGES) (max 1 \<lfloor>q\<rfloor>) | _ \<Rightarrow> 1)"
  have n: "1 \<le> n" "n \<le> int MAX_ROSTER_PAGES"
    by (auto simp: n_def MAX_ROSTER_PAGES_def split: js_number.split)
  have ds: "rosterPageDs base pages = map (page_d base) [0..<nat n]"
    by (simp add: rosterPageDs_def n_def Let_def)
  have "inj_on (page_d base) {0..<nat n}" by (auto simp: inj_on_def page_d_def split: if_splits)
  then have "distinct (rosterPageDs base pages)" by (simp add: ds distinct_map)
  moreover have "[0..<nat n] = 0 # [1..<nat n]" using n by (simp add: upt_conv_Cons)
  then have "rosterPageDs base pages = base # rosterContinuationDs base pages"
    by (simp add: ds rosterContinuationDs_def page_d_def)
  moreover have "length (rosterPageDs base pages) \<le> MAX_ROSTER_PAGES" using n by (simp add: ds)
  moreover have "rosterPageDs base pages = map (page_d base) [0..<m]"
    if "pages = Num (of_nat m)" "1 \<le> m" "m \<le> MAX_ROSTER_PAGES" for m
    using that unfolding ds by (simp add: n_def MAX_ROSTER_PAGES_def)
  ultimately show ?thesis by blast
qed

section \<open>At a concrete roster\<close>

definition small_roster :: roster_content where
  "small_roster = \<lparr>rc_v = 2, rc_eck_current = 1, rc_nostr_group_id = None, rc_pages = None,
     rc_attendees = [\<lparr>at_pubkey = ''aa'', at_d = ''d1'', at_role = ''organizer'', at_chat_keys = None\<rparr>,
                     \<lparr>at_pubkey = ''bb'', at_d = ''d2'', at_role = ''attendee'',
                      at_chat_keys = Some [\<lparr>ck_pubkey = ''k'', ck_label = Some ''phone'', ck_added_at = 7,
                                            ck_external = True\<rparr>]\<rparr>]\<rparr>"

text \<open>A roster past the ceiling: one member whose entry alone is past it.\<close>

definition huge_entry :: roster_attendee where
  "huge_entry = \<lparr>at_pubkey = ''cc'', at_d = replicate 60000 CHR ''x'', at_role = ''attendee'', at_chat_keys = None\<rparr>"

definition two_page_roster :: roster_content where
  "two_page_roster = small_roster\<lparr>rc_attendees := [huge_entry, huge_entry\<lparr>at_pubkey := ''dd''\<rparr>]\<rparr>"

lemma json_escape_x: "json_escape CHR ''x'' = ''x''"
  by code_simp

lemma json_quote_replicate_x: "length (json_quote (replicate n CHR ''x'')) = n + 2"
  by (induction n) (auto simp: json_quote_def json_escape_x)

lemma small_bytes: "payloadBytes small_roster \<le> 300"
  by code_simp

lemma small_fits [simp]: "rosterFitsOnePage small_roster"
  using small_bytes by (simp add: rosterFitsOnePage_def NIP44_MAX_PLAINTEXT_BYTES_def)

lemma small_split: "splitRoster small_roster = Inr [small_roster]"
  by (simp add: splitRoster_Inr)

lemma splitRoster_carries_all_witness: "concat (map rc_attendees [small_roster]) = rc_attendees small_roster"
  using splitRoster_carries_all [OF small_split] by blast

lemma merge_split_roundtrip_witness: "mergeRosterPages [small_roster] = Inr small_roster"
  by (rule merge_split_roundtrip [OF small_split])
    (simp_all add: small_roster_def PROTOCOL_VERSION_def MAX_ROSTER_def)

lemma huge_bytes: "entry_bytes huge_entry \<le> 60100" "60000 \<le> entry_bytes huge_entry"
   "entry_bytes (huge_entry\<lparr>at_pubkey := ''dd''\<rparr>) \<le> 60100"
   "60000 \<le> entry_bytes (huge_entry\<lparr>at_pubkey := ''dd''\<rparr>)"
proof -
  have q: "json_bytes (JStr ''cc'') = 4" "json_bytes (JStr ''dd'') = 4" "json_bytes (JStr ''attendee'') = 10"
    "length (json_quote ''pubkey'') = 8" "length (json_quote ''d'') = 3" "length (json_quote ''role'') = 6"
    by code_simp+
  have "json_bytes (JStr (replicate 60000 CHR ''x'')) = 60002"
    using json_quote_replicate_x [of 60000] by (simp add: json_bytes_def)
  then show "entry_bytes huge_entry \<le> 60100" "60000 \<le> entry_bytes huge_entry"
    "entry_bytes (huge_entry\<lparr>at_pubkey := ''dd''\<rparr>) \<le> 60100"
    "60000 \<le> entry_bytes (huge_entry\<lparr>at_pubkey := ''dd''\<rparr>)"
    by (simp_all add: entry_bytes_def attendee_json_def huge_entry_def opt_field_def json_bytes_fields q)
qed

lemma two_page_overhead: "page_overhead two_page_roster 0 \<le> 100" "page_overhead two_page_roster 1 \<le> 100"
  unfolding two_page_roster_def page_overhead_attendees by code_simp+

lemma two_page_groups:
  "packPages two_page_roster = [[huge_entry], [huge_entry\<lparr>at_pubkey := ''dd''\<rparr>]]"
  using huge_bytes
  by (simp add: packPages_def) (simp add: two_page_roster_def ROSTER_PAGE_TARGET_BYTES_def)

lemma two_page_split:
  "\<exists>pages. splitRoster two_page_roster = Inr pages \<and> length pages = rosterPageCount two_page_roster"
  using huge_bytes two_page_overhead
  by (intro splitRoster_total_lemma)
    (simp_all add: two_page_groups MAX_ROSTER_PAGES_def MAX_ROSTER_def NIP44_MAX_PLAINTEXT_BYTES_def,
     simp_all add: two_page_roster_def)


lemma splitRoster_total_witness:
  "\<exists>pages. splitRoster two_page_roster = Inr pages \<and> length pages = rosterPageCount two_page_roster"
  using huge_bytes two_page_overhead
  by (intro splitRoster_total)
    (simp_all add: two_page_groups MAX_ROSTER_PAGES_def MAX_ROSTER_def NIP44_MAX_PLAINTEXT_BYTES_def,
     simp_all add: two_page_roster_def)

definition three_page_roster :: roster_content where
  "three_page_roster = two_page_roster\<lparr>rc_attendees := rc_attendees two_page_roster @ [huge_entry]\<rparr>"

lemma three_page_groups:
  "packPages three_page_roster = [[huge_entry], [huge_entry\<lparr>at_pubkey := ''dd''\<rparr>], [huge_entry]]"
  using huge_bytes
  by (simp add: packPages_def pack_loop_attendees three_page_roster_def)
    (simp add: two_page_roster_def ROSTER_PAGE_TARGET_BYTES_def)

lemma three_page_split: "\<exists>pages. splitRoster three_page_roster = Inr pages \<and> length pages = rosterPageCount three_page_roster"
  using huge_bytes two_page_overhead
  by (intro splitRoster_total_lemma)
    (simp_all add: three_page_groups MAX_ROSTER_PAGES_def MAX_ROSTER_def NIP44_MAX_PLAINTEXT_BYTES_def,
     simp_all add: three_page_roster_def two_page_roster_def)

lemma two_page_too_big: "\<not> rosterFitsOnePage two_page_roster"
proof -
  have "length (stringify (attendee_json huge_entry)) \<ge> 59999"
    "length (stringify (attendee_json (huge_entry\<lparr>at_pubkey := ''dd''\<rparr>))) \<ge> 59999"
    using huge_bytes by (simp_all add: entry_bytes_def json_bytes_def)
  then show ?thesis
    unfolding two_page_roster_def rosterFitsOnePage_def
      payload_attendees [of "[huge_entry, huge_entry\<lparr>at_pubkey := ''dd''\<rparr>]" small_roster]
    by (simp add: NIP44_MAX_PLAINTEXT_BYTES_def)
qed

lemma append_touches_last_page_witness:
  "\<exists>pages pages'. splitRoster two_page_roster = Inr pages \<and> splitRoster three_page_roster = Inr pages' \<and>
     (length pages' = length pages \<or> length pages' = Suc (length pages))"
proof -
  obtain pages where p: "splitRoster two_page_roster = Inr pages"
    using two_page_split by blast
  obtain pages' where p': "splitRoster three_page_roster = Inr pages'"
    using three_page_split by blast
  show ?thesis
    using append_touches_last_page [OF two_page_too_big p, of huge_entry pages'] p p'
    by (simp add: three_page_roster_def)
qed

definition toy_sha :: "string \<Rightarrow> string" where
  "toy_sha m = replicate 64 (if m = space_records_message ''31923:a:x'' then CHR ''a'' else CHR ''b'')"

lemma page_addresses_disjoint_witness:
  "page_d (spaceRecordsD toy_sha ''31923:a:x'') 1 \<noteq> page_d (spaceRecordsD toy_sha ''31923:b:x'') 1 \<and>
   page_d ''meetup'' 1 \<noteq> page_d (spaceRecordsD toy_sha ''31923:a:x'') 1"
proof -
  have hex: "hex32 (toy_sha m)" for m
    by (auto simp: toy_sha_def hex32_def is_lower_hex_def is_digit_def list.pred_set)
  have ne: "space_records_message ''31923:a:x'' \<noteq> space_records_message ''31923:b:x''"
    by (simp add: space_records_message_def json_quote_def json_escape_def)
  then have "toy_sha (space_records_message ''31923:a:x'') \<noteq> toy_sha (space_records_message ''31923:b:x'')"
    by (simp add: toy_sha_def)
  moreover have "\<not> legacyRosterDCollidesWithDerived ''meetup''"
    by (simp add: legacyRosterDCollidesWithDerived_def hex32_def)
  ultimately show ?thesis
    using page_addresses_disjoint [of toy_sha "''31923:a:x''" "''31923:b:x''" 1 1 "''meetup''"] hex by simp
qed

end
