(* ===== verification/Key_Backup.thy ===== *)
theory Key_Backup
  imports Prelude
begin

text \<open>
  The identity of ECK versions (\<open>packages/protocol/src/eck-identity.ts\<close>) and the union of two
  copies of an organizer's key backup (\<open>keys-backup.ts\<close>).

  \<open>fp\<close> stands for \<open>eckFingerprint\<close>, sixteen hex digits of a hash of the third-party package, and
  \<open>inboxPubkey\<close> for the public key of an inbox secret, \<open>None\<close> where the code catches an error. The
  lemmas show that a union never loses a version, that it and the choice of the current version
  depend on the set of versions only, and what the caps of a merged backup keep.
\<close>

section \<open>Versions\<close>

record eck_version =
  eck_id :: int
  eck_key :: string

definition eck_order :: "(string \<Rightarrow> string) \<Rightarrow> eck_version \<Rightarrow> eck_version \<Rightarrow> int" where
  "eck_order fp a b =
     (if eck_id a \<noteq> eck_id b then eck_id a - eck_id b
      else if fp (eck_key a) < fp (eck_key b) then -1
      else if fp (eck_key a) > fp (eck_key b) then 1
      else 0)"

text \<open>The key \<open>`${v.id}|${v.key}`\<close> of the union's map.\<close>

definition eck_map_key :: "eck_version \<Rightarrow> string" where
  "eck_map_key v = show_int (eck_id v) @ ''|'' @ eck_key v"

fun union_loop :: "eck_version list \<Rightarrow> eck_version list \<Rightarrow> eck_version list" where
  "union_loop seen [] = seen"
| "union_loop seen (v # vs) =
     union_loop (if eck_map_key v \<in> eck_map_key ` set seen then seen
                 else seen @ [\<lparr>eck_id = eck_id v, eck_key = eck_key v\<rparr>]) vs"

definition unionEck :: "(string \<Rightarrow> string) \<Rightarrow> eck_version list list \<Rightarrow> eck_version list" where
  "unionEck fp vss = sort_by (\<lambda>a b. eck_order fp a b \<le> 0) (union_loop [] (concat vss))"

fun canonical_loop :: "(string \<Rightarrow> string) \<Rightarrow> eck_version option \<Rightarrow> eck_version list \<Rightarrow> eck_version option" where
  "canonical_loop fp best [] = best"
| "canonical_loop fp best (v # vs) =
     canonical_loop fp
       (case best of
          None \<Rightarrow> Some v
        | Some b \<Rightarrow> if eck_id v > eck_id b \<or> eck_id v = eck_id b \<and> eck_order fp v b < 0
                    then Some v else Some b) vs"

definition canonicalEck :: "(string \<Rightarrow> string) \<Rightarrow> eck_version list \<Rightarrow> eck_version option" where
  "canonicalEck fp versions = canonical_loop fp None versions"

definition eckCollisionIds :: "eck_version list \<Rightarrow> int list" where
  "eckCollisionIds versions =
     sort (filter (\<lambda>i. 1 < card (set (map eck_key (filter (\<lambda>v. eck_id v = i) versions))))
             (js_distinct (map eck_id versions)))"

definition eckTag :: "(string \<Rightarrow> string) \<Rightarrow> eck_version \<Rightarrow> tag" where
  "eckTag fp v = [''eck'', show_int (eck_id v), fp (eck_key v)]"

record eck_ref =
  ref_id :: int
  ref_fp :: "string option"

definition eckCandidates :: "(string \<Rightarrow> string) \<Rightarrow> eck_version list \<Rightarrow> eck_ref \<Rightarrow> eck_version list" where
  "eckCandidates fp versions ref =
     (let sameId = sort_by (\<lambda>a b. eck_order fp a b \<le> 0) (filter (\<lambda>v. eck_id v = ref_id ref) versions)
      in case ref_fp ref of
           Some (c # cs) \<Rightarrow> filter (\<lambda>v. fp (eck_key v) = c # cs) sameId
         | _ \<Rightarrow> sameId)"

section \<open>The backup\<close>

definition MAX_PRIOR_INBOXES :: nat where "MAX_PRIOR_INBOXES = 64"
definition MAX_ORGANIZERS :: nat where "MAX_ORGANIZERS = 32"
definition MAX_REVOKED :: nat where "MAX_REVOKED = 500"

record event_keys_backup =
  kb_a :: "string option"
  kb_eid_nsec :: string
  kb_einbox_nsec :: string
  kb_eck :: "eck_version list"
  kb_coordinator_gen :: "nat option"
  kb_pending_eck :: "eck_version list option"
  kb_prior_einbox_nsecs :: "string list option"
  kb_co_organizers :: "pubkey list option"
  kb_revoked :: "pubkey list option"

definition or_empty :: "'a list option \<Rightarrow> 'a list" where
  "or_empty x = (case x of None \<Rightarrow> [] | Some xs \<Rightarrow> xs)"

text \<open>\<open>...(xs.length > 0 ? { f: xs } : {})\<close>.\<close>

definition unless_empty :: "'a list \<Rightarrow> 'a list option" where
  "unless_empty xs = (if xs = [] then None else Some xs)"

definition backup_inboxes :: "event_keys_backup \<Rightarrow> event_keys_backup \<Rightarrow> string list" where
  "backup_inboxes a b =
     js_distinct (kb_einbox_nsec a # kb_einbox_nsec b #
                  or_empty (kb_prior_einbox_nsecs a) @ or_empty (kb_prior_einbox_nsecs b))"

definition current_inbox ::
  "(string \<Rightarrow> pubkey option) \<Rightarrow> pubkey option \<Rightarrow> event_keys_backup \<Rightarrow> event_keys_backup \<Rightarrow> string" where
  "current_inbox inboxPubkey configInbox a b =
     (case configInbox of
        None \<Rightarrow> kb_einbox_nsec a
      | Some c \<Rightarrow> if c = [] then kb_einbox_nsec a
                  else (case List.find (\<lambda>s. inboxPubkey s = Some c) (backup_inboxes a b) of
                          Some s \<Rightarrow> s | None \<Rightarrow> kb_einbox_nsec a))"

definition mergeEventKeysBackups ::
  "(string \<Rightarrow> string) \<Rightarrow> (string \<Rightarrow> pubkey option) \<Rightarrow> pubkey option
   \<Rightarrow> event_keys_backup \<Rightarrow> event_keys_backup \<Rightarrow> event_keys_backup" where
  "mergeEventKeysBackups fp inboxPubkey configInbox a b =
     (let eck = unionEck fp [kb_eck a, kb_eck b];
          pending = filter (\<lambda>p. \<not> list_ex (\<lambda>v. eck_id v = eck_id p \<and> eck_key v = eck_key p) eck)
                      (unionEck fp [or_empty (kb_pending_eck a), or_empty (kb_pending_eck b)]);
          inboxes = backup_inboxes a b;
          current = current_inbox inboxPubkey configInbox a b;
          prior = slice_last MAX_PRIOR_INBOXES (filter (\<lambda>s. s \<noteq> current) inboxes);
          gen = max (case kb_coordinator_gen a of None \<Rightarrow> 0 | Some g \<Rightarrow> g)
                    (case kb_coordinator_gen b of None \<Rightarrow> 0 | Some g \<Rightarrow> g);
          coOrganizers = take MAX_ORGANIZERS
            (sort (js_distinct (or_empty (kb_co_organizers a) @ or_empty (kb_co_organizers b))));
          revoked = slice_last MAX_REVOKED
            (js_distinct (or_empty (kb_revoked b) @ or_empty (kb_revoked a)))
      in \<lparr>kb_a = (case (case kb_a a of Some x \<Rightarrow> Some x | None \<Rightarrow> kb_a b) of
             Some (c # cs) \<Rightarrow> Some (c # cs) | _ \<Rightarrow> None),
          kb_eid_nsec = kb_eid_nsec a, kb_einbox_nsec = current, kb_eck = eck,
          kb_coordinator_gen = Some gen, kb_pending_eck = unless_empty pending,
          kb_prior_einbox_nsecs = unless_empty prior, kb_co_organizers = unless_empty coOrganizers,
          kb_revoked = unless_empty revoked\<rparr>)"

section \<open>The union\<close>

lemma show_nat_chars: "\<not> is_digit c \<Longrightarrow> c \<notin> set (show_nat n)"
  using show_nat_digits [of n] unfolding list_all_iff by blast

lemma bar_minus_no_digit: "\<not> is_digit CHR ''|''" "\<not> is_digit CHR ''-''"
  by (simp_all add: is_digit_def)

lemma show_int_no_bar: "CHR ''|'' \<notin> set (show_int i)"
  using show_nat_chars [OF bar_minus_no_digit(1)] by (simp add: show_int_def)

lemma show_nat_no_minus: "show_nat n \<noteq> CHR ''-'' # s"
proof
  assume "show_nat n = CHR ''-'' # s"
  then have "CHR ''-'' \<in> set (show_nat n)" by simp
  then show False using show_nat_chars [OF bar_minus_no_digit(2)] by blast
qed

lemma show_int_inject: "show_int i = show_int j \<longleftrightarrow> i = j"
  using show_nat_no_minus [of "nat i"] show_nat_no_minus [of "nat j"]
  by (cases "i < 0"; cases "j < 0") (auto simp: show_int_def eq_commute [of "CHR ''-'' # _"])

lemma eck_map_key_inject: "eck_map_key v = eck_map_key w \<longleftrightarrow> v = w"
proof -
  have "eck_map_key v = eck_map_key w \<longleftrightarrow> show_int (eck_id v) = show_int (eck_id w) \<and> eck_key v = eck_key w"
    using append_sep_inject [OF show_int_no_bar show_int_no_bar, of "eck_id v" "eck_key v" "eck_id w" "eck_key w"]
    by (simp add: eck_map_key_def)
  then show ?thesis by (auto simp: show_int_inject eck_version.equality)
qed

lemma union_loop_sound:
  "set (union_loop seen vs) = set seen \<union> set vs \<and> (distinct seen \<longrightarrow> distinct (union_loop seen vs))"
proof (induction seen vs rule: union_loop.induct)
  case (2 seen v vs)
  have v: "\<lparr>eck_id = eck_id v, eck_key = eck_key v\<rparr> = v" by simp
  have m: "eck_map_key v \<in> eck_map_key ` set seen \<longleftrightarrow> v \<in> set seen"
    by (auto simp: eck_map_key_inject image_iff)
  show ?case using 2 unfolding union_loop.simps v m by auto
qed simp

lemma set_unionEck [simp]: "set (unionEck fp vss) = (\<Union>l\<in>set vss. set l)"
  using union_loop_sound [of "[]" "concat vss"] by (simp add: unionEck_def)

lemma distinct_unionEck [simp]: "distinct (unionEck fp vss)"
  using union_loop_sound [of "[]" "concat vss"] by (simp add: unionEck_def)

lemma eck_order_total: "total_preorder (\<lambda>a b. eck_order fp a b \<le> 0)"
  unfolding total_preorder_def eck_order_def by (auto split: if_splits)

lemma eck_order_antisym:
  "eck_order fp a b \<le> 0 \<Longrightarrow> eck_order fp b a \<le> 0 \<Longrightarrow> eck_id a = eck_id b \<and> fp (eck_key a) = fp (eck_key b)"
  by (auto simp: eck_order_def split: if_splits)

text \<open>A fingerprint names a key among the versions at hand.\<close>

definition fp_names :: "(string \<Rightarrow> string) \<Rightarrow> eck_version set \<Rightarrow> bool" where
  "fp_names fp V \<longleftrightarrow> (\<forall>v\<in>V. \<forall>w\<in>V. eck_id v = eck_id w \<longrightarrow> fp (eck_key v) = fp (eck_key w) \<longrightarrow> v = w)"

lemma unionEck_cong:
  assumes "(\<Union>l\<in>set xs. set l) = (\<Union>l\<in>set ys. set l)" "fp_names fp (\<Union>l\<in>set xs. set l)"
  shows "unionEck fp xs = unionEck fp ys"
proof -
  let ?u = "\<lambda>ls. union_loop [] (concat ls)"
  have "mset (?u xs) = mset (?u ys)"
    using union_loop_sound [of "[]" "concat xs"] union_loop_sound [of "[]" "concat ys"] assms(1)
    by (intro set_eq_iff_mset_eq_distinct [THEN iffD1]) auto
  then show ?thesis unfolding unionEck_def
  proof (rule sort_by_cong [OF eck_order_total])
    fix v w assume "v \<in> set (?u xs)" "w \<in> set (?u xs)" "eck_order fp v w \<le> 0" "eck_order fp w v \<le> 0"
    then show "v = w"
      using eck_order_antisym [of fp v w] union_loop_sound [of "[]" "concat xs"] assms(2)
      unfolding fp_names_def by auto
  qed
qed

text \<open>
  A union holds every version either side holds, the second key of a colliding id included,
  once each and sorted, and is the same whatever order, grouping and repetition the lists came in.
\<close>

theorem unionEck_set_semantics:
  assumes "(\<Union>l\<in>set xs. set l) = (\<Union>l\<in>set ys. set l)" "fp_names fp (\<Union>l\<in>set xs. set l)"
  shows "unionEck fp xs = unionEck fp ys \<and> set (unionEck fp xs) = (\<Union>l\<in>set xs. set l) \<and>
         distinct (unionEck fp xs) \<and> sorted_wrt (\<lambda>a b. eck_order fp a b \<le> 0) (unionEck fp xs)"
  using unionEck_cong [OF assms] sorted_sort_by [OF eck_order_total] set_unionEck [of fp xs]
    distinct_unionEck [of fp xs]
  unfolding unionEck_def by blast

section \<open>The current version\<close>

definition eck_better :: "(string \<Rightarrow> string) \<Rightarrow> eck_version \<Rightarrow> eck_version \<Rightarrow> bool" where
  "eck_better fp v w \<longleftrightarrow>
     eck_id v > eck_id w \<or> eck_id v = eck_id w \<and> fp (eck_key v) \<le> fp (eck_key w)"

lemma canonical_loop_Some:
  "\<exists>c. canonical_loop fp (Some b) vs = Some c \<and> c \<in> insert b (set vs) \<and>
       (\<forall>w\<in>insert b (set vs). eck_better fp c w)"
proof (induction vs arbitrary: b)
  case Nil
  then show ?case by (simp add: eck_better_def)
next
  case (Cons v vs)
  define b' where "b' = (if eck_id v > eck_id b \<or> eck_id v = eck_id b \<and> eck_order fp v b < 0 then v else b)"
  obtain c where c: "canonical_loop fp (Some b') vs = Some c" "c \<in> insert b' (set vs)"
    "\<forall>w\<in>insert b' (set vs). eck_better fp c w"
    using Cons.IH [of b'] by blast
  have "eck_better fp b' v" "eck_better fp b' b"
    by (auto simp: b'_def eck_better_def eck_order_def split: if_splits)
  moreover have "eck_better fp x z" if "eck_better fp x y" "eck_better fp y z" for x y z
    using that by (auto simp: eck_better_def)
  ultimately have "\<forall>w\<in>insert b (set (v # vs)). eck_better fp c w" using c(3) by auto
  moreover have "canonical_loop fp (Some b) (v # vs) = Some c"
    using c(1) by (cases "eck_id v > eck_id b \<or> eck_id v = eck_id b \<and> eck_order fp v b < 0")
      (auto simp: b'_def)
  ultimately show ?case using c(2) by (auto simp: b'_def split: if_splits)
qed

text \<open>
  Any two devices that hold the same set of versions agree on the current one: the highest
  id and, under it, the lowest fingerprint.
\<close>

theorem canonicalEck_agreement:
  assumes "set vs = set ws" "fp_names fp (set vs)"
  shows "canonicalEck fp vs = canonicalEck fp ws \<and>
         (case canonicalEck fp vs of
            None \<Rightarrow> vs = []
          | Some c \<Rightarrow> c \<in> set vs \<and> (\<forall>w\<in>set vs. eck_better fp c w))"
proof -
  have char: "\<exists>c. canonicalEck fp xs = Some c \<and> c \<in> set xs \<and> (\<forall>w\<in>set xs. eck_better fp c w)"
    if "xs \<noteq> []" for xs
    using canonical_loop_Some [of fp "hd xs" "tl xs"] that
    by (cases xs) (auto simp: canonicalEck_def)
  show ?thesis
  proof (cases "vs = []")
    case True
    then show ?thesis using assms(1) by (simp add: canonicalEck_def)
  next
    case False
    then have "ws \<noteq> []" using assms(1) by auto
    obtain c d where c: "canonicalEck fp vs = Some c" "c \<in> set vs" "\<forall>w\<in>set vs. eck_better fp c w"
      and d: "canonicalEck fp ws = Some d" "d \<in> set ws" "\<forall>w\<in>set ws. eck_better fp d w"
      using char [OF False] char [OF \<open>ws \<noteq> []\<close>] by blast
    have "eck_better fp c d" "eck_better fp d c" using c d assms(1) by auto
    then have "eck_id c = eck_id d" "fp (eck_key c) = fp (eck_key d)" by (auto simp: eck_better_def)
    then have "c = d" using assms c(2) d(2) by (simp add: fp_names_def)
    then show ?thesis using c d by simp
  qed
qed

section \<open>Merged custody\<close>

lemma set_or_empty_unless [simp]: "or_empty (unless_empty xs) = xs"
  by (simp add: or_empty_def unless_empty_def)

text \<open>
  (C39) Merging two backups loses no custody within the caps: every version either copy holds is
  in the result, current if either had it current; the generation is the larger; and every inbox
  secret either copy holds is the current one or among the retired ones, when at most
  \<open>MAX_PRIOR_INBOXES\<close> are retired.
\<close>

theorem merge_keeps_custody:
  assumes "card (set (backup_inboxes a b)) \<le> MAX_PRIOR_INBOXES + 1"
  shows "let m = mergeEventKeysBackups fp inboxPubkey configInbox a b in
     set (kb_eck m) = set (kb_eck a) \<union> set (kb_eck b) \<and>
     set (or_empty (kb_pending_eck m)) =
       (set (or_empty (kb_pending_eck a)) \<union> set (or_empty (kb_pending_eck b))) - set (kb_eck m) \<and>
     insert (kb_einbox_nsec m) (set (or_empty (kb_prior_einbox_nsecs m))) =
       {kb_einbox_nsec a, kb_einbox_nsec b} \<union> set (or_empty (kb_prior_einbox_nsecs a)) \<union>
       set (or_empty (kb_prior_einbox_nsecs b)) \<and>
     kb_einbox_nsec m \<notin> set (or_empty (kb_prior_einbox_nsecs m)) \<and>
     (\<forall>g\<in>set_option (kb_coordinator_gen a) \<union> set_option (kb_coordinator_gen b).
        g \<le> the (kb_coordinator_gen m))"
proof -
  let ?cur = "current_inbox inboxPubkey configInbox a b"
  have cur: "?cur \<in> set (backup_inboxes a b)"
    by (auto simp: current_inbox_def backup_inboxes_def split: option.split dest: find_Some_in)
  have "length (filter (\<lambda>s. s \<noteq> ?cur) (backup_inboxes a b)) = card (set (backup_inboxes a b) - {?cur})"
    unfolding backup_inboxes_def
    by (subst distinct_length_filter [OF distinct_js_distinct]) (rule arg_cong [where f = card], blast)
  then have "length (filter (\<lambda>s. s \<noteq> ?cur) (backup_inboxes a b)) \<le> MAX_PRIOR_INBOXES"
    using assms cur by (simp add: card_Diff_singleton)
  then have prior: "slice_last MAX_PRIOR_INBOXES (filter (\<lambda>s. s \<noteq> ?cur) (backup_inboxes a b)) =
      filter (\<lambda>s. s \<noteq> ?cur) (backup_inboxes a b)"
    by simp
  have "(\<exists>v\<in>V. eck_id v = eck_id p \<and> eck_key v = eck_key p) \<longleftrightarrow> p \<in> V" for p :: eck_version and V
  proof -
    have "v = p" if "eck_id v = eck_id p" "eck_key v = eck_key p" for v :: eck_version
      using that by simp
    then show ?thesis by blast
  qed
  then have pend: "\<not> list_ex (\<lambda>v. eck_id v = eck_id p \<and> eck_key v = eck_key p) xs \<longleftrightarrow> p \<notin> set xs"
    for p :: eck_version and xs
    by (simp add: list_ex_iff)
  show ?thesis
    unfolding mergeEventKeysBackups_def Let_def event_keys_backup.simps prior pend set_or_empty_unless
    using cur by (auto simp: backup_inboxes_def)
qed

text \<open>
  Past the cap the inbox that is dropped first is the newest one: the current inbox of the
  other copy, when the first copy already retired as many as the cap allows.
\<close>

theorem merge_cap_drops_newest_inbox:
  assumes "configInbox = None" "kb_einbox_nsec b \<noteq> kb_einbox_nsec a"
    and "kb_prior_einbox_nsecs a = Some priors" "distinct priors" "length priors = MAX_PRIOR_INBOXES"
    and "kb_einbox_nsec a \<notin> set priors" "kb_einbox_nsec b \<notin> set priors"
    and "kb_prior_einbox_nsecs b = None"
  shows "or_empty (kb_prior_einbox_nsecs (mergeEventKeysBackups fp inboxPubkey configInbox a b)) = priors"
proof -
  have "backup_inboxes a b = kb_einbox_nsec a # kb_einbox_nsec b # priors"
    using assms by (simp add: backup_inboxes_def or_empty_def filter_id_conv) (auto simp: filter_id_conv)
  then have "filter (\<lambda>s. s \<noteq> kb_einbox_nsec a) (backup_inboxes a b) = kb_einbox_nsec b # priors"
    using assms(2,6) by (auto simp: filter_id_conv)
  then show ?thesis using assms(1,5)
    by (simp add: mergeEventKeysBackups_def Let_def current_inbox_def slice_last_def)
qed


section \<open>At concrete backups\<close>

definition toy_fp :: "string \<Rightarrow> string" where "toy_fp k = k"

definition v2a :: eck_version where "v2a = \<lparr>eck_id = 2, eck_key = ''a''\<rparr>"
definition v2b :: eck_version where "v2b = \<lparr>eck_id = 2, eck_key = ''b''\<rparr>"
definition v1 :: eck_version where "v1 = \<lparr>eck_id = 1, eck_key = ''c''\<rparr>"

lemma toy_names [simp]: "fp_names toy_fp V"
  by (auto simp: fp_names_def toy_fp_def intro: eck_version.equality)

lemma unionEck_set_semantics_witness:
  "unionEck toy_fp [[v1, v2a], [v2b]] = unionEck toy_fp [[v2b, v1], [v2a, v1]] \<and>
   set (unionEck toy_fp [[v1, v2a], [v2b]]) = {v1, v2a, v2b}"
proof -
  have "(\<Union>l\<in>set [[v1, v2a], [v2b]]. set l) = (\<Union>l\<in>set [[v2b, v1], [v2a, v1]]. set l)" by auto
  from unionEck_set_semantics [OF this toy_names] show ?thesis by auto
qed

lemma canonicalEck_agreement_witness:
  "canonicalEck toy_fp [v1, v2a, v2b] = canonicalEck toy_fp [v2b, v2a, v1] \<and>
   canonicalEck toy_fp [v1, v2a, v2b] = Some v2a"
proof -
  have "canonicalEck toy_fp [v1, v2a, v2b] = Some v2a"
    by (simp add: canonicalEck_def v1_def v2a_def v2b_def eck_order_def toy_fp_def)
  moreover have "set [v1, v2a, v2b] = set [v2b, v2a, v1]" by auto
  ultimately show ?thesis using canonicalEck_agreement [OF _ toy_names] by metis
qed

definition backup_a :: event_keys_backup where
  "backup_a = \<lparr>kb_a = None, kb_eid_nsec = ''e'', kb_einbox_nsec = ''i1'', kb_eck = [v1, v2a],
     kb_coordinator_gen = Some 3, kb_pending_eck = Some [v2b], kb_prior_einbox_nsecs = Some [''i0''],
     kb_co_organizers = None, kb_revoked = None\<rparr>"

definition backup_b :: event_keys_backup where
  "backup_b = backup_a\<lparr>kb_einbox_nsec := ''i2'', kb_eck := [v2b], kb_pending_eck := None,
     kb_coordinator_gen := Some 4, kb_prior_einbox_nsecs := None\<rparr>"

lemma merge_keeps_custody_witness:
  "set (kb_eck (mergeEventKeysBackups toy_fp Some None backup_a backup_b)) = {v1, v2a, v2b}"
  using merge_keeps_custody [of backup_a backup_b toy_fp Some None]
  by (auto simp: Let_def backup_inboxes_def MAX_PRIOR_INBOXES_def card_insert_if backup_a_def backup_b_def or_empty_def)

definition full_backup :: event_keys_backup where
  "full_backup = backup_a\<lparr>kb_prior_einbox_nsecs := Some (map (\<lambda>n. ''p'' @ show_nat n) [0..<64])\<rparr>"

lemma merge_cap_drops_newest_inbox_witness:
  "''i2'' \<notin> set (or_empty (kb_prior_einbox_nsecs
      (mergeEventKeysBackups toy_fp Some None full_backup backup_b)))"
proof -
  have "or_empty (kb_prior_einbox_nsecs (mergeEventKeysBackups toy_fp Some None full_backup backup_b)) =
      map (\<lambda>n. ''p'' @ show_nat n) [0..<64]"
    by (rule merge_cap_drops_newest_inbox)
      (simp_all add: full_backup_def backup_a_def backup_b_def distinct_map inj_on_def MAX_PRIOR_INBOXES_def image_iff)
  then show ?thesis by (simp add: image_iff)
qed

end
