(* ===== verification/Giftwrap.thy ===== *)
theory Giftwrap
  imports Js_Number
begin

text \<open>
  Gift-wrap handling (\<open>packages/protocol/src/giftwrap.ts\<close>) and the allowlists of rumor kinds
  (\<open>kinds.ts\<close>): everything between a wrap off a relay and a rumor a handler may trust.

  What arrives is untyped JSON, so the checks run on a datatype of JavaScript values, in the order
  of the code, each failure its own error. The NIP-44 cipher, the event hash and the signature
  check of nostr-tools, and \<open>JSON.parse\<close> (as a partial function) are arguments.
\<close>

section \<open>Kinds\<close>

definition KIND_SEAL :: int where "KIND_SEAL = 13"
definition KIND_GIFT_WRAP :: int where "KIND_GIFT_WRAP = 1059"
definition KIND_DM :: int where "KIND_DM = 14"
definition KIND_JOIN_REQUEST :: int where "KIND_JOIN_REQUEST = 21600"
definition KIND_PROFILE_SUBMISSION :: int where "KIND_PROFILE_SUBMISSION = 21601"
definition KIND_KEY_GRANT :: int where "KIND_KEY_GRANT = 21602"
definition KIND_COORDINATOR_GRANT :: int where "KIND_COORDINATOR_GRANT = 21603"
definition KIND_ADMIN_COMMAND :: int where "KIND_ADMIN_COMMAND = 21604"
definition KIND_ORGANIZER_GRANT :: int where "KIND_ORGANIZER_GRANT = 21605"
definition KIND_COORDINATOR_STATUS :: int where "KIND_COORDINATOR_STATUS = 21606"
definition KIND_CHAT_KEY_ATTESTATION :: int where "KIND_CHAT_KEY_ATTESTATION = 21607"
definition KIND_PROFILE_CORRECTION :: int where "KIND_PROFILE_CORRECTION = 21608"
definition KIND_TALK_SUBMISSION :: int where "KIND_TALK_SUBMISSION = 21609"
definition KIND_ATTENDEE_WITHDRAWAL :: int where "KIND_ATTENDEE_WITHDRAWAL = 21610"

lemmas kind_defs = KIND_SEAL_def KIND_GIFT_WRAP_def KIND_DM_def KIND_JOIN_REQUEST_def
  KIND_PROFILE_SUBMISSION_def KIND_KEY_GRANT_def KIND_COORDINATOR_GRANT_def KIND_ADMIN_COMMAND_def
  KIND_ORGANIZER_GRANT_def KIND_COORDINATOR_STATUS_def KIND_CHAT_KEY_ATTESTATION_def
  KIND_PROFILE_CORRECTION_def KIND_TALK_SUBMISSION_def KIND_ATTENDEE_WITHDRAWAL_def

definition RUMOR_KINDS :: "int list" where
  "RUMOR_KINDS = [KIND_DM, KIND_JOIN_REQUEST, KIND_PROFILE_SUBMISSION, KIND_KEY_GRANT,
     KIND_COORDINATOR_GRANT, KIND_ADMIN_COMMAND, KIND_ORGANIZER_GRANT, KIND_COORDINATOR_STATUS,
     KIND_CHAT_KEY_ATTESTATION, KIND_PROFILE_CORRECTION, KIND_TALK_SUBMISSION, KIND_ATTENDEE_WITHDRAWAL]"

definition EVENT_INBOX_RUMOR_KINDS :: "int list" where
  "EVENT_INBOX_RUMOR_KINDS = [KIND_JOIN_REQUEST, KIND_PROFILE_SUBMISSION, KIND_PROFILE_CORRECTION,
     KIND_TALK_SUBMISSION, KIND_ATTENDEE_WITHDRAWAL]"

definition COORDINATOR_RUMOR_KINDS :: "int list" where
  "COORDINATOR_RUMOR_KINDS = [KIND_COORDINATOR_GRANT, KIND_ADMIN_COMMAND, KIND_CHAT_KEY_ATTESTATION]"

definition ORGANIZER_RUMOR_KINDS :: "int list" where
  "ORGANIZER_RUMOR_KINDS = [KIND_ORGANIZER_GRANT, KIND_COORDINATOR_STATUS]"

definition ATTENDEE_RUMOR_KINDS :: "int list" where
  "ATTENDEE_RUMOR_KINDS = [KIND_DM, KIND_KEY_GRANT, KIND_ORGANIZER_GRANT, KIND_COORDINATOR_STATUS]"

section \<open>Untyped values\<close>

datatype js_value =
    JvUndefined
  | JvNull
  | JvBool bool
  | JvNum js_number
  | JvStr string
  | JvArr "js_value list"
  | JvObj "(string \<times> js_value) list"

text \<open>\<open>typeof raw === "object" && raw !== null\<close>, and a property of it.\<close>

fun is_object :: "js_value \<Rightarrow> bool" where
  "is_object (JvArr _) = True"
| "is_object (JvObj _) = True"
| "is_object _ = False"

fun js_field :: "string \<Rightarrow> js_value \<Rightarrow> js_value" where
  "js_field k (JvObj fs) = (case map_of fs k of Some v \<Rightarrow> v | None \<Rightarrow> JvUndefined)"
| "js_field k _ = JvUndefined"

fun as_string :: "js_value \<Rightarrow> string option" where
  "as_string (JvStr s) = Some s"
| "as_string _ = None"

definition hex_string :: "(string \<Rightarrow> bool) \<Rightarrow> js_value \<Rightarrow> string option" where
  "hex_string P v = (case as_string v of Some s \<Rightarrow> if P s then Some s else None | None \<Rightarrow> None)"

text \<open>\<open>typeof v === "number" && Number.isInteger(v) && v >= 0\<close>.\<close>

fun as_natural :: "js_value \<Rightarrow> int option" where
  "as_natural (JvNum n) = (case as_integer n of Some i \<Rightarrow> if i < 0 then None else Some i | None \<Rightarrow> None)"
| "as_natural _ = None"

fun all_some :: "'a option list \<Rightarrow> 'a list option" where
  "all_some [] = Some []"
| "all_some (None # _) = None"
| "all_some (Some x # xs) = map_option (Cons x) (all_some xs)"

fun string_array :: "js_value \<Rightarrow> string list option" where
  "string_array (JvArr xs) = all_some (map as_string xs)"
| "string_array _ = None"

fun string_arrays :: "js_value \<Rightarrow> tag list option" where
  "string_arrays (JvArr xs) = all_some (map string_array xs)"
| "string_arrays _ = None"

section \<open>Events\<close>

record rumor =
  ru_id :: string
  ru_pubkey :: pubkey
  ru_created_at :: int
  ru_kind :: int
  ru_tags :: "tag list"
  ru_content :: string

record seal =
  se_id :: string
  se_pubkey :: pubkey
  se_created_at :: js_number
  se_sig :: string
  se_content :: string

record gift_wrap =
  gw_id :: string
  gw_pubkey :: pubkey
  gw_created_at :: js_number
  gw_kind :: int
  gw_tags :: "tag list"
  gw_content :: string
  gw_sig :: string

datatype unwrap_error =
    NotAGiftWrap int
  | BadWrapSignature
  | Undecryptable
  | NotJson
  | SealNotObject | NotASeal | SealBadPubkey | SealBadId | SealBadSig | SealBadCreatedAt
  | SealBadContent | SealHasTags | SealBadSignature
  | RumorNotObject | RumorBadId | RumorBadPubkey | RumorBadKind | RumorKindRefused int
  | RumorBadCreatedAt | RumorBadTags | RumorBadContent
  | AuthorMismatch | IdMismatch
  | KindNotWrappable int

definition require :: "'a option \<Rightarrow> 'e \<Rightarrow> ('a \<Rightarrow> 'e + 'b) \<Rightarrow> 'e + 'b" where
  "require x e k = (case x of None \<Rightarrow> Inl e | Some v \<Rightarrow> k v)"

definition check :: "bool \<Rightarrow> 'e \<Rightarrow> 'e + 'b \<Rightarrow> 'e + 'b" where
  "check b e k = (if b then k else Inl e)"

lemma require_Inr [simp]: "require x e k = Inr r \<longleftrightarrow> (\<exists>v. x = Some v \<and> k v = Inr r)"
  by (cases x) (auto simp: require_def)

lemma check_Inr [simp]: "check b e k = Inr r \<longleftrightarrow> b \<and> k = Inr r"
  by (auto simp: check_def)

lemma require_Some [simp]: "require (Some v) e k = k v"
  by (simp add: require_def)

lemma check_True [simp]: "check True e k = k"
  by (simp add: check_def)

definition assertRumorShape :: "js_value \<Rightarrow> int list \<Rightarrow> unwrap_error + rumor" where
  "assertRumorShape raw allowedKinds =
     check (is_object raw) RumorNotObject (
     require (hex_string hex32 (js_field ''id'' raw)) RumorBadId (\<lambda>i.
     require (hex_string hex32 (js_field ''pubkey'' raw)) RumorBadPubkey (\<lambda>pk.
     require (as_natural (js_field ''kind'' raw)) RumorBadKind (\<lambda>kind.
     check (kind \<in> set allowedKinds) (RumorKindRefused kind) (
     require (as_natural (js_field ''created_at'' raw)) RumorBadCreatedAt (\<lambda>created.
     require (string_arrays (js_field ''tags'' raw)) RumorBadTags (\<lambda>tags.
     require (as_string (js_field ''content'' raw)) RumorBadContent (\<lambda>content.
       Inr \<lparr>ru_id = i, ru_pubkey = pk, ru_created_at = created, ru_kind = kind,
            ru_tags = tags, ru_content = content\<rparr>))))))))"

fun finite_number :: "js_value \<Rightarrow> js_number option" where
  "finite_number (JvNum n) = (if is_finite n then Some n else None)"
| "finite_number _ = None"

definition assertVerifiedSeal :: "(seal \<Rightarrow> bool) \<Rightarrow> js_value \<Rightarrow> unwrap_error + seal" where
  "assertVerifiedSeal verifySeal raw =
     check (is_object raw) SealNotObject (
     check (js_field ''kind'' raw = JvNum (Num (of_int KIND_SEAL))) NotASeal (
     require (hex_string hex32 (js_field ''pubkey'' raw)) SealBadPubkey (\<lambda>pk.
     require (hex_string hex32 (js_field ''id'' raw)) SealBadId (\<lambda>i.
     require (hex_string hex64 (js_field ''sig'' raw)) SealBadSig (\<lambda>sg.
     require (finite_number (js_field ''created_at'' raw)) SealBadCreatedAt (\<lambda>created.
     require (as_string (js_field ''content'' raw)) SealBadContent (\<lambda>content.
     check (js_field ''tags'' raw = JvArr []) SealHasTags (
     let s = \<lparr>se_id = i, se_pubkey = pk, se_created_at = created, se_sig = sg, se_content = content\<rparr>
     in check (verifySeal s) SealBadSignature (Inr s)))))))))"

section \<open>Timestamps\<close>

definition RUMOR_MAX_CLOCK_SKEW_SEC :: int where "RUMOR_MAX_CLOCK_SKEW_SEC = 15 * 60"
definition GIFTWRAP_MAX_BACKDATE_SEC :: int where "GIFTWRAP_MAX_BACKDATE_SEC = 2 * 24 * 60 * 60"

definition rumorEffectiveCreatedAt :: "int \<Rightarrow> int \<Rightarrow> int" where
  "rumorEffectiveCreatedAt createdAt nowSec =
     (let maxCreatedAt = nowSec + RUMOR_MAX_CLOCK_SKEW_SEC
      in if createdAt > maxCreatedAt then maxCreatedAt else createdAt)"

definition giftwrapSince :: "int \<Rightarrow> int" where
  "giftwrapSince nowSec = nowSec - GIFTWRAP_MAX_BACKDATE_SEC - 24 * 60 * 60"

section \<open>Unwrapping\<close>

record unwrapped_rumor =
  uw_rumor :: rumor
  uw_effectiveCreatedAt :: int

text \<open>\<open>getEventHash\<close> reads every field but the id.\<close>

type_synonym event_hash = "pubkey \<Rightarrow> int \<Rightarrow> int \<Rightarrow> tag list \<Rightarrow> string \<Rightarrow> string"

definition finalizeUnwrappedRumorEnvelope ::
  "event_hash \<Rightarrow> int \<Rightarrow> js_value \<Rightarrow> pubkey \<Rightarrow> int list \<Rightarrow> unwrap_error + unwrapped_rumor" where
  "finalizeUnwrappedRumorEnvelope getEventHash nowSec raw sealPubkey allowedKinds =
     (case assertRumorShape raw allowedKinds of
        Inl e \<Rightarrow> Inl e
      | Inr r \<Rightarrow>
          check (ru_pubkey r = sealPubkey) AuthorMismatch (
          check (ru_id r = getEventHash (ru_pubkey r) (ru_created_at r) (ru_kind r) (ru_tags r) (ru_content r))
            IdMismatch (
          Inr \<lparr>uw_rumor = r, uw_effectiveCreatedAt = rumorEffectiveCreatedAt (ru_created_at r) nowSec\<rparr>)))"

definition clamped_rumor :: "unwrapped_rumor \<Rightarrow> rumor" where
  "clamped_rumor u =
     (if uw_effectiveCreatedAt u = ru_created_at (uw_rumor u) then uw_rumor u
      else (uw_rumor u)\<lparr>ru_created_at := uw_effectiveCreatedAt u\<rparr>)"

definition finalizeUnwrappedRumor ::
  "event_hash \<Rightarrow> int \<Rightarrow> js_value \<Rightarrow> pubkey \<Rightarrow> int list \<Rightarrow> unwrap_error + rumor" where
  "finalizeUnwrappedRumor getEventHash nowSec raw sealPubkey allowedKinds =
     map_sum id clamped_rumor
       (finalizeUnwrappedRumorEnvelope getEventHash nowSec raw sealPubkey allowedKinds)"

definition unwrapRumorEnvelope ::
  "(gift_wrap \<Rightarrow> bool) \<Rightarrow> (seal \<Rightarrow> bool) \<Rightarrow> event_hash
   \<Rightarrow> ('sk \<Rightarrow> pubkey \<Rightarrow> string \<Rightarrow> string option) \<Rightarrow> (string \<Rightarrow> js_value option) \<Rightarrow> int
   \<Rightarrow> gift_wrap \<Rightarrow> 'sk \<Rightarrow> int list \<Rightarrow> unwrap_error + unwrapped_rumor" where
  "unwrapRumorEnvelope verifyWrap verifySeal getEventHash nip44Decrypt parse nowSec wrap sk allowedKinds =
     check (gw_kind wrap = KIND_GIFT_WRAP) (NotAGiftWrap (gw_kind wrap)) (
     check (verifyWrap wrap) BadWrapSignature (
     require (nip44Decrypt sk (gw_pubkey wrap) (gw_content wrap)) Undecryptable (\<lambda>sealText.
     require (parse sealText) NotJson (\<lambda>sealRaw.
     case assertVerifiedSeal verifySeal sealRaw of
       Inl e \<Rightarrow> Inl e
     | Inr s \<Rightarrow>
         require (nip44Decrypt sk (se_pubkey s) (se_content s)) Undecryptable (\<lambda>rumorText.
         require (parse rumorText) NotJson (\<lambda>rumorRaw.
           finalizeUnwrappedRumorEnvelope getEventHash nowSec rumorRaw (se_pubkey s) allowedKinds))))))"

definition unwrapRumor ::
  "(gift_wrap \<Rightarrow> bool) \<Rightarrow> (seal \<Rightarrow> bool) \<Rightarrow> event_hash
   \<Rightarrow> ('sk \<Rightarrow> pubkey \<Rightarrow> string \<Rightarrow> string option) \<Rightarrow> (string \<Rightarrow> js_value option) \<Rightarrow> int
   \<Rightarrow> gift_wrap \<Rightarrow> 'sk \<Rightarrow> int list \<Rightarrow> unwrap_error + rumor" where
  "unwrapRumor verifyWrap verifySeal getEventHash nip44Decrypt parse nowSec wrap sk allowedKinds =
     map_sum id clamped_rumor
       (unwrapRumorEnvelope verifyWrap verifySeal getEventHash nip44Decrypt parse nowSec wrap sk allowedKinds)"

section \<open>Wrapping\<close>

record rumor_input =
  ri_kind :: int
  ri_content :: string
  ri_tags :: "tag list option"
  ri_created_at :: "int option"

text \<open>
  \<open>content\<close> is the string the code serializes to; \<open>wrapEvent\<close> of nostr-tools takes the kind, the
  content, the tags and the timestamp it may have to fill in.
\<close>

definition wrapRumor ::
  "(int \<Rightarrow> string \<Rightarrow> tag list \<Rightarrow> int option \<Rightarrow> 'sk \<Rightarrow> pubkey \<Rightarrow> gift_wrap)
   \<Rightarrow> 'sk \<Rightarrow> pubkey \<Rightarrow> rumor_input \<Rightarrow> unwrap_error + gift_wrap" where
  "wrapRumor wrapEvent sk recipient input =
     check (ri_kind input \<in> set RUMOR_KINDS) (KindNotWrappable (ri_kind input)) (
       Inr (wrapEvent (ri_kind input) (ri_content input)
              (case ri_tags input of Some ts \<Rightarrow> ts | None \<Rightarrow> []) (ri_created_at input) sk recipient))"


section \<open>What an accepted rumor is\<close>

lemma as_natural_Some: "as_natural v = Some i \<longleftrightarrow> v = JvNum (Num (of_int i)) \<and> 0 \<le> i"
  by (cases v) (auto simp: as_integer_Some split: option.splits if_splits)

lemma as_string_Some: "as_string v = Some s \<longleftrightarrow> v = JvStr s"
  by (cases v) auto

lemma hex_string_Some: "hex_string P v = Some s \<longleftrightarrow> v = JvStr s \<and> P s"
  by (auto simp: hex_string_def as_string_Some split: option.splits)

lemma assertRumorShape_Inr:
  "assertRumorShape raw kinds = Inr r \<longleftrightarrow>
     is_object raw \<and> js_field ''id'' raw = JvStr (ru_id r) \<and> hex32 (ru_id r) \<and>
     js_field ''pubkey'' raw = JvStr (ru_pubkey r) \<and> hex32 (ru_pubkey r) \<and>
     js_field ''kind'' raw = JvNum (Num (of_int (ru_kind r))) \<and> 0 \<le> ru_kind r \<and> ru_kind r \<in> set kinds \<and>
     js_field ''created_at'' raw = JvNum (Num (of_int (ru_created_at r))) \<and> 0 \<le> ru_created_at r \<and>
     string_arrays (js_field ''tags'' raw) = Some (ru_tags r) \<and>
     js_field ''content'' raw = JvStr (ru_content r)"
  unfolding assertRumorShape_def
  by (auto simp: hex_string_Some as_natural_Some as_string_Some intro!: rumor.equality)

lemma seal_eta [simp]:
  "\<lparr>se_id = se_id s, se_pubkey = se_pubkey s, se_created_at = se_created_at s, se_sig = se_sig s,
    se_content = se_content s\<rparr> = s"
  by simp

lemma sum_case_Inr: "(case x of Inl e \<Rightarrow> Inl e | Inr s \<Rightarrow> k s) = Inr u \<longleftrightarrow> (\<exists>s. x = Inr s \<and> k s = Inr u)"
  by (cases x) auto

lemma assertVerifiedSeal_Inr:
  "assertVerifiedSeal verifySeal raw = Inr s \<longleftrightarrow>
     is_object raw \<and> js_field ''kind'' raw = JvNum (Num (of_int KIND_SEAL)) \<and>
     js_field ''pubkey'' raw = JvStr (se_pubkey s) \<and> hex32 (se_pubkey s) \<and>
     js_field ''id'' raw = JvStr (se_id s) \<and> hex32 (se_id s) \<and>
     js_field ''sig'' raw = JvStr (se_sig s) \<and> hex64 (se_sig s) \<and>
     finite_number (js_field ''created_at'' raw) = Some (se_created_at s) \<and>
     js_field ''content'' raw = JvStr (se_content s) \<and>
     js_field ''tags'' raw = JvArr [] \<and> verifySeal s"
  unfolding assertVerifiedSeal_def Let_def
  by (auto simp: hex_string_Some as_string_Some intro!: seal.equality)

lemma finalize_Inr:
  "finalizeUnwrappedRumorEnvelope h now raw pk kinds = Inr u \<longleftrightarrow>
     (\<exists>r. assertRumorShape raw kinds = Inr r \<and> ru_pubkey r = pk \<and>
        ru_id r = h (ru_pubkey r) (ru_created_at r) (ru_kind r) (ru_tags r) (ru_content r) \<and>
        u = \<lparr>uw_rumor = r, uw_effectiveCreatedAt = rumorEffectiveCreatedAt (ru_created_at r) now\<rparr>)"
  by (cases "assertRumorShape raw kinds") (auto simp: finalizeUnwrappedRumorEnvelope_def)

lemma unwrap_Inr:
  "unwrapRumorEnvelope vw vs h dec parse now wrap sk kinds = Inr u \<longleftrightarrow>
     gw_kind wrap = KIND_GIFT_WRAP \<and> vw wrap \<and>
     (\<exists>st sraw s rt rraw. dec sk (gw_pubkey wrap) (gw_content wrap) = Some st \<and> parse st = Some sraw \<and>
        assertVerifiedSeal vs sraw = Inr s \<and>
        dec sk (se_pubkey s) (se_content s) = Some rt \<and> parse rt = Some rraw \<and>
        finalizeUnwrappedRumorEnvelope h now rraw (se_pubkey s) kinds = Inr u)"
  unfolding unwrapRumorEnvelope_def check_Inr require_Inr sum_case_Inr by blast

lemma effective_bounds:
  "rumorEffectiveCreatedAt c now = min c (now + RUMOR_MAX_CLOCK_SKEW_SEC)"
  by (simp add: rumorEffectiveCreatedAt_def Let_def min_def)

text \<open>
  (C8) A rumor that is unwrapped was authored by the identity it claims: the outer wrap verified,
  and it was the content of a seal whose own signature verified under that identity, with kind 13
  and no tags. Its id is the hash of its contents, its kind is one this key accepts, its timestamp
  is a non-negative integer, and the timestamp used for ordering is at most fifteen minutes ahead.
\<close>

theorem unwrap_authenticates:
  assumes "unwrapRumorEnvelope verifyWrap verifySeal getEventHash dec parse now wrap sk kinds = Inr u"
  shows "let r = uw_rumor u in
     gw_kind wrap = KIND_GIFT_WRAP \<and> verifyWrap wrap \<and>
     (\<exists>s. verifySeal s \<and> se_pubkey s = ru_pubkey r \<and>
        (\<exists>sealText sealRaw text raw.
           dec sk (gw_pubkey wrap) (gw_content wrap) = Some sealText \<and> parse sealText = Some sealRaw \<and>
           js_field ''tags'' sealRaw = JvArr [] \<and> js_field ''kind'' sealRaw = JvNum (Num (of_int KIND_SEAL)) \<and>
           js_field ''content'' sealRaw = JvStr (se_content s) \<and>
           dec sk (se_pubkey s) (se_content s) = Some text \<and> parse text = Some raw \<and>
           js_field ''content'' raw = JvStr (ru_content r) \<and>
           string_arrays (js_field ''tags'' raw) = Some (ru_tags r))) \<and>
     ru_id r = getEventHash (ru_pubkey r) (ru_created_at r) (ru_kind r) (ru_tags r) (ru_content r) \<and>
     ru_kind r \<in> set kinds \<and> 0 \<le> ru_created_at r \<and>
     uw_effectiveCreatedAt u = min (ru_created_at r) (now + RUMOR_MAX_CLOCK_SKEW_SEC)"
proof -
  obtain st sraw s rt rraw where
    outer: "gw_kind wrap = KIND_GIFT_WRAP" "verifyWrap wrap"
      "dec sk (gw_pubkey wrap) (gw_content wrap) = Some st" "parse st = Some sraw"
    and seal: "assertVerifiedSeal verifySeal sraw = Inr s"
    and inner: "dec sk (se_pubkey s) (se_content s) = Some rt" "parse rt = Some rraw"
    and fin: "finalizeUnwrappedRumorEnvelope getEventHash now rraw (se_pubkey s) kinds = Inr u"
    using assms by (auto simp: unwrap_Inr)
  note sl = seal [unfolded assertVerifiedSeal_Inr]
  obtain r where r: "assertRumorShape rraw kinds = Inr r" "ru_pubkey r = se_pubkey s"
    "ru_id r = getEventHash (ru_pubkey r) (ru_created_at r) (ru_kind r) (ru_tags r) (ru_content r)"
    and u: "u = \<lparr>uw_rumor = r, uw_effectiveCreatedAt = rumorEffectiveCreatedAt (ru_created_at r) now\<rparr>"
    using fin by (auto simp: finalize_Inr)
  note sh = r(1) [unfolded assertRumorShape_Inr]
  have "\<exists>s. verifySeal s \<and> se_pubkey s = ru_pubkey r \<and>
        (\<exists>sealText sealRaw text raw.
           dec sk (gw_pubkey wrap) (gw_content wrap) = Some sealText \<and> parse sealText = Some sealRaw \<and>
           js_field ''tags'' sealRaw = JvArr [] \<and> js_field ''kind'' sealRaw = JvNum (Num (of_int KIND_SEAL)) \<and>
           js_field ''content'' sealRaw = JvStr (se_content s) \<and>
           dec sk (se_pubkey s) (se_content s) = Some text \<and> parse text = Some raw \<and>
           js_field ''content'' raw = JvStr (ru_content r) \<and>
           string_arrays (js_field ''tags'' raw) = Some (ru_tags r))"
    using outer sl inner sh r(2) by (intro exI [of _ s] conjI exI [of _ st] exI [of _ sraw] exI [of _ rt]
        exI [of _ rraw]) simp_all
  then show ?thesis using outer(1,2) r(3) sh by (simp add: u effective_bounds)
qed

text \<open>
  The rumor handed to timestamp-clamping consumers is the authenticated one in every field
  but the timestamp, which is never more than the clock skew ahead and never later than signed.
\<close>

theorem unwrapRumor_clamps:
  assumes "unwrapRumor vw vs h dec parse now wrap sk kinds = Inr r"
  shows "\<exists>u. unwrapRumorEnvelope vw vs h dec parse now wrap sk kinds = Inr u \<and>
     r = (uw_rumor u)\<lparr>ru_created_at := min (ru_created_at (uw_rumor u)) (now + RUMOR_MAX_CLOCK_SKEW_SEC)\<rparr> \<and>
     ru_created_at r \<le> now + RUMOR_MAX_CLOCK_SKEW_SEC"
proof -
  obtain u where u: "unwrapRumorEnvelope vw vs h dec parse now wrap sk kinds = Inr u" "r = clamped_rumor u"
    using assms by (cases "unwrapRumorEnvelope vw vs h dec parse now wrap sk kinds") (auto simp: unwrapRumor_def)
  have "uw_effectiveCreatedAt u = min (ru_created_at (uw_rumor u)) (now + RUMOR_MAX_CLOCK_SKEW_SEC)"
    using u(1) by (auto simp: unwrap_Inr finalize_Inr effective_bounds)
  then show ?thesis using u by (auto simp: clamped_rumor_def min_def intro!: rumor.equality)
qed

section \<open>Allowlists\<close>

lemma unwrap_kind:
  "unwrapRumorEnvelope vw vs h dec parse now wrap sk kinds = Inr u \<Longrightarrow> ru_kind (uw_rumor u) \<in> set kinds"
  by (auto simp: unwrap_Inr finalize_Inr assertRumorShape_Inr)

text \<open>
  What the public event inbox accepts, no authority-bearing key accepts: a rumor unwrapped
  with the event inbox's kinds has a kind that unwrapping for the coordinator, an organizer or an
  attendee refuses, so an install grant or an admin command is never taken off an event inbox.
\<close>

theorem event_inbox_kinds_disjoint:
  assumes "unwrapRumorEnvelope vw vs h dec parse now wrap sk EVENT_INBOX_RUMOR_KINDS = Inr u"
    and "unwrapRumorEnvelope vw' vs' h' dec' parse' now' wrap' sk' kinds = Inr u'"
    and "kinds \<in> {COORDINATOR_RUMOR_KINDS, ORGANIZER_RUMOR_KINDS, ATTENDEE_RUMOR_KINDS}"
  shows "ru_kind (uw_rumor u) \<noteq> ru_kind (uw_rumor u') \<and>
         ru_kind (uw_rumor u) \<in> set RUMOR_KINDS \<and> ru_kind (uw_rumor u') \<in> set RUMOR_KINDS"
proof -
  have "set EVENT_INBOX_RUMOR_KINDS \<inter> set kinds = {}"
    "set EVENT_INBOX_RUMOR_KINDS \<subseteq> set RUMOR_KINDS" "set kinds \<subseteq> set RUMOR_KINDS"
    using assms(3) by (auto simp: kind_defs EVENT_INBOX_RUMOR_KINDS_def COORDINATOR_RUMOR_KINDS_def
      ORGANIZER_RUMOR_KINDS_def ATTENDEE_RUMOR_KINDS_def RUMOR_KINDS_def)
  then show ?thesis using unwrap_kind [OF assms(1)] unwrap_kind [OF assms(2)] by auto
qed

section \<open>Round trip\<close>

text \<open>
  What NIP-59 promises of a wrap: it opens with the recipient's key to a signed seal by the
  sender, which opens to the rumor with the given contents and its hash for an id.
\<close>

definition seal_value :: "seal \<Rightarrow> js_value" where
  "seal_value s = JvObj [(''kind'', JvNum (Num (of_int KIND_SEAL))), (''pubkey'', JvStr (se_pubkey s)),
     (''id'', JvStr (se_id s)), (''sig'', JvStr (se_sig s)), (''created_at'', JvNum (se_created_at s)),
     (''content'', JvStr (se_content s)), (''tags'', JvArr [])]"

definition rumor_value :: "rumor \<Rightarrow> js_value" where
  "rumor_value r = JvObj [(''kind'', JvNum (Num (of_int (ru_kind r)))), (''pubkey'', JvStr (ru_pubkey r)),
     (''id'', JvStr (ru_id r)), (''created_at'', JvNum (Num (of_int (ru_created_at r)))),
     (''content'', JvStr (ru_content r)), (''tags'', JvArr (map (\<lambda>t. JvArr (map JvStr t)) (ru_tags r)))]"

definition delivers ::
  "(gift_wrap \<Rightarrow> bool) \<Rightarrow> (seal \<Rightarrow> bool) \<Rightarrow> ('sk \<Rightarrow> pubkey \<Rightarrow> string \<Rightarrow> string option)
   \<Rightarrow> (string \<Rightarrow> js_value option) \<Rightarrow> 'sk \<Rightarrow> gift_wrap \<Rightarrow> rumor \<Rightarrow> bool" where
  "delivers vw vs dec parse sk w r \<longleftrightarrow>
     gw_kind w = KIND_GIFT_WRAP \<and> vw w \<and>
     (\<exists>st s rt. dec sk (gw_pubkey w) (gw_content w) = Some st \<and> parse st = Some (seal_value s) \<and>
        vs s \<and> se_pubkey s = ru_pubkey r \<and> hex32 (se_id s) \<and> hex64 (se_sig s) \<and> is_finite (se_created_at s) \<and>
        dec sk (se_pubkey s) (se_content s) = Some rt \<and> parse rt = Some (rumor_value r))"

lemma all_some_map: "(\<And>x. x \<in> set xs \<Longrightarrow> f x = Some (g x)) \<Longrightarrow> all_some (map f xs) = Some (map g xs)"
  by (induction xs) auto

lemma string_arrays_value: "string_arrays (JvArr (map (\<lambda>t. JvArr (map JvStr t)) ts)) = Some ts"
proof -
  have "string_array (JvArr (map JvStr t)) = Some t" for t
    using all_some_map [of t "\<lambda>x. as_string (JvStr x)" id] by (simp add: comp_def)
  then show ?thesis
    using all_some_map [of ts "\<lambda>t. string_array (JvArr (map JvStr t))" id] by (simp add: comp_def)
qed


text \<open>
  The subscription window reaches back over the whole backdating range: a wrap published up
  to a day ago, backdated by less than the maximum, is inside it.
\<close>

lemma giftwrapSince_covers:
  assumes "publishedAt \<ge> now - 24 * 60 * 60" "0 \<le> jitter" "jitter \<le> GIFTWRAP_MAX_BACKDATE_SEC"
  shows "giftwrapSince now \<le> publishedAt - jitter"
  using assms by (simp add: giftwrapSince_def)


section \<open>At a concrete wrap\<close>

definition toy_rumor :: rumor where
  "toy_rumor = \<lparr>ru_id = replicate 64 CHR ''a'', ru_pubkey = replicate 64 CHR ''b'', ru_created_at = 5000,
     ru_kind = KIND_JOIN_REQUEST, ru_tags = [[''a'', ''x'']], ru_content = ''hello''\<rparr>"

definition toy_seal :: seal where
  "toy_seal = \<lparr>se_id = replicate 64 CHR ''c'', se_pubkey = replicate 64 CHR ''b'', se_created_at = Num 7,
     se_sig = replicate 128 CHR ''d'', se_content = ''R''\<rparr>"

definition toy_wrap :: gift_wrap where
  "toy_wrap = \<lparr>gw_id = [], gw_pubkey = ''k'', gw_created_at = Num 3, gw_kind = KIND_GIFT_WRAP, gw_tags = [],
     gw_content = ''S'', gw_sig = []\<rparr>"

definition toy_parse :: "string \<Rightarrow> js_value option" where
  "toy_parse t = (if t = ''S'' then Some (seal_value toy_seal)
                  else if t = ''R'' then Some (rumor_value toy_rumor) else None)"

definition toy_hash :: event_hash where
  "toy_hash pk c k ts content = replicate 64 CHR ''a''"

definition toy_input :: rumor_input where
  "toy_input = \<lparr>ri_kind = KIND_JOIN_REQUEST, ri_content = ''hello'', ri_tags = Some [[''a'', ''x'']],
     ri_created_at = Some 5000\<rparr>"

lemma toy_hex [simp]: "hex32 (replicate 64 CHR ''a'')" "hex32 (replicate 64 CHR ''b'')"
  "hex32 (replicate 64 CHR ''c'')" "hex64 (replicate 128 CHR ''d'')"
  by (simp_all add: hex32_def hex64_def is_lower_hex_def is_digit_def list.pred_set)

lemma toy_delivers:
  "delivers (\<lambda>_. True) (\<lambda>_. True) (\<lambda>_ _ c. Some c) toy_parse () toy_wrap toy_rumor"
  unfolding delivers_def
  by (intro conjI exI [of _ "''S''"] exI [of _ toy_seal] exI [of _ "''R''"])
    (simp_all add: toy_wrap_def toy_parse_def, simp_all add: toy_seal_def toy_rumor_def)

lemma toy_kinds: "KIND_JOIN_REQUEST \<in> set EVENT_INBOX_RUMOR_KINDS" "KIND_JOIN_REQUEST \<in> set RUMOR_KINDS"
  by (simp_all add: EVENT_INBOX_RUMOR_KINDS_def RUMOR_KINDS_def)


lemma toy_shape: "assertRumorShape (rumor_value toy_rumor) EVENT_INBOX_RUMOR_KINDS = Inr toy_rumor"
  using string_arrays_value [of "ru_tags toy_rumor"] toy_kinds
  by (simp add: assertRumorShape_Inr rumor_value_def) (simp add: toy_rumor_def kind_defs)

lemma toy_unwraps:
  "unwrapRumorEnvelope (\<lambda>_. True) (\<lambda>_. True) toy_hash (\<lambda>_ _ c. Some c) toy_parse 100 toy_wrap ()
     EVENT_INBOX_RUMOR_KINDS = Inr \<lparr>uw_rumor = toy_rumor, uw_effectiveCreatedAt = 1000\<rparr>"
proof -
  have "assertVerifiedSeal (\<lambda>_. True) (seal_value toy_seal) = Inr toy_seal"
    by (simp add: assertVerifiedSeal_Inr seal_value_def) (simp add: toy_seal_def)
  then show ?thesis
    using toy_shape
    by (simp add: unwrap_Inr finalize_Inr toy_wrap_def toy_parse_def toy_hash_def effective_bounds
        RUMOR_MAX_CLOCK_SKEW_SEC_def)
      (simp add: toy_seal_def toy_rumor_def)
qed

lemma unwrap_authenticates_witness:
  "ru_kind toy_rumor \<in> set EVENT_INBOX_RUMOR_KINDS \<and> min (ru_created_at toy_rumor) (100 + RUMOR_MAX_CLOCK_SKEW_SEC) = 1000"
  using unwrap_authenticates [OF toy_unwraps] by (simp add: Let_def)

lemma unwrapRumor_clamps_witness: "ru_created_at (toy_rumor\<lparr>ru_created_at := 1000\<rparr>) \<le> 100 + RUMOR_MAX_CLOCK_SKEW_SEC"
proof -
  have "unwrapRumor (\<lambda>_. True) (\<lambda>_. True) toy_hash (\<lambda>_ _ c. Some c) toy_parse 100 toy_wrap ()
     EVENT_INBOX_RUMOR_KINDS = Inr (toy_rumor\<lparr>ru_created_at := 1000\<rparr>)"
    by (simp add: unwrapRumor_def toy_unwraps clamped_rumor_def toy_rumor_def)
  from unwrapRumor_clamps [OF this] show ?thesis by blast
qed

definition toy_grant :: rumor where "toy_grant = toy_rumor\<lparr>ru_kind := KIND_COORDINATOR_GRANT\<rparr>"

definition toy_parse_grant :: "string \<Rightarrow> js_value option" where
  "toy_parse_grant t = (if t = ''S'' then Some (seal_value toy_seal)
                        else if t = ''R'' then Some (rumor_value toy_grant) else None)"

lemma toy_grant_unwraps:
  "unwrapRumorEnvelope (\<lambda>_. True) (\<lambda>_. True) toy_hash (\<lambda>_ _ c. Some c) toy_parse_grant 100 toy_wrap ()
     COORDINATOR_RUMOR_KINDS = Inr \<lparr>uw_rumor = toy_grant, uw_effectiveCreatedAt = 1000\<rparr>"
proof -
  have "assertRumorShape (rumor_value toy_grant) COORDINATOR_RUMOR_KINDS = Inr toy_grant"
    using string_arrays_value [of "ru_tags toy_grant"]
    by (simp add: assertRumorShape_Inr rumor_value_def)
      (simp add: toy_grant_def toy_rumor_def kind_defs COORDINATOR_RUMOR_KINDS_def)
  moreover have "assertVerifiedSeal (\<lambda>_. True) (seal_value toy_seal) = Inr toy_seal"
    by (simp add: assertVerifiedSeal_Inr seal_value_def) (simp add: toy_seal_def)
  ultimately show ?thesis
    by (simp add: unwrap_Inr finalize_Inr toy_wrap_def toy_parse_grant_def toy_hash_def effective_bounds
        RUMOR_MAX_CLOCK_SKEW_SEC_def)
      (simp add: toy_seal_def toy_grant_def toy_rumor_def)
qed

lemma event_inbox_kinds_disjoint_witness: "ru_kind toy_rumor \<noteq> ru_kind toy_grant"
  using event_inbox_kinds_disjoint [OF toy_unwraps toy_grant_unwraps] by simp

end
