(* ===== verification/Stamps.thy ===== *)
theory Stamps
  imports Prelude
begin

text \<open>
  The contract of a monotone stamp per address, which both publishers of replaceable events rely on:
  the coordinator's publish watermark (\<open>Event_Store\<close>) and the app's (\<open>Monotonic\<close>). A stamp lies above
  the last one recorded for its address and is recorded in turn; whatever else happens may only
  raise a record. Then the stamps handed out for one address increase over any run. The laws are required
  of the states and the other steps that satisfy \<open>ok\<close> and \<open>harmless\<close>.
\<close>

section \<open>Monotone stamps\<close>

locale stamper =
  fixes last_stamp :: "'s \<Rightarrow> 'k \<Rightarrow> int option"
    and next_stamp :: "'k \<Rightarrow> 'c \<Rightarrow> 's \<Rightarrow> int \<times> 's"
    and least :: "'c \<Rightarrow> int"
    and other_step :: "'o \<Rightarrow> 's \<Rightarrow> 's"
    and ok :: "'s \<Rightarrow> bool"
    and harmless :: "'o \<Rightarrow> bool"
  assumes above_last: "ok s \<Longrightarrow> last_stamp s k = Some l \<Longrightarrow> l < fst (next_stamp k now s)"
    and above_now: "ok s \<Longrightarrow> least now \<le> fst (next_stamp k now s)"
    and records: "ok s \<Longrightarrow> last_stamp (snd (next_stamp k now s)) k = Some (fst (next_stamp k now s))"
    and frames: "ok s \<Longrightarrow> last_stamp s k' = Some l \<Longrightarrow>
      \<exists>l'\<ge>l. last_stamp (snd (next_stamp k now s)) k' = Some l'"
    and next_ok: "ok s \<Longrightarrow> ok (snd (next_stamp k now s))"
    and other_keeps: "ok s \<Longrightarrow> harmless p \<Longrightarrow> last_stamp s k = Some l \<Longrightarrow>
      \<exists>l'\<ge>l. last_stamp (other_step p s) k = Some l'"
    and other_ok: "ok s \<Longrightarrow> harmless p \<Longrightarrow> ok (other_step p s)"
begin

text \<open>The stamps handed out in a run that mixes requests with other steps, and those of one key.\<close>

fun stamp_all :: "('k \<times> 'c + 'o) list \<Rightarrow> 's \<Rightarrow> ('k \<times> int) list" where
  "stamp_all [] s = []"
| "stamp_all (Inl (k, now) # rs) s =
     (k, fst (next_stamp k now s)) # stamp_all rs (snd (next_stamp k now s))"
| "stamp_all (Inr p # rs) s = stamp_all rs (other_step p s)"

fun all_harmless :: "('k \<times> 'c + 'o) list \<Rightarrow> bool" where
  "all_harmless [] = True"
| "all_harmless (Inl _ # rs) = all_harmless rs"
| "all_harmless (Inr p # rs) = (harmless p \<and> all_harmless rs)"

definition stamps_of :: "'k \<Rightarrow> ('k \<times> int) list \<Rightarrow> int list" where
  "stamps_of k ps = map snd (filter (\<lambda>p. fst p = k) ps)"

lemma stamps_of_simps [simp]:
  "stamps_of k [] = []" "stamps_of k ((k', x) # ps) = (if k' = k then x # stamps_of k ps else stamps_of k ps)"
  by (simp_all add: stamps_of_def)

lemma stamps_above_last:
  "ok s \<Longrightarrow> all_harmless rs \<Longrightarrow> last_stamp s k = Some l \<Longrightarrow> x \<in> set (stamps_of k (stamp_all rs s)) \<Longrightarrow> l < x"
proof (induction rs s arbitrary: l rule: stamp_all.induct)
  case (2 k' now rs s)
  note ok = 2(2) and rs = next_ok [OF 2(2)]
  have harmless: "all_harmless rs" using 2(3) by simp
  show ?case
  proof (cases "k' = k")
    case True
    have first: "l < fst (next_stamp k now s)" using 2(4) above_last [OF ok] by blast
    from 2(5) True consider (this_one) "x = fst (next_stamp k now s)"
      | (later) "x \<in> set (stamps_of k (stamp_all rs (snd (next_stamp k now s))))" by auto
    then show ?thesis
    proof cases
      case later
      then have "fst (next_stamp k now s) < x"
        using 2(1) rs harmless records [OF ok, of k now] unfolding True by metis
      then show ?thesis using first by simp
    qed (use first in simp)
  next
    case False
    from frames [OF ok 2(4)] obtain l' where l': "l \<le> l'"
        "last_stamp (snd (next_stamp k' now s)) k = Some l'" by blast
    have "l' < x" using 2(1) [OF rs harmless l'(2)] 2(5) False by simp
    then show ?thesis using l'(1) by simp
  qed
next
  case (3 p rs s)
  from 3(3) have harmless: "harmless p" "all_harmless rs" by simp_all
  obtain l' where l': "l \<le> l'" "last_stamp (other_step p s) k = Some l'"
    using other_keeps [OF 3(2) harmless(1) 3(4)] by blast
  have "l' < x" using 3(1) [OF other_ok [OF 3(2) harmless(1)] harmless(2) l'(2)] 3(5) by simp
  then show ?case using l'(1) by simp
qed simp

lemma stamps_increase: "ok s \<Longrightarrow> all_harmless rs \<Longrightarrow> sorted_wrt (<) (stamps_of k (stamp_all rs s))"
proof (induction rs s rule: stamp_all.induct)
  case (2 k' now rs s)
  note later = stamps_above_last [OF next_ok [OF 2(2)] _ records [OF 2(2)]]
  show ?case using 2(1) [OF next_ok [OF 2(2)]] 2(3) later by auto
next
  case (3 p rs s)
  then show ?case using other_ok by simp
qed simp_all

end

end
