(* ===== verification/Event_Store.thy ===== *)
theory Event_Store
  imports Stamps
begin

text \<open>
  The coordinator's durable event state (\<open>packages/coordinator/src/store/db.ts\<close>): seen rumors,
  inbox rate windows, installed events, the publish watermark, the per-subject command operations,
  install generations with the detach ledger, attendees, revocations and invite redemptions.

  A table with a primary key is an association list in row order (an upsert replaces in place or
  appends); attendees are a list of rows, since queries filter and order them. At-rest encryption
  (\<open>protect\<close>/\<open>reveal\<close>) is a pair of arguments where a column is encrypted. Clocks are not
  negative, so \<open>%\<close> is \<open>mod\<close>; where a query orders by a column only, ties keep row order.

  The publish watermark is an instance of the contract of \<open>Stamps\<close>: whatever else the store does in
  between, the stamps handed out for one address increase.
\<close>

section \<open>The store\<close>

record event_row =
  ev_config_json :: string
  ev_inbox_nsec :: string
  ev_eck_json :: string
  ev_config_relays :: string
  ev_gen :: nat
  ev_updated_at :: int
  ev_retention_expired :: bool
  ev_pending_relays :: "string list option"
  ev_event_end_sec :: int

record attendee_row =
  ar_coordinate :: string
  ar_pubkey :: pubkey
  ar_role :: string
  ar_status :: string
  ar_profile_json :: "string option"
  ar_ai_profile_json :: "string option"
  ar_profile_hash :: "string option"
  ar_source_revision :: "string option"
  ar_ai_source_revision :: "string option"
  ar_transcripts_json :: "string option"
  ar_correction_json :: "string option"
  ar_display_name :: "string option"
  ar_profile_rev :: "int option"
  ar_profile_created_at :: "int option"
  ar_profile_rumor_id :: "string option"
  ar_correction_rev :: "int option"
  ar_correction_created_at :: "int option"
  ar_correction_rumor_id :: "string option"
  ar_updated_at :: int

datatype op_state = OpPending | OpComplete

record command_op =
  op_created_at :: int
  op_rumor_id :: string
  op_state :: op_state
  op_progress :: "string option"

record install_row =
  in_high_gen :: nat
  in_tombstoned :: bool
  in_detached_at :: "int option"

record invite_use =
  iu_coordinate :: string
  iu_invite_pubkey :: pubkey
  iu_used_by :: pubkey
  iu_used_at :: int

record event_store =
  st_seen :: "(string \<times> int) list"
  st_rate :: "((string \<times> pubkey) \<times> (int \<times> nat)) list"
  st_events :: "(string \<times> event_row) list"
  st_publish :: "(string \<times> int) list"
  st_reissue :: "((string \<times> string \<times> nat) \<times> int) list"
  st_commands :: "((string \<times> string) \<times> command_op) list"
  st_install :: "(string \<times> install_row) list"
  st_detached :: "(string \<times> (int \<times> int)) list"
  st_attendees :: "attendee_row list"
  st_revocations :: "((string \<times> pubkey) \<times> int) list"
  st_invites :: "invite_use list"

section \<open>Seen rumors and inbox rates\<close>

definition isRumorSeen :: "string \<Rightarrow> event_store \<Rightarrow> bool" where
  "isRumorSeen i s \<longleftrightarrow> map_of (st_seen s) i \<noteq> None"

definition markRumorSeen :: "string \<Rightarrow> int \<Rightarrow> event_store \<Rightarrow> bool \<times> event_store" where
  "markRumorSeen i now s =
     (if isRumorSeen i s then (False, s) else (True, s\<lparr>st_seen := st_seen s @ [(i, now)]\<rparr>))"

definition window_start :: "int \<Rightarrow> int \<Rightarrow> int" where
  "window_start now windowMs = (if windowMs > 0 then now - now mod windowMs else now)"

definition peekInboxRate :: "string \<Rightarrow> pubkey \<Rightarrow> int \<Rightarrow> int \<Rightarrow> event_store \<Rightarrow> nat" where
  "peekInboxRate coordinate pk now windowMs s =
     (case map_of (st_rate s) (coordinate, pk) of
        Some (w, n) \<Rightarrow> if w = window_start now windowMs then n else 0
      | None \<Rightarrow> 0)"

definition bumpInboxRate :: "string \<Rightarrow> pubkey \<Rightarrow> int \<Rightarrow> int \<Rightarrow> event_store \<Rightarrow> nat \<times> event_store" where
  "bumpInboxRate coordinate pk now windowMs s =
     (let w = window_start now windowMs;
          count = (case map_of (st_rate s) (coordinate, pk) of
                     Some (w', n) \<Rightarrow> if w' = w then n + 1 else 1
                   | None \<Rightarrow> 1)
      in (count, s\<lparr>st_rate := AList.update (coordinate, pk) (w, count) (st_rate s)\<rparr>))"

section \<open>Installed events\<close>

record upsert_event =
  ue_coordinate :: string
  ue_configJson :: string
  ue_inboxNsec :: string
  ue_eckJson :: string
  ue_configRelays :: string
  ue_gen :: "nat option"
  ue_now :: int

definition upsertEvent :: "(string \<Rightarrow> string) \<Rightarrow> upsert_event \<Rightarrow> event_store \<Rightarrow> event_store" where
  "upsertEvent protect row s =
     s\<lparr>st_events := AList.update (ue_coordinate row)
        (case map_of (st_events s) (ue_coordinate row) of
           None \<Rightarrow>
             \<lparr>ev_config_json = ue_configJson row, ev_inbox_nsec = protect (ue_inboxNsec row),
              ev_eck_json = protect (ue_eckJson row), ev_config_relays = ue_configRelays row,
              ev_gen = (case ue_gen row of Some g \<Rightarrow> g | None \<Rightarrow> 0), ev_updated_at = ue_now row,
              ev_retention_expired = False, ev_pending_relays = None, ev_event_end_sec = 0\<rparr>
         | Some e \<Rightarrow>
             e\<lparr>ev_config_json := ue_configJson row, ev_inbox_nsec := protect (ue_inboxNsec row),
               ev_eck_json := protect (ue_eckJson row), ev_config_relays := ue_configRelays row,
               ev_gen := (case ue_gen row of Some g \<Rightarrow> g | None \<Rightarrow> ev_gen e), ev_updated_at := ue_now row\<rparr>)
        (st_events s)\<rparr>"

definition getEvent :: "(string \<Rightarrow> string) \<Rightarrow> string \<Rightarrow> event_store \<Rightarrow> event_row option" where
  "getEvent reveal coordinate s =
     map_option (\<lambda>e. e\<lparr>ev_inbox_nsec := reveal (ev_inbox_nsec e), ev_eck_json := reveal (ev_eck_json e)\<rparr>)
       (map_of (st_events s) coordinate)"

definition deleteEvent :: "string \<Rightarrow> event_store \<Rightarrow> event_store" where
  "deleteEvent coordinate s = s\<lparr>st_events := AList.delete coordinate (st_events s)\<rparr>"

definition update_event :: "string \<Rightarrow> (event_row \<Rightarrow> event_row) \<Rightarrow> event_store \<Rightarrow> event_store" where
  "update_event coordinate f s =
     s\<lparr>st_events := map (\<lambda>(c, e). (c, if c = coordinate then f e else e)) (st_events s)\<rparr>"

definition isRetentionExpired :: "string \<Rightarrow> event_store \<Rightarrow> bool" where
  "isRetentionExpired coordinate s =
     (case map_of (st_events s) coordinate of Some e \<Rightarrow> ev_retention_expired e | None \<Rightarrow> False)"

definition liveEventCoordinates :: "event_store \<Rightarrow> string list" where
  "liveEventCoordinates s = map fst (filter (\<lambda>(_, e). \<not> ev_retention_expired e) (st_events s))"

definition markRetentionExpired :: "string \<Rightarrow> event_store \<Rightarrow> event_store" where
  "markRetentionExpired coordinate = update_event coordinate (\<lambda>e. e\<lparr>ev_retention_expired := True\<rparr>)"

definition clearRetentionExpired :: "string \<Rightarrow> event_store \<Rightarrow> event_store" where
  "clearRetentionExpired coordinate = update_event coordinate (\<lambda>e. e\<lparr>ev_retention_expired := False\<rparr>)"

definition setPendingRelays :: "string \<Rightarrow> string list \<Rightarrow> event_store \<Rightarrow> event_store" where
  "setPendingRelays coordinate relays = update_event coordinate (\<lambda>e. e\<lparr>ev_pending_relays := Some relays\<rparr>)"

definition getPendingRelays :: "string \<Rightarrow> event_store \<Rightarrow> string list option" where
  "getPendingRelays coordinate s =
     (case map_of (st_events s) coordinate of Some e \<Rightarrow> ev_pending_relays e | None \<Rightarrow> None)"

definition clearPendingRelays :: "string \<Rightarrow> event_store \<Rightarrow> event_store" where
  "clearPendingRelays coordinate = update_event coordinate (\<lambda>e. e\<lparr>ev_pending_relays := None\<rparr>)"

definition coordinatesWithPendingRelays :: "event_store \<Rightarrow> string list" where
  "coordinatesWithPendingRelays s = map fst (filter (\<lambda>(_, e). ev_pending_relays e \<noteq> None) (st_events s))"

definition getRetentionAnchor :: "string \<Rightarrow> event_store \<Rightarrow> int" where
  "getRetentionAnchor coordinate s =
     (case map_of (st_events s) coordinate of Some e \<Rightarrow> ev_event_end_sec e | None \<Rightarrow> 0)"

definition setRetentionAnchor :: "string \<Rightarrow> int \<Rightarrow> event_store \<Rightarrow> event_store" where
  "setRetentionAnchor coordinate endSec = update_event coordinate (\<lambda>e. e\<lparr>ev_event_end_sec := endSec\<rparr>)"

section \<open>The publish watermark\<close>

definition everPublished :: "string \<Rightarrow> event_store \<Rightarrow> bool" where
  "everPublished address s \<longleftrightarrow> map_of (st_publish s) address \<noteq> None"

definition nextPublishCreatedAt :: "string \<Rightarrow> int \<Rightarrow> event_store \<Rightarrow> int \<times> event_store" where
  "nextPublishCreatedAt address now s =
     (let next = (case map_of (st_publish s) address of Some l \<Rightarrow> max now (l + 1) | None \<Rightarrow> now)
      in (next, s\<lparr>st_publish := AList.update address next (st_publish s)\<rparr>))"

definition hierarchyReissued :: "string \<Rightarrow> string \<Rightarrow> nat \<Rightarrow> event_store \<Rightarrow> bool" where
  "hierarchyReissued child parent gen s \<longleftrightarrow> map_of (st_reissue s) (child, parent, gen) \<noteq> None"

definition markHierarchyReissued :: "string \<Rightarrow> string \<Rightarrow> nat \<Rightarrow> int \<Rightarrow> event_store \<Rightarrow> event_store" where
  "markHierarchyReissued child parent gen now s =
     (if hierarchyReissued child parent gen s then s
      else s\<lparr>st_reissue := st_reissue s @ [((child, parent, gen), now)]\<rparr>)"

section \<open>Command operations\<close>

definition getCommandWatermark :: "string \<Rightarrow> string \<Rightarrow> event_store \<Rightarrow> command_op option" where
  "getCommandWatermark coordinate subject s = map_of (st_commands s) (coordinate, subject)"

definition setCommandWatermark ::
  "string \<Rightarrow> string \<Rightarrow> int \<Rightarrow> string \<Rightarrow> event_store \<Rightarrow> event_store" where
  "setCommandWatermark coordinate subject createdAt rumorId s =
     s\<lparr>st_commands := AList.update (coordinate, subject)
         \<lparr>op_created_at = createdAt, op_rumor_id = rumorId, op_state = OpComplete, op_progress = None\<rparr>
         (st_commands s)\<rparr>"

definition beginCommandOp :: "string \<Rightarrow> string \<Rightarrow> int \<Rightarrow> string \<Rightarrow> event_store \<Rightarrow> event_store" where
  "beginCommandOp coordinate subject createdAt rumorId s =
     s\<lparr>st_commands := AList.update (coordinate, subject)
         \<lparr>op_created_at = createdAt, op_rumor_id = rumorId, op_state = OpPending,
          op_progress = (case getCommandWatermark coordinate subject s of
                           Some w \<Rightarrow> if op_rumor_id w = rumorId then op_progress w else None
                         | None \<Rightarrow> None)\<rparr>
         (st_commands s)\<rparr>"

definition update_command ::
  "string \<Rightarrow> string \<Rightarrow> string \<Rightarrow> (command_op \<Rightarrow> command_op) \<Rightarrow> event_store \<Rightarrow> event_store" where
  "update_command coordinate subject rumorId f s =
     s\<lparr>st_commands := map (\<lambda>(k, w). (k, if k = (coordinate, subject) \<and> op_rumor_id w = rumorId then f w else w))
         (st_commands s)\<rparr>"

definition completeCommandOp :: "string \<Rightarrow> string \<Rightarrow> string \<Rightarrow> event_store \<Rightarrow> event_store" where
  "completeCommandOp coordinate subject rumorId =
     update_command coordinate subject rumorId (\<lambda>w. w\<lparr>op_state := OpComplete\<rparr>)"

definition setCommandOpProgress ::
  "(string \<Rightarrow> string) \<Rightarrow> string \<Rightarrow> string \<Rightarrow> string \<Rightarrow> string \<Rightarrow> event_store \<Rightarrow> event_store" where
  "setCommandOpProgress protect coordinate subject rumorId progress =
     update_command coordinate subject rumorId (\<lambda>w. w\<lparr>op_progress := Some (protect progress)\<rparr>)"

definition getCommandOpProgress ::
  "(string \<Rightarrow> string) \<Rightarrow> string \<Rightarrow> string \<Rightarrow> event_store \<Rightarrow> string option" where
  "getCommandOpProgress reveal coordinate subject s =
     (case getCommandWatermark coordinate subject s of
        Some w \<Rightarrow> map_option reveal (op_progress w) | None \<Rightarrow> None)"

definition clearCommandProgressForEvent :: "string \<Rightarrow> event_store \<Rightarrow> event_store" where
  "clearCommandProgressForEvent coordinate s =
     s\<lparr>st_commands := map (\<lambda>(k, w). (k, if fst k = coordinate then w\<lparr>op_progress := None\<rparr> else w)) (st_commands s)\<rparr>"

section \<open>Install generations and the detach ledger\<close>

definition installHighGen :: "string \<Rightarrow> event_store \<Rightarrow> nat" where
  "installHighGen coordinate s = (case map_of (st_install s) coordinate of Some r \<Rightarrow> in_high_gen r | None \<Rightarrow> 0)"

definition isInstallTombstoned :: "string \<Rightarrow> event_store \<Rightarrow> bool" where
  "isInstallTombstoned coordinate s =
     (case map_of (st_install s) coordinate of Some r \<Rightarrow> in_tombstoned r | None \<Rightarrow> False)"

definition clearDetachedEvent :: "string \<Rightarrow> event_store \<Rightarrow> event_store" where
  "clearDetachedEvent coordinate s = s\<lparr>st_detached := AList.delete coordinate (st_detached s)\<rparr>"

definition raised_gen :: "string \<Rightarrow> nat \<Rightarrow> event_store \<Rightarrow> nat" where
  "raised_gen coordinate gen s =
     (case map_of (st_install s) coordinate of Some r \<Rightarrow> max (in_high_gen r) gen | None \<Rightarrow> gen)"

definition recordInstalledGen :: "string \<Rightarrow> nat \<Rightarrow> event_store \<Rightarrow> event_store" where
  "recordInstalledGen coordinate gen s =
     clearDetachedEvent coordinate
       (s\<lparr>st_install := AList.update coordinate
            \<lparr>in_high_gen = raised_gen coordinate gen s, in_tombstoned = False, in_detached_at = None\<rparr>
            (st_install s)\<rparr>)"

definition tombstoneInstall :: "string \<Rightarrow> nat \<Rightarrow> int \<Rightarrow> event_store \<Rightarrow> event_store" where
  "tombstoneInstall coordinate gen detachedAt s =
     s\<lparr>st_install := AList.update coordinate
         \<lparr>in_high_gen = raised_gen coordinate gen s, in_tombstoned = True, in_detached_at = Some detachedAt\<rparr>
         (st_install s)\<rparr>"

definition recordDetachedEvent :: "string \<Rightarrow> int \<Rightarrow> int \<Rightarrow> event_store \<Rightarrow> event_store" where
  "recordDetachedEvent coordinate purgeAfterSec detachedAtSec s =
     (if map_of (st_detached s) coordinate \<noteq> None then s
      else s\<lparr>st_detached := st_detached s @ [(coordinate, purgeAfterSec, detachedAtSec)]\<rparr>)"

definition getDetachedEvent :: "string \<Rightarrow> event_store \<Rightarrow> (int \<times> int) option" where
  "getDetachedEvent coordinate s = map_of (st_detached s) coordinate"

definition dueDetachedEvents :: "int \<Rightarrow> event_store \<Rightarrow> (string \<times> int \<times> int) list" where
  "dueDetachedEvents nowSec s =
     sort_by (\<lambda>a b. fst (snd a) \<le> fst (snd b)) (filter (\<lambda>(_, p, _). p \<le> nowSec) (st_detached s))"

section \<open>Attendees\<close>

record upsert_attendee =
  ua_coordinate :: string
  ua_pubkey :: pubkey
  ua_role :: "string option"
  ua_status :: "string option"
  ua_profileJson :: "string option"
  ua_aiProfileJson :: "string option"
  ua_profileHash :: "string option"
  ua_sourceRevision :: "string option"
  ua_aiSourceRevision :: "string option"
  ua_transcriptsJson :: "string option"
  ua_correctionJson :: "string option"
  ua_displayName :: "string option"
  ua_profileRev :: "int option"
  ua_profileCreatedAt :: "int option"
  ua_profileRumorId :: "string option"
  ua_correctionRev :: "int option"
  ua_correctionCreatedAt :: "int option"
  ua_correctionRumorId :: "string option"
  ua_now :: int

definition is_attendee :: "string \<Rightarrow> pubkey \<Rightarrow> attendee_row \<Rightarrow> bool" where
  "is_attendee coordinate pk r \<longleftrightarrow> ar_coordinate r = coordinate \<and> ar_pubkey r = pk"

definition coalesce :: "'a option \<Rightarrow> 'a option \<Rightarrow> 'a option" where
  "coalesce x y = (case x of Some v \<Rightarrow> Some v | None \<Rightarrow> y)"

definition coalesce_value :: "'a option \<Rightarrow> 'a \<Rightarrow> 'a" where
  "coalesce_value x y = (case x of Some v \<Rightarrow> v | None \<Rightarrow> y)"

definition inserted_attendee :: "upsert_attendee \<Rightarrow> attendee_row" where
  "inserted_attendee u =
     \<lparr>ar_coordinate = ua_coordinate u, ar_pubkey = ua_pubkey u,
      ar_role = coalesce_value (ua_role u) ''attendee'', ar_status = coalesce_value (ua_status u) ''pending'',
      ar_profile_json = ua_profileJson u, ar_ai_profile_json = ua_aiProfileJson u,
      ar_profile_hash = ua_profileHash u, ar_source_revision = ua_sourceRevision u,
      ar_ai_source_revision = ua_aiSourceRevision u, ar_transcripts_json = ua_transcriptsJson u,
      ar_correction_json = ua_correctionJson u, ar_display_name = ua_displayName u,
      ar_profile_rev = ua_profileRev u, ar_profile_created_at = ua_profileCreatedAt u,
      ar_profile_rumor_id = ua_profileRumorId u, ar_correction_rev = ua_correctionRev u,
      ar_correction_created_at = ua_correctionCreatedAt u, ar_correction_rumor_id = ua_correctionRumorId u,
      ar_updated_at = ua_now u\<rparr>"

definition updated_attendee :: "upsert_attendee \<Rightarrow> attendee_row \<Rightarrow> attendee_row" where
  "updated_attendee u r =
     r\<lparr>ar_role := coalesce_value (ua_role u) (ar_role r), ar_status := coalesce_value (ua_status u) (ar_status r),
       ar_profile_json := coalesce (ua_profileJson u) (ar_profile_json r),
       ar_ai_profile_json := coalesce (ua_aiProfileJson u) (ar_ai_profile_json r),
       ar_profile_hash := coalesce (ua_profileHash u) (ar_profile_hash r),
       ar_source_revision := coalesce (ua_sourceRevision u) (ar_source_revision r),
       ar_ai_source_revision := coalesce (ua_aiSourceRevision u) (ar_ai_source_revision r),
       ar_transcripts_json := coalesce (ua_transcriptsJson u) (ar_transcripts_json r),
       ar_correction_json := coalesce (ua_correctionJson u) (ar_correction_json r),
       ar_display_name := coalesce (ua_displayName u) (ar_display_name r),
       ar_profile_rev := coalesce (ua_profileRev u) (ar_profile_rev r),
       ar_profile_created_at := coalesce (ua_profileCreatedAt u) (ar_profile_created_at r),
       ar_profile_rumor_id := coalesce (ua_profileRumorId u) (ar_profile_rumor_id r),
       ar_correction_rev := coalesce (ua_correctionRev u) (ar_correction_rev r),
       ar_correction_created_at := coalesce (ua_correctionCreatedAt u) (ar_correction_created_at r),
       ar_correction_rumor_id := coalesce (ua_correctionRumorId u) (ar_correction_rumor_id r),
       ar_updated_at := ua_now u\<rparr>"

definition upsert_rows :: "upsert_attendee \<Rightarrow> attendee_row list \<Rightarrow> attendee_row list" where
  "upsert_rows u rows =
     (if list_ex (is_attendee (ua_coordinate u) (ua_pubkey u)) rows
      then update_where (is_attendee (ua_coordinate u) (ua_pubkey u)) (updated_attendee u) rows
      else rows @ [inserted_attendee u])"

definition upsertAttendee :: "upsert_attendee \<Rightarrow> event_store \<Rightarrow> event_store" where
  "upsertAttendee u s = s\<lparr>st_attendees := upsert_rows u (st_attendees s)\<rparr>"

definition getAttendee :: "string \<Rightarrow> pubkey \<Rightarrow> event_store \<Rightarrow> attendee_row option" where
  "getAttendee coordinate pk s = List.find (is_attendee coordinate pk) (st_attendees s)"

text \<open>The attendee-row part of \<open>purgeAttendeeArtifacts\<close>; the derived-data tables it clears are not kept here.\<close>

definition purge_attendee_row :: "string \<Rightarrow> pubkey \<Rightarrow> event_store \<Rightarrow> event_store" where
  "purge_attendee_row coordinate pk s =
     s\<lparr>st_attendees := delete_where (is_attendee coordinate pk) (st_attendees s)\<rparr>"

record ai_commit =
  ac_coordinate :: string
  ac_pubkey :: pubkey
  ac_aiProfileJson :: string
  ac_profileHash :: string
  ac_aiSourceRevision :: "string option"
  ac_transcriptsJson :: string
  ac_expectedSourceRevision :: "string option"
  ac_now :: int

definition commitAiProfile :: "ai_commit \<Rightarrow> event_store \<Rightarrow> bool \<times> event_store" where
  "commitAiProfile c s =
     (let P = (\<lambda>r. is_attendee (ac_coordinate c) (ac_pubkey c) r \<and>
                   ar_source_revision r = ac_expectedSourceRevision c);
          f = (\<lambda>r. r\<lparr>ar_ai_profile_json := Some (ac_aiProfileJson c), ar_profile_hash := Some (ac_profileHash c),
                     ar_ai_source_revision := ac_aiSourceRevision c,
                     ar_transcripts_json := Some (ac_transcriptsJson c), ar_updated_at := ac_now c\<rparr>)
      in (0 < count_where P (st_attendees s), s\<lparr>st_attendees := update_where P f (st_attendees s)\<rparr>))"

definition attendeeCount :: "string \<Rightarrow> event_store \<Rightarrow> nat" where
  "attendeeCount coordinate s = count_where (\<lambda>r. ar_coordinate r = coordinate) (st_attendees s)"

definition statusCount :: "string \<Rightarrow> string \<Rightarrow> event_store \<Rightarrow> nat" where
  "statusCount status coordinate s =
     count_where (\<lambda>r. ar_coordinate r = coordinate \<and> ar_status r = status) (st_attendees s)"

definition pendingAttendeeCount :: "string \<Rightarrow> event_store \<Rightarrow> nat" where
  "pendingAttendeeCount = statusCount ''pending''"

definition approvedAttendeeCount :: "string \<Rightarrow> event_store \<Rightarrow> nat" where
  "approvedAttendeeCount = statusCount ''approved''"

definition stalePendingPubkeys :: "string \<Rightarrow> int \<Rightarrow> event_store \<Rightarrow> pubkey list" where
  "stalePendingPubkeys coordinate cutoffMs s =
     map ar_pubkey (sort_by (\<lambda>a b. ar_updated_at a \<le> ar_updated_at b)
       (filter (\<lambda>r. ar_coordinate r = coordinate \<and> ar_status r = ''pending'' \<and> ar_updated_at r < cutoffMs)
          (st_attendees s)))"

definition approvedAttendees :: "string \<Rightarrow> event_store \<Rightarrow> attendee_row list" where
  "approvedAttendees coordinate s =
     filter (\<lambda>r. ar_coordinate r = coordinate \<and> ar_status r = ''approved'') (st_attendees s)"

section \<open>Revocations and invites\<close>

definition recordRevocation :: "string \<Rightarrow> pubkey \<Rightarrow> int \<Rightarrow> event_store \<Rightarrow> event_store" where
  "recordRevocation coordinate pk now s =
     s\<lparr>st_revocations := AList.update (coordinate, pk) (now div 1000) (st_revocations s)\<rparr>"

definition isRevoked :: "string \<Rightarrow> pubkey \<Rightarrow> event_store \<Rightarrow> bool" where
  "isRevoked coordinate pk s \<longleftrightarrow> map_of (st_revocations s) (coordinate, pk) \<noteq> None"

definition clearRevocation :: "string \<Rightarrow> pubkey \<Rightarrow> event_store \<Rightarrow> event_store" where
  "clearRevocation coordinate pk s = s\<lparr>st_revocations := AList.delete (coordinate, pk) (st_revocations s)\<rparr>"

definition is_use :: "string \<Rightarrow> pubkey \<Rightarrow> invite_use \<Rightarrow> bool" where
  "is_use coordinate invk u \<longleftrightarrow> iu_coordinate u = coordinate \<and> iu_invite_pubkey u = invk"

definition is_claim :: "string \<Rightarrow> pubkey \<Rightarrow> pubkey \<Rightarrow> invite_use \<Rightarrow> bool" where
  "is_claim coordinate invk usedBy u \<longleftrightarrow> is_use coordinate invk u \<and> iu_used_by u = usedBy"

definition inviteRedemptions :: "string \<Rightarrow> pubkey \<Rightarrow> event_store \<Rightarrow> nat" where
  "inviteRedemptions coordinate invk s = count_where (is_use coordinate invk) (st_invites s)"

definition claimInvite ::
  "string \<Rightarrow> pubkey \<Rightarrow> pubkey \<Rightarrow> int \<Rightarrow> nat \<Rightarrow> event_store \<Rightarrow> bool \<times> event_store" where
  "claimInvite coordinate invk usedBy now maxUses s =
     (if list_ex (is_claim coordinate invk usedBy) (st_invites s) then (True, s)
      else if maxUses \<noteq> 0 \<and> inviteRedemptions coordinate invk s \<ge> maxUses then (False, s)
      else (True, s\<lparr>st_invites := st_invites s @
              [\<lparr>iu_coordinate = coordinate, iu_invite_pubkey = invk, iu_used_by = usedBy, iu_used_at = now\<rparr>]\<rparr>))"

section \<open>Every statement of the store\<close>

named_theorems store_defs "the statements of the store, unfolded"

text \<open>The statements that write, as one step function, so that a property can quantify over any run.\<close>

datatype store_op =
    MarkSeen string int
  | BumpRate string pubkey int int
  | UpsertEvent upsert_event
  | DeleteEvent string
  | MarkExpired string
  | ClearExpired string
  | SetPending string "string list"
  | ClearPending string
  | SetAnchor string int
  | MarkReissued string string nat int
  | SetWatermark string string int string
  | BeginOp string string int string
  | CompleteOp string string string
  | SetProgress string string string string
  | ClearProgress string
  | RecordInstalled string nat
  | Tombstone string nat int
  | RecordDetached string int int
  | ClearDetached string
  | UpsertAttendee upsert_attendee
  | PurgeAttendee string pubkey
  | CommitAi ai_commit
  | Revoke string pubkey int
  | ClearRevocation string pubkey
  | ClaimInvite string pubkey pubkey int nat

fun store_step :: "(string \<Rightarrow> string) \<Rightarrow> store_op \<Rightarrow> event_store \<Rightarrow> event_store" where
  "store_step protect (MarkSeen i now) s = snd (markRumorSeen i now s)"
| "store_step protect (BumpRate c pk now w) s = snd (bumpInboxRate c pk now w s)"
| "store_step protect (UpsertEvent e) s = upsertEvent protect e s"
| "store_step protect (DeleteEvent c) s = deleteEvent c s"
| "store_step protect (MarkExpired c) s = markRetentionExpired c s"
| "store_step protect (ClearExpired c) s = clearRetentionExpired c s"
| "store_step protect (SetPending c rs) s = setPendingRelays c rs s"
| "store_step protect (ClearPending c) s = clearPendingRelays c s"
| "store_step protect (SetAnchor c e) s = setRetentionAnchor c e s"
| "store_step protect (MarkReissued c p g now) s = markHierarchyReissued c p g now s"
| "store_step protect (SetWatermark c sub t r) s = setCommandWatermark c sub t r s"
| "store_step protect (BeginOp c sub t r) s = beginCommandOp c sub t r s"
| "store_step protect (CompleteOp c sub r) s = completeCommandOp c sub r s"
| "store_step protect (SetProgress c sub r pr) s = setCommandOpProgress protect c sub r pr s"
| "store_step protect (ClearProgress c) s = clearCommandProgressForEvent c s"
| "store_step protect (RecordInstalled c g) s = recordInstalledGen c g s"
| "store_step protect (Tombstone c g t) s = tombstoneInstall c g t s"
| "store_step protect (RecordDetached c p t) s = recordDetachedEvent c p t s"
| "store_step protect (ClearDetached c) s = clearDetachedEvent c s"
| "store_step protect (UpsertAttendee u) s = upsertAttendee u s"
| "store_step protect (PurgeAttendee c pk) s = purge_attendee_row c pk s"
| "store_step protect (CommitAi c) s = snd (commitAiProfile c s)"
| "store_step protect (Revoke c pk now) s = recordRevocation c pk now s"
| "store_step protect (ClearRevocation c pk) s = clearRevocation c pk s"
| "store_step protect (ClaimInvite c i u now m) s = snd (claimInvite c i u now m s)"

declare store_step.simps [simp del, store_defs]

definition run_store :: "(string \<Rightarrow> string) \<Rightarrow> store_op list \<Rightarrow> event_store \<Rightarrow> event_store" where
  "run_store protect ops s = foldl (\<lambda>s p. store_step protect p s) s ops"

definition empty_store :: event_store where
  "empty_store = \<lparr>st_seen = [], st_rate = [], st_events = [], st_publish = [], st_reissue = [],
     st_commands = [], st_install = [], st_detached = [], st_attendees = [], st_revocations = [],
     st_invites = []\<rparr>"

lemma run_store_simps [simp]:
  "run_store protect [] s = s"
  "run_store protect (p # ops) s = run_store protect ops (store_step protect p s)"
  by (simp_all add: run_store_def)

lemmas store_unfold [store_defs] =
  markRumorSeen_def bumpInboxRate_def upsertEvent_def deleteEvent_def markRetentionExpired_def
  clearRetentionExpired_def setPendingRelays_def clearPendingRelays_def setRetentionAnchor_def
  update_event_def markHierarchyReissued_def setCommandWatermark_def beginCommandOp_def
  completeCommandOp_def setCommandOpProgress_def update_command_def clearCommandProgressForEvent_def
  recordInstalledGen_def tombstoneInstall_def recordDetachedEvent_def clearDetachedEvent_def
  upsertAttendee_def purge_attendee_row_def commitAiProfile_def recordRevocation_def clearRevocation_def claimInvite_def
  Let_def

lemma store_step_publish [simp]: "st_publish (store_step protect p s) = st_publish s"
  by (cases p) (simp_all add: store_defs)

lemma store_step_install:
  "st_install (store_step protect p s) =
     (case p of
        RecordInstalled c g \<Rightarrow> AList.update c
          \<lparr>in_high_gen = raised_gen c g s, in_tombstoned = False, in_detached_at = None\<rparr> (st_install s)
      | Tombstone c g t \<Rightarrow> AList.update c
          \<lparr>in_high_gen = raised_gen c g s, in_tombstoned = True, in_detached_at = Some t\<rparr> (st_install s)
      | _ \<Rightarrow> st_install s)"
  by (cases p) (simp_all add: store_defs)

lemma store_step_detached:
  "st_detached (store_step protect p s) =
     (case p of
        RecordInstalled c g \<Rightarrow> AList.delete c (st_detached s)
      | ClearDetached c \<Rightarrow> AList.delete c (st_detached s)
      | RecordDetached c pa t \<Rightarrow>
          (if map_of (st_detached s) c \<noteq> None then st_detached s else st_detached s @ [(c, pa, t)])
      | _ \<Rightarrow> st_detached s)"
  by (cases p) (simp_all add: store_defs)

lemma store_step_invites:
  "st_invites (store_step protect p s) =
     (case p of ClaimInvite c i u now m \<Rightarrow> st_invites (snd (claimInvite c i u now m s)) | _ \<Rightarrow> st_invites s)"
  by (cases p) (simp_all add: store_defs)

lemma store_step_attendees:
  "st_attendees (store_step protect p s) =
     (case p of
        UpsertAttendee u \<Rightarrow> upsert_rows u (st_attendees s)
      | PurgeAttendee c pk \<Rightarrow> delete_where (is_attendee c pk) (st_attendees s)
      | CommitAi c \<Rightarrow> st_attendees (snd (commitAiProfile c s))
      | _ \<Rightarrow> st_attendees s)"
  by (cases p) (simp_all add: store_defs)

section \<open>The publish watermark is a stamper\<close>

interpretation publish: stamper
  "\<lambda>s k. map_of (st_publish s) k" nextPublishCreatedAt "\<lambda>now. now" "store_step protect"
  "\<lambda>_. True" "\<lambda>_. True"
  for protect
  by unfold_locales
    (auto simp: nextPublishCreatedAt_def Let_def update_conv' split: option.split)

lemma publish_all_harmless [simp]: "publish.all_harmless rs"
  by (induction rs rule: publish.all_harmless.induct) simp_all

text \<open>The stamps of a run in which publishes interleave with any other statement of the store.\<close>

fun publish_run ::
  "(string \<Rightarrow> string) \<Rightarrow> (string \<times> int + store_op) list \<Rightarrow> event_store \<Rightarrow> (string \<times> int) list" where
  "publish_run protect [] s = []"
| "publish_run protect (Inl (address, now) # rs) s =
     (let (t, s') = nextPublishCreatedAt address now s in (address, t) # publish_run protect rs s')"
| "publish_run protect (Inr p # rs) s = publish_run protect rs (store_step protect p s)"

lemma publish_run_stamp_all: "publish_run protect rs s = publish.stamp_all protect rs s"
proof (induction protect rs s rule: publish_run.induct)
  case (2 protect address now rs s)
  then show ?case by (cases "nextPublishCreatedAt address now s") simp
qed simp_all

text \<open>
  (C31) The created-at stamps the coordinator hands out for one replaceable address strictly increase
  over a whole run, whatever the wall clock reads and whatever else the store does in between, and
  every stamp lies above the last one stored and is never earlier than the clock it was asked with.
\<close>

theorem publish_stamps_increase:
  "sorted_wrt (<) (map snd (filter (\<lambda>p. fst p = address) (publish_run protect rs s)))
   \<and> (\<forall>l. map_of (st_publish s) address = Some l \<longrightarrow>
        (\<forall>x\<in>set (map snd (filter (\<lambda>p. fst p = address) (publish_run protect rs s))). l < x))
   \<and> now \<le> fst (nextPublishCreatedAt address now s)"
  using publish.stamps_increase publish.stamps_above_last
    publish.above_now
  by (auto simp: publish_run_stamp_all publish.stamps_of_def)

lemma publish_stamps_increase_witness:
  "sorted_wrt (<) (map snd (filter (\<lambda>p. fst p = ''30078:roster'')
     (publish_run id [Inl (''30078:roster'', 100), Inr (ClearProgress ''e''), Inl (''30078:roster'', 40)]
        (empty_store\<lparr>st_publish := [(''30078:roster'', 200)]\<rparr>))))
   \<and> publish_run id [Inl (''30078:roster'', 100), Inr (ClearProgress ''e''), Inl (''30078:roster'', 40)]
        (empty_store\<lparr>st_publish := [(''30078:roster'', 200)]\<rparr>)
     = [(''30078:roster'', 201), (''30078:roster'', 202)]
   \<and> (200::int) < 201"
  (is "sorted_wrt (<) (map snd (filter ?P (publish_run id ?rs ?s))) \<and> ?run \<and> _")
proof (intro conjI)
  show run: ?run
    by (simp add: nextPublishCreatedAt_def empty_store_def clearCommandProgressForEvent_def)
  show "sorted_wrt (<) (map snd (filter ?P (publish_run id ?rs ?s)))"
    using publish_stamps_increase [of "''30078:roster''" id ?rs ?s] by blast
  show "(200::int) < 201"
    using publish_stamps_increase [of "''30078:roster''" id ?rs ?s] unfolding run
    by (simp add: empty_store_def)
qed

section \<open>Install generations and the detach ledger\<close>

lemma installHighGen_step: "installHighGen c s \<le> installHighGen c (store_step protect p s)"
  by (cases p) (simp_all add: installHighGen_def store_step_install update_conv' raised_gen_def
      split: option.split)

lemma run_store_append: "run_store protect (ps @ qs) s = run_store protect qs (run_store protect ps s)"
  by (simp add: run_store_def)

lemma installHighGen_run: "installHighGen c s \<le> installHighGen c (run_store protect ops s)"
proof (induction ops arbitrary: s)
  case (Cons p ops)
  then show ?case using installHighGen_step [of c s protect p] order_trans by fastforce
qed simp

lemma tombstone_step:
  "isInstallTombstoned c s \<Longrightarrow> \<forall>g. p \<noteq> RecordInstalled c g \<Longrightarrow> isInstallTombstoned c (store_step protect p s)"
  by (cases p) (auto simp: isInstallTombstoned_def store_step_install update_conv' split: option.splits)

lemma tombstone_run:
  "isInstallTombstoned c s \<Longrightarrow> \<forall>g. RecordInstalled c g \<notin> set ops
     \<Longrightarrow> isInstallTombstoned c (run_store protect ops s)"
proof (induction ops arbitrary: s)
  case (Cons p ops)
  have "isInstallTombstoned c (store_step protect p s)"
    using Cons.prems by (intro tombstone_step) auto
  then show ?case using Cons by simp
qed simp

lemma map_of_delete_other: "c' \<noteq> c \<Longrightarrow> map_of (AList.delete c' xs) c = map_of xs c"
  by (simp add: delete_conv')

lemma detached_step:
  "map_of (st_detached s) c = Some d \<Longrightarrow> \<forall>g. p \<noteq> RecordInstalled c g \<Longrightarrow> p \<noteq> ClearDetached c
     \<Longrightarrow> map_of (st_detached (store_step protect p s)) c = Some d"
  by (cases p) (auto simp: store_step_detached map_of_delete_other map_add_def split: option.splits)

lemma detached_run:
  "map_of (st_detached s) c = Some d \<Longrightarrow> \<forall>g. RecordInstalled c g \<notin> set ops \<Longrightarrow> ClearDetached c \<notin> set ops
     \<Longrightarrow> map_of (st_detached (run_store protect ops s)) c = Some d"
proof (induction ops arbitrary: s)
  case (Cons p ops)
  have "map_of (st_detached (store_step protect p s)) c = Some d"
    using Cons.prems by (intro detached_step) auto
  then show ?case using Cons by simp
qed simp

text \<open>
  A detach is durable. Once an event is tombstoned at a generation, with its purge scheduled,
  any run of store statements that contains no re-install of that event keeps the tombstone, keeps
  the high-water generation at or above the detached one, and (unless the purge is cleared as done)
  keeps the first purge deadline, so a replayed detach can neither shorten nor extend it.
\<close>

theorem detach_is_durable:
  assumes start: "s1 = recordDetachedEvent c purge at_sec (tombstoneInstall c gen at_sec s)"
    and no_install: "\<forall>g. RecordInstalled c g \<notin> set ops"
  shows "isInstallTombstoned c (run_store protect ops s1)
    \<and> gen \<le> installHighGen c (run_store protect ops s1)
    \<and> installHighGen c s \<le> installHighGen c (run_store protect ops s1)
    \<and> (ClearDetached c \<notin> set ops \<longrightarrow>
         getDetachedEvent c (run_store protect ops s1)
           = Some (case getDetachedEvent c s of Some d \<Rightarrow> d | None \<Rightarrow> (purge, at_sec)))"
proof (intro conjI impI)
  have inst: "st_install s1 = AList.update c
      \<lparr>in_high_gen = raised_gen c gen s, in_tombstoned = True, in_detached_at = Some at_sec\<rparr> (st_install s)"
    by (simp add: start recordDetachedEvent_def tombstoneInstall_def)
  then have "isInstallTombstoned c s1" by (simp add: isInstallTombstoned_def update_conv')
  then show "isInstallTombstoned c (run_store protect ops s1)" using no_install tombstone_run by blast
  have "gen \<le> installHighGen c s1" "installHighGen c s \<le> installHighGen c s1"
    using inst by (simp_all add: installHighGen_def update_conv' raised_gen_def split: option.split)
  then show "gen \<le> installHighGen c (run_store protect ops s1)"
    "installHighGen c s \<le> installHighGen c (run_store protect ops s1)"
    using installHighGen_run [of c s1 protect ops] by simp_all
  have "map_of (st_detached s1) c
      = Some (case getDetachedEvent c s of Some d \<Rightarrow> d | None \<Rightarrow> (purge, at_sec))"
    by (auto simp: start recordDetachedEvent_def tombstoneInstall_def getDetachedEvent_def map_add_def
        split: option.split)
  then show "ClearDetached c \<notin> set ops \<Longrightarrow> getDetachedEvent c (run_store protect ops s1)
      = Some (case getDetachedEvent c s of Some d \<Rightarrow> d | None \<Rightarrow> (purge, at_sec))"
    using no_install detached_run unfolding getDetachedEvent_def by blast
qed

lemma detach_is_durable_witness:
  "isInstallTombstoned ''e''
     (run_store id [RecordInstalled ''f'' 9, RecordDetached ''e'' 900 60, Tombstone ''e'' 1 60]
        (recordDetachedEvent ''e'' 500 50 (tombstoneInstall ''e'' 3 50 empty_store)))
   \<and> getDetachedEvent ''e''
       (run_store id [RecordInstalled ''f'' 9, RecordDetached ''e'' 900 60, Tombstone ''e'' 1 60]
          (recordDetachedEvent ''e'' 500 50 (tombstoneInstall ''e'' 3 50 empty_store))) = Some (500, 50)"
  using detach_is_durable [OF refl,
      of "''e''" "[RecordInstalled ''f'' 9, RecordDetached ''e'' 900 60, Tombstone ''e'' 1 60]"
         id 500 50 3 empty_store]
  by (simp add: getDetachedEvent_def empty_store_def)

section \<open>Invites\<close>

definition claim_key :: "invite_use \<Rightarrow> string \<times> pubkey \<times> pubkey" where
  "claim_key u = (iu_coordinate u, iu_invite_pubkey u, iu_used_by u)"

definition redeemers :: "string \<Rightarrow> pubkey \<Rightarrow> event_store \<Rightarrow> pubkey set" where
  "redeemers c i s = iu_used_by ` {u \<in> set (st_invites s). is_use c i u}"

lemma is_claim_key: "is_claim c i p u \<longleftrightarrow> claim_key u = (c, i, p)"
  by (auto simp: is_claim_def is_use_def claim_key_def)

lemma list_ex_claim: "list_ex (is_claim c i p) us \<longleftrightarrow> (c, i, p) \<in> claim_key ` set us"
  by (force simp: list_ex_iff is_claim_key)

lemma redeemers_iff: "p \<in> redeemers c i s \<longleftrightarrow> (c, i, p) \<in> claim_key ` set (st_invites s)"
  by (force simp: redeemers_def is_use_def claim_key_def)

lemma finite_redeemers [simp]: "finite (redeemers c i s)"
  by (simp add: redeemers_def)

text \<open>The primary key \<open>(coordinate, invite_pubkey, used_by)\<close> makes the row count the redeemer count.\<close>

lemma redemptions_redeemers:
  assumes "distinct (map claim_key (st_invites s))"
  shows "inviteRedemptions c i s = card (redeemers c i s)"
proof -
  have "inviteRedemptions c i s = card (claim_key ` {u \<in> set (st_invites s). is_use c i u})"
    unfolding inviteRedemptions_def by (rule count_where_card [OF assms])
  moreover have "claim_key ` {u \<in> set (st_invites s). is_use c i u} = (\<lambda>p. (c, i, p)) ` redeemers c i s"
    by (auto simp: redeemers_def is_use_def claim_key_def image_image)
  moreover have "inj (\<lambda>p. (c, i, p :: pubkey))" by (simp add: inj_on_def)
  ultimately show ?thesis by (simp add: card_image inj_on_def)
qed

lemma claimInvite_cases:
  "claimInvite c i p now m s =
     (if p \<in> redeemers c i s then (True, s)
      else if m \<noteq> 0 \<and> m \<le> inviteRedemptions c i s then (False, s)
      else (True, s\<lparr>st_invites := st_invites s @
              [\<lparr>iu_coordinate = c, iu_invite_pubkey = i, iu_used_by = p, iu_used_at = now\<rparr>]\<rparr>))"
  by (simp add: claimInvite_def list_ex_claim redeemers_iff)

lemma claim_keys_claim:
  "distinct (map claim_key (st_invites s))
     \<Longrightarrow> distinct (map claim_key (st_invites (snd (claimInvite c i p now m s))))"
  by (auto simp: claimInvite_cases claim_key_def redeemers_iff image_iff)

lemma redeemers_snoc:
  "redeemers c i (s\<lparr>st_invites := st_invites s @ [u]\<rparr>) =
     (if is_use c i u then insert (iu_used_by u) (redeemers c i s) else redeemers c i s)"
proof -
  have "{v \<in> set (st_invites s @ [u]). is_use c i v} =
      (if is_use c i u then insert u {v \<in> set (st_invites s). is_use c i v}
       else {v \<in> set (st_invites s). is_use c i v})" by auto
  then show ?thesis unfolding redeemers_def by simp
qed

lemma redeemers_claim:
  "redeemers c i (snd (claimInvite c' i' p now m s)) =
     (if c' = c \<and> i' = i \<and> fst (claimInvite c' i' p now m s)
      then insert p (redeemers c i s) else redeemers c i s)"
proof (cases "p \<in> redeemers c' i' s")
  case True
  then show ?thesis by (auto simp: claimInvite_cases)
next
  case False
  then show ?thesis
    by (auto simp: claimInvite_cases redeemers_snoc is_use_def)
qed

lemma claim_keys_step:
  "distinct (map claim_key (st_invites s)) \<Longrightarrow> distinct (map claim_key (st_invites (store_step protect p s)))"
  by (cases p) (simp_all add: store_step_invites claim_keys_claim)

lemma redeemers_step_mono: "redeemers c i s \<subseteq> redeemers c i (store_step protect p s)"
proof (cases p)
  case (ClaimInvite c' i' pk now m)
  then show ?thesis using redeemers_claim [of c i c' i' pk now m s]
    by (auto simp: store_step.simps)
qed (simp_all add: redeemers_def store_step_invites)

definition capped :: "string \<Rightarrow> pubkey \<Rightarrow> nat \<Rightarrow> store_op \<Rightarrow> bool" where
  "capped c i m p = (case p of ClaimInvite c' i' _ _ m' \<Rightarrow> c' = c \<and> i' = i \<longrightarrow> m' = m | _ \<Rightarrow> True)"

lemma redeemers_step_bound:
  assumes keys: "distinct (map claim_key (st_invites s))" and m: "m \<noteq> 0" "capped c i m p"
    and le: "card (redeemers c i s) \<le> m"
  shows "card (redeemers c i (store_step protect p s)) \<le> m"
proof (cases p)
  case (ClaimInvite c' i' pk now m')
  show ?thesis
  proof (cases "c' = c \<and> i' = i \<and> fst (claimInvite c' i' pk now m' s) \<and> pk \<notin> redeemers c i s")
    case True
    then have "\<not> m \<le> card (redeemers c i s)"
      using m ClaimInvite redemptions_redeemers [OF keys]
      by (auto simp: claimInvite_cases capped_def split: if_splits)
    then show ?thesis using ClaimInvite True redeemers_claim [of c i c' i' pk now m' s]
      by (simp add: store_step.simps)
  next
    case False
    then have "redeemers c i (store_step protect p s) = redeemers c i s"
      using ClaimInvite redeemers_claim [of c i c' i' pk now m' s] by (auto simp: store_step.simps)
    with le show ?thesis by simp
  qed
qed (use le in \<open>simp_all add: redeemers_def store_step_invites\<close>)



section \<open>Attendees\<close>

definition att_key :: "attendee_row \<Rightarrow> string \<times> pubkey" where
  "att_key r = (ar_coordinate r, ar_pubkey r)"

definition upsert_key :: "upsert_attendee \<Rightarrow> string \<times> pubkey" where
  "upsert_key u = (ua_coordinate u, ua_pubkey u)"

lemma is_attendee_key: "is_attendee c pk r \<longleftrightarrow> att_key r = (c, pk)"
  by (auto simp: is_attendee_def att_key_def)

lemma att_key_upsert [simp]:
  "att_key (updated_attendee u r) = att_key r" "att_key (inserted_attendee u) = upsert_key u"
  by (simp_all add: att_key_def updated_attendee_def inserted_attendee_def upsert_key_def)

lemma upsert_rows_keys:
  "upsert_rows u rows =
     (if upsert_key u \<in> att_key ` set rows
      then update_where (\<lambda>r. att_key r = upsert_key u) (updated_attendee u) rows
      else rows @ [inserted_attendee u])"
proof -
  have "is_attendee (ua_coordinate u) (ua_pubkey u) = (\<lambda>r. att_key r = upsert_key u)"
    by (auto simp: is_attendee_key upsert_key_def)
  moreover have "(upsert_key u \<in> att_key ` set rows) = list_ex (\<lambda>r. att_key r = upsert_key u) rows"
    unfolding list_ex_iff image_iff by metis
  ultimately show ?thesis by (simp add: upsert_rows_def)
qed

lemma find_update_where:
  "(\<And>r. att_key (f r) = att_key r) \<Longrightarrow>
   List.find (\<lambda>r. att_key r = k) (update_where (\<lambda>r. att_key r = k') f rows) =
     (if k = k' then map_option f (List.find (\<lambda>r. att_key r = k) rows)
      else List.find (\<lambda>r. att_key r = k) rows)"
  by (induction rows) auto

lemma find_append:
  "List.find P (xs @ ys) = (case List.find P xs of Some x \<Rightarrow> Some x | None \<Rightarrow> List.find P ys)"
  by (induction xs) auto

lemma find_key_None: "k \<notin> att_key ` set rows \<longleftrightarrow> List.find (\<lambda>r. att_key r = k) rows = None"
  by (auto simp: find_None_iff)

lemma getAttendee_key: "getAttendee c pk s = List.find (\<lambda>r. att_key r = (c, pk)) (st_attendees s)"
proof -
  have "is_attendee c pk = (\<lambda>r. att_key r = (c, pk))" by (simp add: is_attendee_key fun_eq_iff)
  then show ?thesis by (simp add: getAttendee_def)
qed

lemma find_delete_where:
  "(\<And>r. P r \<Longrightarrow> Q r) \<Longrightarrow> List.find P (delete_where Q rows) = None"
  "(\<And>r. P r \<Longrightarrow> \<not> Q r) \<Longrightarrow> List.find P (delete_where Q rows) = List.find P rows"
  by (induction rows) auto

lemma getAttendee_purge:
  "getAttendee c pk (purge_attendee_row c' pk' s) = (if (c, pk) = (c', pk') then None else getAttendee c pk s)"
proof (cases "(c, pk) = (c', pk')")
  case True
  then show ?thesis by (simp add: getAttendee_def purge_attendee_row_def find_delete_where(1))
next
  case False
  then show ?thesis unfolding getAttendee_def purge_attendee_row_def
    by (auto simp: is_attendee_def intro: find_delete_where(2))
qed

lemma getAttendee_upsert:
  "getAttendee c pk (upsertAttendee u s) =
     (if (c, pk) = upsert_key u
      then Some (case getAttendee c pk s of None \<Rightarrow> inserted_attendee u | Some r \<Rightarrow> updated_attendee u r)
      else getAttendee c pk s)"
proof (cases "upsert_key u \<in> att_key ` set (st_attendees s)")
  case True
  then have "List.find (\<lambda>r. att_key r = upsert_key u) (st_attendees s) \<noteq> None"
    using find_key_None by blast
  then show ?thesis using True
    by (auto simp: getAttendee_key upsertAttendee_def upsert_rows_keys find_update_where)
next
  case False
  then have "List.find (\<lambda>r. att_key r = upsert_key u) (st_attendees s) = None"
    using find_key_None by blast
  then show ?thesis using False
    by (simp add: getAttendee_key upsertAttendee_def upsert_rows_keys find_append split: option.split)
qed

lemma att_keys_upsert:
  "map att_key (st_attendees (upsertAttendee u s)) =
     map att_key (st_attendees s)
       @ (if upsert_key u \<in> att_key ` set (st_attendees s) then [] else [upsert_key u])"
  by (simp add: upsertAttendee_def upsert_rows_keys map_update_where_frame)

definition approved :: "string \<Rightarrow> attendee_row \<Rightarrow> bool" where
  "approved c r \<longleftrightarrow> ar_coordinate r = c \<and> ar_status r = ''approved''"

text \<open>
  An upsert writes exactly the row of its own (event, attendee) key: fields it leaves out keep
  their stored value, a missing row starts as a pending attendee, every other row is untouched, and
  rows keep their order with a new one at the end. So admitting a new person only appends to the list
  of approved members the roster is packed from.
\<close>

theorem upsertAttendee_spec:
  "getAttendee c pk (upsertAttendee u s) =
     (if (c, pk) = (ua_coordinate u, ua_pubkey u)
      then Some (case getAttendee c pk s of None \<Rightarrow> inserted_attendee u | Some r \<Rightarrow> updated_attendee u r)
      else getAttendee c pk s)
   \<and> (getAttendee c pk s = Some r \<and> (c, pk) = (ua_coordinate u, ua_pubkey u) \<and> ua_status u = None
      \<longrightarrow> map_option ar_status (getAttendee c pk (upsertAttendee u s)) = Some (ar_status r))
   \<and> (getAttendee (ua_coordinate u) (ua_pubkey u) s = None \<longrightarrow>
      approvedAttendees c (upsertAttendee u s) =
        approvedAttendees c s @ filter (approved c) [inserted_attendee u])"
proof (intro conjI impI)
  show spec: "getAttendee c pk (upsertAttendee u s) =
     (if (c, pk) = (ua_coordinate u, ua_pubkey u)
      then Some (case getAttendee c pk s of None \<Rightarrow> inserted_attendee u | Some r \<Rightarrow> updated_attendee u r)
      else getAttendee c pk s)"
    using getAttendee_upsert [of c pk u s] by (simp only: upsert_key_def)
  show "map_option ar_status (getAttendee c pk (upsertAttendee u s)) = Some (ar_status r)"
    if "getAttendee c pk s = Some r \<and> (c, pk) = (ua_coordinate u, ua_pubkey u) \<and> ua_status u = None"
    using that unfolding spec by (auto simp: updated_attendee_def coalesce_value_def)
  assume "getAttendee (ua_coordinate u) (ua_pubkey u) s = None"
  then have "upsert_key u \<notin> att_key ` set (st_attendees s)"
    unfolding getAttendee_key find_key_None upsert_key_def .
  then show "approvedAttendees c (upsertAttendee u s) =
      approvedAttendees c s @ filter (approved c) [inserted_attendee u]"
    by (simp add: approvedAttendees_def upsertAttendee_def upsert_rows_keys approved_def)
qed

lemma att_keys_commit:
  "map att_key (st_attendees (snd (commitAiProfile x s))) = map att_key (st_attendees s)"
  by (simp add: commitAiProfile_def Let_def map_update_where_frame att_key_def)

lemma att_keys_step:
  "distinct (map att_key (st_attendees s)) \<Longrightarrow> distinct (map att_key (st_attendees (store_step protect p s)))"
  by (cases p)
    (simp_all add: store_step_attendees att_keys_commit upsert_rows_keys map_update_where_frame image_iff
      delete_where_def distinct_map_filter)

lemma att_keys_run:
  "distinct (map att_key (st_attendees s)) \<Longrightarrow> distinct (map att_key (st_attendees (run_store protect ops s)))"
  by (induction ops arbitrary: s) (simp_all add: att_keys_step)

definition committed :: "ai_commit \<Rightarrow> attendee_row \<Rightarrow> attendee_row" where
  "committed x r =
     r\<lparr>ar_ai_profile_json := Some (ac_aiProfileJson x), ar_profile_hash := Some (ac_profileHash x),
       ar_ai_source_revision := ac_aiSourceRevision x,
       ar_transcripts_json := Some (ac_transcriptsJson x), ar_updated_at := ac_now x\<rparr>"

lemma find_unique_key:
  "distinct (map att_key rows) \<Longrightarrow> r \<in> set rows \<Longrightarrow> List.find (\<lambda>r'. att_key r' = att_key r) rows = Some r"
  by (induction rows) (auto simp: image_iff)

lemma commit_matches:
  assumes "distinct (map att_key (st_attendees s))"
  shows "fst (commitAiProfile x s) \<longleftrightarrow>
    (\<exists>r. getAttendee (ac_coordinate x) (ac_pubkey x) s = Some r
       \<and> ar_source_revision r = ac_expectedSourceRevision x)"
proof
  assume "fst (commitAiProfile x s)"
  then obtain r where r: "r \<in> set (st_attendees s)" "att_key r = (ac_coordinate x, ac_pubkey x)"
    "ar_source_revision r = ac_expectedSourceRevision x"
    by (auto simp: commitAiProfile_def Let_def count_where_pos is_attendee_key)
  then show "\<exists>r. getAttendee (ac_coordinate x) (ac_pubkey x) s = Some r
       \<and> ar_source_revision r = ac_expectedSourceRevision x"
    using find_unique_key [OF assms r(1)] unfolding getAttendee_key by auto
next
  assume "\<exists>r. getAttendee (ac_coordinate x) (ac_pubkey x) s = Some r
       \<and> ar_source_revision r = ac_expectedSourceRevision x"
  then show "fst (commitAiProfile x s)"
    by (auto simp: commitAiProfile_def Let_def count_where_pos is_attendee_key getAttendee_key
        dest!: find_Some_in)
qed

lemma commit_rows:
  assumes "distinct (map att_key (st_attendees s))"
  shows "getAttendee c pk (snd (commitAiProfile x s)) =
     (if fst (commitAiProfile x s) \<and> (c, pk) = (ac_coordinate x, ac_pubkey x)
      then map_option (committed x) (getAttendee c pk s) else getAttendee c pk s)"
proof (cases "fst (commitAiProfile x s)")
  case True
  let ?k = "(ac_coordinate x, ac_pubkey x)"
  obtain r where r: "getAttendee (ac_coordinate x) (ac_pubkey x) s = Some r"
    "ar_source_revision r = ac_expectedSourceRevision x"
    using True commit_matches [OF assms] by blast
  have only: "ar_source_revision r' = ac_expectedSourceRevision x"
    if "r' \<in> set (st_attendees s)" "att_key r' = ?k" for r'
    using find_unique_key [OF assms that(1)] r that(2) unfolding getAttendee_key by simp
  have "st_attendees (snd (commitAiProfile x s))
      = update_where (\<lambda>r. att_key r = ?k) (committed x) (st_attendees s)"
    unfolding commitAiProfile_def Let_def update_where_def
    using only by (auto simp: is_attendee_key committed_def)
  moreover have "att_key (committed x r) = att_key r" for r by (simp add: committed_def att_key_def)
  ultimately show ?thesis using True by (simp add: getAttendee_key find_update_where)
next
  case False
  then have "st_attendees (snd (commitAiProfile x s)) = st_attendees s"
    by (auto simp: commitAiProfile_def Let_def count_where_pos intro!: update_where_id)
  then show ?thesis using False by (simp add: getAttendee_def)
qed

text \<open>
  The commit of a finished AI run is a compare-and-set on the submission it was derived from.
  It writes exactly when the attendee's row still carries that source revision, and then only that
  row's derived fields; when a newer submission with another revision was stored while the run was in
  flight, the stale result is discarded and nothing changes.
\<close>

theorem commitAiProfile_cas:
  assumes "distinct (map att_key (st_attendees s))"
  shows "(fst (commitAiProfile x s) \<longleftrightarrow>
      (\<exists>r. getAttendee (ac_coordinate x) (ac_pubkey x) s = Some r
         \<and> ar_source_revision r = ac_expectedSourceRevision x))
    \<and> getAttendee c pk (snd (commitAiProfile x s)) =
      (if fst (commitAiProfile x s) \<and> (c, pk) = (ac_coordinate x, ac_pubkey x)
       then map_option (committed x) (getAttendee c pk s) else getAttendee c pk s)
    \<and> (upsert_key u = (ac_coordinate x, ac_pubkey x) \<and> ua_sourceRevision u = Some newer
      \<and> ac_expectedSourceRevision x \<noteq> Some newer
      \<longrightarrow> commitAiProfile x (upsertAttendee u s) = (False, upsertAttendee u s))"
proof (intro conjI impI)
  show "fst (commitAiProfile x s) \<longleftrightarrow>
      (\<exists>r. getAttendee (ac_coordinate x) (ac_pubkey x) s = Some r
         \<and> ar_source_revision r = ac_expectedSourceRevision x)" by (rule commit_matches [OF assms])
  show "getAttendee c pk (snd (commitAiProfile x s)) =
      (if fst (commitAiProfile x s) \<and> (c, pk) = (ac_coordinate x, ac_pubkey x)
       then map_option (committed x) (getAttendee c pk s) else getAttendee c pk s)"
    by (rule commit_rows [OF assms])
  assume u: "upsert_key u = (ac_coordinate x, ac_pubkey x) \<and> ua_sourceRevision u = Some newer
    \<and> ac_expectedSourceRevision x \<noteq> Some newer"
  have "distinct (map att_key (st_attendees (upsertAttendee u s)))"
    using assms unfolding att_keys_upsert by simp
  then have no: "\<not> fst (commitAiProfile x (upsertAttendee u s))"
    using u by (auto simp: commit_matches getAttendee_upsert inserted_attendee_def updated_attendee_def
        coalesce_def split: option.splits)
  then have "snd (commitAiProfile x (upsertAttendee u s)) = upsertAttendee u s"
    by (auto simp: commitAiProfile_def Let_def count_where_pos intro!: event_store.equality update_where_id)
  with no show "commitAiProfile x (upsertAttendee u s) = (False, upsertAttendee u s)"
    by (simp add: prod_eq_iff)
qed

definition sample_upsert :: "string option \<Rightarrow> upsert_attendee" where
  "sample_upsert revision =
     \<lparr>ua_coordinate = ''e'', ua_pubkey = ''ann'', ua_role = None, ua_status = None,
      ua_profileJson = None, ua_aiProfileJson = None, ua_profileHash = None, ua_sourceRevision = revision,
      ua_aiSourceRevision = None, ua_transcriptsJson = None, ua_correctionJson = None, ua_displayName = None,
      ua_profileRev = None, ua_profileCreatedAt = None, ua_profileRumorId = None, ua_correctionRev = None,
      ua_correctionCreatedAt = None, ua_correctionRumorId = None, ua_now = 7\<rparr>"

lemma commitAiProfile_cas_witness:
  "commitAiProfile
     \<lparr>ac_coordinate = ''e'', ac_pubkey = ''ann'', ac_aiProfileJson = ''{}'', ac_profileHash = ''h'',
      ac_aiSourceRevision = Some ''r1'', ac_transcriptsJson = ''[]'', ac_expectedSourceRevision = Some ''r1'',
      ac_now = 9\<rparr>
     (upsertAttendee (sample_upsert (Some ''r2'')) (upsertAttendee (sample_upsert (Some ''r1'')) empty_store))
   = (False, upsertAttendee (sample_upsert (Some ''r2'')) (upsertAttendee (sample_upsert (Some ''r1'')) empty_store))"
  by (rule commitAiProfile_cas [THEN conjunct2, THEN conjunct2, rule_format, where newer = "''r2''"])
    (simp_all add: att_keys_upsert empty_store_def sample_upsert_def upsert_key_def)

lemma upsertAttendee_spec_witness:
  "map_option ar_status (getAttendee ''e'' ''ann''
     (upsertAttendee (sample_upsert (Some ''r2''))
        (upsertAttendee (sample_upsert (Some ''r1'')\<lparr>ua_status := Some ''approved''\<rparr>) empty_store)))
   = Some ''approved''
   \<and> approvedAttendees ''e'' (upsertAttendee (sample_upsert None\<lparr>ua_status := Some ''approved''\<rparr>) empty_store)
     = [inserted_attendee (sample_upsert None\<lparr>ua_status := Some ''approved''\<rparr>)]"
proof
  let ?u = "sample_upsert (Some ''r1'')\<lparr>ua_status := Some ''approved''\<rparr>"
  have keys: "ua_coordinate (sample_upsert r) = ''e''" "ua_pubkey (sample_upsert r) = ''ann''"
    "ua_status (sample_upsert r) = None" for r by (simp_all add: sample_upsert_def)
  have approved: "ar_status (inserted_attendee ?u) = ''approved''"
    by (simp add: inserted_attendee_def coalesce_value_def)
  have "getAttendee ''e'' ''ann'' (upsertAttendee ?u empty_store) = Some (inserted_attendee ?u)"
    unfolding upsertAttendee_spec [THEN conjunct1] by (simp add: sample_upsert_def getAttendee_def empty_store_def)
  then have "map_option ar_status (getAttendee ''e'' ''ann''
      (upsertAttendee (sample_upsert (Some ''r2'')) (upsertAttendee ?u empty_store)))
      = Some (ar_status (inserted_attendee ?u))"
    by (intro upsertAttendee_spec [THEN conjunct2, THEN conjunct1, rule_format]) (simp add: keys)
  then show "map_option ar_status (getAttendee ''e'' ''ann''
      (upsertAttendee (sample_upsert (Some ''r2'')) (upsertAttendee ?u empty_store))) = Some ''approved''"
    unfolding approved .
  show "approvedAttendees ''e'' (upsertAttendee (sample_upsert None\<lparr>ua_status := Some ''approved''\<rparr>) empty_store)
     = [inserted_attendee (sample_upsert None\<lparr>ua_status := Some ''approved''\<rparr>)]"
    by (subst upsertAttendee_spec [THEN conjunct2, THEN conjunct2, rule_format])
      (simp_all add: getAttendee_def empty_store_def approvedAttendees_def approved_def
        inserted_attendee_def sample_upsert_def coalesce_value_def)
qed

section \<open>Resumable command operations\<close>

definition op_of :: "string \<Rightarrow> string \<Rightarrow> event_store \<Rightarrow> command_op option" where
  "op_of c sub s = map_of (st_commands s) (c, sub)"

lemma map_of_update_values:
  "map_of (map (\<lambda>(k, w). (k, g k w)) kvs) k = map_option (g k) (map_of kvs k)"
  by (induction kvs) auto

lemma op_of_begin:
  "op_of c sub (beginCommandOp c' sub' t r s) =
     (if (c, sub) = (c', sub')
      then Some \<lparr>op_created_at = t, op_rumor_id = r, op_state = OpPending,
                 op_progress = (case op_of c sub s of
                   Some w \<Rightarrow> if op_rumor_id w = r then op_progress w else None | None \<Rightarrow> None)\<rparr>
      else op_of c sub s)"
  by (auto simp: op_of_def beginCommandOp_def getCommandWatermark_def update_conv')

lemma op_of_update:
  "op_of c sub (update_command c' sub' r f s) =
     map_option (\<lambda>w. if (c, sub) = (c', sub') \<and> op_rumor_id w = r then f w else w) (op_of c sub s)"
  unfolding op_of_def update_command_def by (simp add: map_of_update_values)

text \<open>
  A command operation resumes where it stopped. Progress saved by a rumor is read back when the
  same rumor begins again, and is gone once another rumor has taken the subject over; from then on
  neither a late completion nor a late progress write of the old rumor changes the operation.
\<close>

theorem command_op_resumes:
  assumes reveal: "\<And>x. reveal (protect x) = x"
    and saved: "s1 = setCommandOpProgress protect c sub r pr (beginCommandOp c sub t r s)"
  shows "getCommandOpProgress reveal c sub (beginCommandOp c sub t' r s1) = Some pr
    \<and> (r' \<noteq> r \<longrightarrow> getCommandOpProgress reveal c sub (beginCommandOp c sub t' r' s1) = None)
    \<and> (r' \<noteq> r \<and> s2 = beginCommandOp c sub t' r' s1
      \<longrightarrow> getCommandWatermark c sub (completeCommandOp c sub r (setCommandOpProgress protect c sub r late s2))
        = getCommandWatermark c sub s2)"
proof (intro conjI impI)
  have s1: "op_of c sub s1 = Some \<lparr>op_created_at = t, op_rumor_id = r, op_state = OpPending,
      op_progress = Some (protect pr)\<rparr>"
    by (simp add: saved setCommandOpProgress_def op_of_update op_of_begin)
  have wm: "getCommandWatermark c sub x = op_of c sub x" for x
    by (simp add: getCommandWatermark_def op_of_def)
  show "getCommandOpProgress reveal c sub (beginCommandOp c sub t' r s1) = Some pr"
    by (simp add: getCommandOpProgress_def wm op_of_begin s1 reveal)
  show "r' \<noteq> r \<Longrightarrow> getCommandOpProgress reveal c sub (beginCommandOp c sub t' r' s1) = None"
    by (simp add: getCommandOpProgress_def wm op_of_begin s1)
  show "r' \<noteq> r \<and> s2 = beginCommandOp c sub t' r' s1
      \<Longrightarrow> getCommandWatermark c sub (completeCommandOp c sub r (setCommandOpProgress protect c sub r late s2))
        = getCommandWatermark c sub s2"
    by (simp add: wm completeCommandOp_def setCommandOpProgress_def op_of_update op_of_begin s1)
qed

lemma command_op_resumes_witness:
  "getCommandOpProgress rev ''e'' ''ann''
     (beginCommandOp ''e'' ''ann'' 5 ''r1''
        (setCommandOpProgress rev ''e'' ''ann'' ''r1'' ''eck''
           (beginCommandOp ''e'' ''ann'' 5 ''r1'' empty_store))) = Some ''eck''"
  by (rule command_op_resumes [THEN conjunct1]) simp_all

end
