(* ===== verification/Entitlement.thy ===== *)
theory Entitlement
  imports Coordinate Event_Store
begin

text \<open>
  Who may walk in unattended (\<open>packages/coordinator/src/pipeline/entitlement.ts\<close>): the invite
  checker, the checker chain, and the membership-by-event checker of a community.

  The hash, the signature check and the invite hash are the parameters of the coordinate theory. A
  reason string is a constructor of \<open>reason\<close>; the handler compares two of them. Reading a child's
  config from relays is the argument \<open>fetchChildConfig\<close>, where \<open>None\<close> is both a failed fetch and
  a missing config, which the code treats alike.
\<close>

section \<open>The invite checker\<close>

record invite_policy =
  pol_uses :: nat
  pol_exp :: "int option"
  pol_label :: "string option"

definition invitePolicyOf :: "nat option \<Rightarrow> int option \<Rightarrow> string option \<Rightarrow> invite_policy" where
  "invitePolicyOf uses expiry label =
     \<lparr>pol_uses = coalesce_value uses 1, pol_exp = expiry, pol_label = label\<rparr>"

datatype reason =
    NoCheckerGranted
  | NoInviteProof | InvalidInviteProof | InviteExpired | InviteAlreadyUsed | ValidInvite
  | NoMemberOfProof | MemberOfInvalid | NotListedAsChild string | ConfigNotFetched string
  | ParentNotNamed string | NotAnAuthority string pubkey | SignatureFails string | MemberOf string
  | ManualQueue | OrganizerSelfJoin | SelfJoinFailed reason
  | Both reason reason
  | OpenApproval | OpenButRevoked reason | RosterFull

record decision =
  granted :: bool
  why :: reason

record entitlement_request =
  er_coordinate :: string
  er_attendee :: pubkey
  er_invite :: "invite_proof option"
  er_published :: "string \<Rightarrow> invite_policy option"

text \<open>What the code takes from its cryptographic libraries, together.\<close>

record 'h crypto =
  cr_sha :: "string \<Rightarrow> 'h"
  cr_verify :: "string \<Rightarrow> 'h \<Rightarrow> pubkey \<Rightarrow> bool"
  cr_invite_hash :: "pubkey \<Rightarrow> string"

definition invite_valid :: "'h crypto \<Rightarrow> invite_proof \<Rightarrow> entitlement_request \<Rightarrow> bool" where
  "invite_valid cr pr req =
     isInviteValid (cr_sha cr) (cr_verify cr) (cr_invite_hash cr) pr
       (\<lambda>h. er_published req h \<noteq> None) (er_coordinate req) (er_attendee req)"

definition deny :: "reason \<Rightarrow> decision" where "deny r = \<lparr>granted = False, why = r\<rparr>"
definition allow :: "reason \<Rightarrow> decision" where "allow r = \<lparr>granted = True, why = r\<rparr>"

lemma decision_simps [simp]:
  "granted (deny r) = False" "granted (allow r) = True" "why (deny r) = r" "why (allow r) = r"
  by (simp_all add: deny_def allow_def)

definition check_invite ::
  "'h crypto \<Rightarrow> entitlement_request \<Rightarrow> int \<Rightarrow> event_store \<Rightarrow> decision \<times> event_store" where
  "check_invite cr req now s =
     (case er_invite req of
        None \<Rightarrow> (deny NoInviteProof, s)
      | Some pr \<Rightarrow>
          if \<not> invite_valid cr pr req then (deny InvalidInviteProof, s)
          else
            let policy = (case er_published req (cr_invite_hash cr (ip_pubkey pr)) of
                            Some p \<Rightarrow> p | None \<Rightarrow> \<lparr>pol_uses = 1, pol_exp = None, pol_label = None\<rparr>)
            in if (case pol_exp policy of Some e \<Rightarrow> now div 1000 > e | None \<Rightarrow> False)
               then (deny InviteExpired, s)
               else
                 let (claimed, s') = claimInvite (er_coordinate req) (ip_pubkey pr) (er_attendee req)
                                       now (pol_uses policy) s
                 in if \<not> claimed then (deny InviteAlreadyUsed, s') else (allow ValidInvite, s'))"

type_synonym checker = "entitlement_request \<Rightarrow> int \<Rightarrow> event_store \<Rightarrow> decision \<times> event_store"

fun evaluate_loop ::
  "decision \<Rightarrow> checker list \<Rightarrow> entitlement_request \<Rightarrow> int \<Rightarrow> event_store \<Rightarrow> decision \<times> event_store" where
  "evaluate_loop d [] req now s = (d, s)"
| "evaluate_loop d (c # cs) req now s =
     (let (d', s') = c req now s
      in if granted d' then (d', s') else evaluate_loop d' cs req now s')"

definition evaluateEntitlement ::
  "checker list \<Rightarrow> entitlement_request \<Rightarrow> int \<Rightarrow> event_store \<Rightarrow> decision \<times> event_store" where
  "evaluateEntitlement checkers req now s = evaluate_loop (deny NoCheckerGranted) checkers req now s"

lemma evaluate_single [simp]: "evaluateEntitlement [c] req now s = c req now s"
  by (cases "c req now s") (simp add: evaluateEntitlement_def)

section \<open>The membership-by-event checker\<close>

record member_of_request =
  mr_coordinate :: string
  mr_attendee :: pubkey
  mr_tags :: "tag list"
  mr_children :: "string list"

definition check_proof ::
  "'h crypto \<Rightarrow> (string \<Rightarrow> link_config option) \<Rightarrow> member_of_request \<Rightarrow> member_of_claim \<Rightarrow> decision" where
  "check_proof cr fetchChildConfig req p =
     (let child = mo_child p in
      if child \<notin> set (mr_children req) then deny (NotListedAsChild child)
      else (case fetchChildConfig child of
              None \<Rightarrow> deny (ConfigNotFetched child)
            | Some cfg \<Rightarrow>
                if \<not> isLinked (mr_coordinate req) (Some (mr_children req)) child (lc_parent cfg)
                then deny (ParentNotNamed child)
                else
                  let authorities = membershipAuthorities child (lc_coordinator cfg) in
                  if mo_by p \<notin> set authorities then deny (NotAnAuthority child (mo_by p))
                  else if \<not> verifyMembershipProof (cr_sha cr) (cr_verify cr) (mo_by p) (mo_sig p)
                              (mr_coordinate req) child (mr_attendee req) authorities
                  then deny (SignatureFails child)
                  else allow (MemberOf child)))"

fun proof_loop ::
  "'h crypto \<Rightarrow> (string \<Rightarrow> link_config option) \<Rightarrow> member_of_request \<Rightarrow> reason \<Rightarrow> member_of_claim list \<Rightarrow> decision"
  where
  "proof_loop cr fetch req r [] = deny r"
| "proof_loop cr fetch req r (p # ps) =
     (let d = check_proof cr fetch req p in if granted d then d else proof_loop cr fetch req (why d) ps)"

definition check_member_of ::
  "'h crypto \<Rightarrow> (string \<Rightarrow> link_config option) \<Rightarrow> member_of_request \<Rightarrow> decision" where
  "check_member_of cr fetch req =
     (let proofs = parseMemberOfTags (mr_tags req)
      in if proofs = [] then deny NoMemberOfProof else proof_loop cr fetch req MemberOfInvalid proofs)"

section \<open>What a grant rests on\<close>

text \<open>The attendee holds a redemption of a published code whose signature is bound to them.\<close>

definition entitled_by_invite ::
  "'h crypto \<Rightarrow> entitlement_request \<Rightarrow> int \<Rightarrow> event_store \<Rightarrow> bool" where
  "entitled_by_invite cr req now s \<longleftrightarrow>
     (\<exists>pr p. er_invite req = Some pr
        \<and> hex32 (ip_pubkey pr) \<and> hex64 (ip_sig pr)
        \<and> cr_verify cr (ip_sig pr) (inviteChallenge (cr_sha cr) (er_coordinate req) (er_attendee req))
            (ip_pubkey pr)
        \<and> er_published req (cr_invite_hash cr (ip_pubkey pr)) = Some p
        \<and> (\<forall>e. pol_exp p = Some e \<longrightarrow> now div 1000 \<le> e)
        \<and> er_attendee req \<in> redeemers (er_coordinate req) (ip_pubkey pr) s)"

lemma claim_held:
  "fst (claimInvite c i p now m s) \<Longrightarrow> p \<in> redeemers c i (snd (claimInvite c i p now m s))"
  using redeemers_claim [of c i c i p now m s] by simp

lemma check_invite_grants:
  assumes "granted (fst (check_invite cr req now s))"
  shows "entitled_by_invite cr req now (snd (check_invite cr req now s))"
proof -
  obtain pr p where p: "er_invite req = Some pr" "invite_valid cr pr req"
    "er_published req (cr_invite_hash cr (ip_pubkey pr)) = Some p"
    using assms
    by (auto simp: check_invite_def invite_valid_def isInviteValid_def split: option.splits if_splits)
  let ?c = "claimInvite (er_coordinate req) (ip_pubkey pr) (er_attendee req) now (pol_uses p) s"
  from p assms have e: "\<not> (case pol_exp p of Some e \<Rightarrow> now div 1000 > e | None \<Rightarrow> False)"
    by (auto simp: check_invite_def)
  with p have "check_invite cr req now s
      = (if fst ?c then (allow ValidInvite, snd ?c) else (deny InviteAlreadyUsed, snd ?c))"
    by (auto simp: check_invite_def case_prod_unfold Let_def)
  with assms have "fst ?c" "snd (check_invite cr req now s) = snd ?c" by (auto split: if_splits)
  then show ?thesis using p e claim_held
    by (auto simp: entitled_by_invite_def invite_valid_def isInviteValid_def verifyInviteProof_def
        split: if_splits option.splits)
qed

lemma claim_refused: "\<not> fst (claimInvite c i p now m s) \<Longrightarrow> snd (claimInvite c i p now m s) = s"
  by (auto simp: claimInvite_cases split: if_splits)

lemma check_invite_refuses:
  assumes "\<not> granted (fst (check_invite cr req now s))"
  shows "snd (check_invite cr req now s) = s"
proof (cases "er_invite req")
  case None
  then show ?thesis by (simp add: check_invite_def)
next
  case (Some pr)
  define m where "m = pol_uses (case er_published req (cr_invite_hash cr (ip_pubkey pr)) of
    Some p \<Rightarrow> p | None \<Rightarrow> \<lparr>pol_uses = 1, pol_exp = None, pol_label = None\<rparr>)"
  let ?c = "claimInvite (er_coordinate req) (ip_pubkey pr) (er_attendee req) now m s"
  have "snd (check_invite cr req now s) = s \<or>
      check_invite cr req now s = (if \<not> fst ?c then (deny InviteAlreadyUsed, snd ?c) else (allow ValidInvite, snd ?c))"
    by (simp add: check_invite_def Some Let_def case_prod_unfold m_def)
  then show ?thesis using assms claim_refused [of "er_coordinate req" "ip_pubkey pr" "er_attendee req" now m s]
    by (cases "fst ?c") auto
qed

lemma check_invite_store:
  "snd (check_invite cr req now s) = s
   \<or> (\<exists>i m. snd (check_invite cr req now s) = snd (claimInvite (er_coordinate req) i (er_attendee req) now m s))"
  by (auto simp: check_invite_def Let_def case_prod_unfold split: option.splits)

text \<open>The child lists the community, the signer is an authority of the child, and signed this link.\<close>

definition entitled_by_child ::
  "'h crypto \<Rightarrow> (string \<Rightarrow> link_config option) \<Rightarrow> member_of_request \<Rightarrow> bool" where
  "entitled_by_child cr fetch req \<longleftrightarrow>
     (\<exists>p cfg. p \<in> set (parseMemberOfTags (mr_tags req)) \<and> fetch (mo_child p) = Some cfg
        \<and> isLinked (mr_coordinate req) (Some (mr_children req)) (mo_child p) (lc_parent cfg)
        \<and> mo_by p \<in> set (membershipAuthorities (mo_child p) (lc_coordinator cfg))
        \<and> cr_verify cr (mo_sig p)
            (membershipChallenge (cr_sha cr) (mr_coordinate req) (mo_child p) (mr_attendee req)) (mo_by p))"

lemma check_proof_grants:
  "granted (check_proof cr fetch req p) \<longleftrightarrow>
     (\<exists>cfg. fetch (mo_child p) = Some cfg
        \<and> isLinked (mr_coordinate req) (Some (mr_children req)) (mo_child p) (lc_parent cfg)
        \<and> mo_by p \<in> set (membershipAuthorities (mo_child p) (lc_coordinator cfg))
        \<and> verifyMembershipProof (cr_sha cr) (cr_verify cr) (mo_by p) (mo_sig p) (mr_coordinate req)
            (mo_child p) (mr_attendee req) (membershipAuthorities (mo_child p) (lc_coordinator cfg)))"
  by (auto simp: check_proof_def Let_def isLinked_def split: option.splits)

lemma proof_loop_grants:
  "granted (proof_loop cr fetch req r ps) \<longleftrightarrow> (\<exists>p\<in>set ps. granted (check_proof cr fetch req p))"
  by (induction ps arbitrary: r) (auto simp: Let_def)

lemma check_member_of_grants:
  "granted (check_member_of cr fetch req) \<Longrightarrow> entitled_by_child cr fetch req"
  by (force simp: check_member_of_def proof_loop_grants check_proof_grants entitled_by_child_def
      verifyMembershipProof_def Let_def split: if_splits)

text \<open>
  (C29) Evaluating any chain made of the invite checker grants only to an attendee who presents a
  signature bound to this event and this attendee by a code the organizer published and that has not
  expired, and who afterwards holds one of that code's redemptions; a refusal leaves every redemption
  as it was. A membership proof is accepted exactly when some claim in the request names a listed
  child whose newest config names this community as its parent, and is signed for this attendee by
  an authority of that child; claims that fail do not mask one that holds.
\<close>

theorem entitlement_sound:
  "(granted (fst (evaluateEntitlement [check_invite cr] req now s)) \<longrightarrow>
      entitled_by_invite cr req now (snd (evaluateEntitlement [check_invite cr] req now s)))
   \<and> (\<not> granted (fst (evaluateEntitlement [check_invite cr] req now s)) \<longrightarrow>
      snd (evaluateEntitlement [check_invite cr] req now s) = s)
   \<and> (granted (check_member_of cr fetch mreq) \<longleftrightarrow>
      (\<exists>p\<in>set (parseMemberOfTags (mr_tags mreq)). granted (check_proof cr fetch mreq p)))
   \<and> (granted (check_member_of cr fetch mreq) \<longrightarrow> entitled_by_child cr fetch mreq)"
proof (intro conjI impI)
  show "granted (fst (evaluateEntitlement [check_invite cr] req now s)) \<Longrightarrow>
      entitled_by_invite cr req now (snd (evaluateEntitlement [check_invite cr] req now s))"
    unfolding evaluate_single by (rule check_invite_grants)
  show "\<not> granted (fst (evaluateEntitlement [check_invite cr] req now s)) \<Longrightarrow>
      snd (evaluateEntitlement [check_invite cr] req now s) = s"
    unfolding evaluate_single by (rule check_invite_refuses)
  show "granted (check_member_of cr fetch mreq) \<longleftrightarrow>
      (\<exists>p\<in>set (parseMemberOfTags (mr_tags mreq)). granted (check_proof cr fetch mreq p))"
    by (auto simp: check_member_of_def Let_def proof_loop_grants)
  show "granted (check_member_of cr fetch mreq) \<Longrightarrow> entitled_by_child cr fetch mreq"
    by (rule check_member_of_grants)
qed

text \<open>A concrete scheme: a signature is the key twice, the hash and the invite hash the identity.\<close>

definition toy_crypto :: "string crypto" where
  "toy_crypto = \<lparr>cr_sha = id, cr_verify = (\<lambda>sig _ pk. sig = pk @ pk), cr_invite_hash = id\<rparr>"

definition toy_code :: pubkey where "toy_code = replicate 64 CHR ''a''"

definition toy_request :: entitlement_request where
  "toy_request = \<lparr>er_coordinate = ''e'', er_attendee = ''ann'',
     er_invite = Some \<lparr>ip_pubkey = toy_code, ip_sig = toy_code @ toy_code\<rparr>,
     er_published = [toy_code \<mapsto> invitePolicyOf (Some 2) (Some 50) None]\<rparr>"

lemma toy_code_hex: "hex32 toy_code" "hex64 (toy_code @ toy_code)"
  by (simp_all add: toy_code_def hex32_def hex64_def is_lower_hex_def list_all_iff)

lemma toy_claim:
  "check_invite toy_crypto toy_request 40000 empty_store
     = (allow ValidInvite, snd (claimInvite ''e'' toy_code ''ann'' 40000 2 empty_store))"
  by (simp add: check_invite_def toy_request_def invite_valid_def isInviteValid_def toy_code_hex toy_crypto_def
      verifyInviteProof_def invitePolicyOf_def coalesce_value_def claimInvite_def empty_store_def
      inviteRedemptions_def)

lemma entitlement_sound_witness:
  "entitled_by_invite toy_crypto toy_request 40000
     (snd (evaluateEntitlement [check_invite toy_crypto] toy_request 40000 empty_store))"
  by (rule entitlement_sound [THEN conjunct1, rule_format]) (simp add: toy_claim)

end
