(* ===== verification/Membership.thy ===== *)
theory Membership
  imports Entitlement Config
begin

text \<open>
  The join handler of the coordinator (\<open>handleJoinLocked\<close> and \<open>organizerSelfJoin\<close> in
  \<open>packages/coordinator/src/coordinator.ts\<close>): who is admitted, queued or refused.

  The daemon's state is its store and the live events. The handler awaits relay round trips; what the
  other handlers do meanwhile is the argument \<open>jv_await\<close>: at the \<open>n\<close>-th await, any run of store
  statements and any change of the live events. What the relays answer (the published invite
  hashes as cached and as fetched again, the children's configs), whether the roster still fits one
  more member, and the clock are arguments too. The handler's outcome says whether it called
  \<open>grantAndPublish\<close> for the attendee, or threw; log lines and status notices are left out.
\<close>

section \<open>State\<close>

record event_state =
  es_coordinate :: string
  es_space_kind :: nat
  es_eid :: pubkey
  es_gen :: nat
  es_approval :: approval
  es_children :: "string list option"
  es_retention_expired :: bool

record daemon =
  dm_store :: event_store
  dm_events :: "string \<Rightarrow> event_state option"

definition MAX_ATTENDEES_PER_EVENT :: nat where "MAX_ATTENDEES_PER_EVENT = 2000"
definition MAX_PENDING_JOINS_PER_EVENT :: nat where "MAX_PENDING_JOINS_PER_EVENT = 1000"
definition PENDING_JOIN_TTL_MS :: int where "PENDING_JOIN_TTL_MS = 3 * 24 * 60 * 60 * 1000"
definition JOIN_STALE_AFTER_SEC :: int where "JOIN_STALE_AFTER_SEC = 5 * 60"
definition ORGANIZER_SELF_INVITE_LABEL :: string where "ORGANIZER_SELF_INVITE_LABEL = ''organizer-self''"

definition eventStillLive :: "string \<Rightarrow> nat option \<Rightarrow> daemon \<Rightarrow> bool" where
  "eventStillLive coordinate gen d =
     (case dm_events d coordinate of
        None \<Rightarrow> False
      | Some s \<Rightarrow>
          if es_retention_expired s \<or> isRetentionExpired coordinate (dm_store d) then False
          else if isInstallTombstoned coordinate (dm_store d) then False
          else (case gen of Some g \<Rightarrow> es_gen s = g | None \<Rightarrow> True))"

definition pendingQueueFull :: "string \<Rightarrow> int \<Rightarrow> event_store \<Rightarrow> bool \<times> event_store" where
  "pendingQueueFull coordinate now s =
     (if pendingAttendeeCount coordinate s < MAX_PENDING_JOINS_PER_EVENT then (False, s)
      else
        let stale = stalePendingPubkeys coordinate (now - PENDING_JOIN_TTL_MS) s;
            s' = foldl (\<lambda>s pk. purge_attendee_row coordinate pk s) s stale
        in (MAX_PENDING_JOINS_PER_EVENT \<le> pendingAttendeeCount coordinate s', s'))"

section \<open>The environment of one join\<close>

record join_order =
  jo_created_at :: int
  jo_rumor_id :: string

record 'h join_env =
  jv_crypto :: "'h crypto"
  jv_now :: int
  jv_cached :: "string \<Rightarrow> invite_policy option"
  jv_fresh :: "string \<Rightarrow> invite_policy option"
  jv_child :: "string \<Rightarrow> link_config option"
  jv_fits :: "event_store \<Rightarrow> bool"
  jv_protect :: "string \<Rightarrow> string"
  jv_await :: "nat \<Rightarrow> store_op list"
  jv_events :: "nat \<Rightarrow> (string \<Rightarrow> event_state option) \<Rightarrow> string \<Rightarrow> event_state option"

definition await :: "'h join_env \<Rightarrow> nat \<Rightarrow> daemon \<Rightarrow> daemon" where
  "await env n d =
     \<lparr>dm_store = run_store (jv_protect env) (jv_await env n) (dm_store d),
      dm_events = jv_events env n (dm_events d)\<rparr>"

definition update_store :: "(event_store \<Rightarrow> event_store) \<Rightarrow> daemon \<Rightarrow> daemon" where
  "update_store f d = d\<lparr>dm_store := f (dm_store d)\<rparr>"

definition join_upsert :: "string \<Rightarrow> pubkey \<Rightarrow> string \<Rightarrow> string \<Rightarrow> int \<Rightarrow> upsert_attendee" where
  "join_upsert coordinate pk status nm now =
     \<lparr>ua_coordinate = coordinate, ua_pubkey = pk, ua_role = None, ua_status = Some status,
      ua_profileJson = None, ua_aiProfileJson = None, ua_profileHash = None, ua_sourceRevision = None,
      ua_aiSourceRevision = None, ua_transcriptsJson = None, ua_correctionJson = None,
      ua_displayName = (if js_trim nm = [] then None else Some (js_trim nm)),
      ua_profileRev = None, ua_profileCreatedAt = None, ua_profileRumorId = None, ua_correctionRev = None,
      ua_correctionCreatedAt = None, ua_correctionRumorId = None, ua_now = now\<rparr>"

definition invite_of :: "tag list \<Rightarrow> invite_proof option" where
  "invite_of tags =
     (case List.find (\<lambda>t. t \<noteq> [] \<and> hd t = ''invite'') tags of
        Some (_ # k # g # _) \<Rightarrow> if k \<noteq> [] \<and> g \<noteq> [] then Some \<lparr>ip_pubkey = k, ip_sig = g\<rparr> else None
      | _ \<Rightarrow> None)"

definition join_request ::
  "event_state \<Rightarrow> pubkey \<Rightarrow> invite_proof option \<Rightarrow> (string \<Rightarrow> invite_policy option) \<Rightarrow> entitlement_request" where
  "join_request st pk invite published =
     \<lparr>er_coordinate = es_coordinate st, er_attendee = pk, er_invite = invite, er_published = published\<rparr>"

definition child_request :: "event_state \<Rightarrow> pubkey \<Rightarrow> tag list \<Rightarrow> member_of_request" where
  "child_request st pk tags =
     \<lparr>mr_coordinate = es_coordinate st, mr_attendee = pk, mr_tags = tags,
      mr_children = (case es_children st of None \<Rightarrow> [] | Some cs \<Rightarrow> cs)\<rparr>"

definition has_member_of :: "event_state \<Rightarrow> tag list \<Rightarrow> bool" where
  "has_member_of st tags \<longleftrightarrow> es_space_kind st = KIND_COMMUNITY \<and> parseMemberOfTags tags \<noteq> []"

section \<open>The handler\<close>

text \<open>
  \<open>inviteHash\<close> decodes its argument with \<open>hexToBytes\<close>, which throws on anything but an even number
  of hexadecimal digits.
\<close>

definition decodable_hex :: "string \<Rightarrow> bool" where
  "decodable_hex s \<longleftrightarrow> even (length s) \<and> list_all (\<lambda>c. c \<in> set ''0123456789abcdefABCDEF'') s"

datatype outcome = Granted | NotGranted | Threw

text \<open>One evaluation of the invite checker on the store of the daemon.\<close>

definition evaluate ::
  "'h join_env \<Rightarrow> event_state \<Rightarrow> pubkey \<Rightarrow> invite_proof option \<Rightarrow> (string \<Rightarrow> invite_policy option)
   \<Rightarrow> daemon \<Rightarrow> decision \<times> daemon" where
  "evaluate env st pk invite published d =
     (let (dec, s) = evaluateEntitlement [check_invite (jv_crypto env)]
                       (join_request st pk invite published) (jv_now env) (dm_store d)
      in (dec, d\<lparr>dm_store := s\<rparr>))"

definition organizerSelfJoin ::
  "'h join_env \<Rightarrow> event_state \<Rightarrow> pubkey \<Rightarrow> invite_proof option \<Rightarrow> daemon \<Rightarrow> decision option \<times> daemon" where
  "organizerSelfJoin env st pk invite d =
     (case invite of
        None \<Rightarrow> (Some (deny ManualQueue), d)
      | Some pr \<Rightarrow>
          if \<not> decodable_hex (ip_pubkey pr) then (None, d)
          else let h = cr_invite_hash (jv_crypto env) (ip_pubkey pr);
              d1 = await env 1 d;
              (policy, d2) = (case jv_cached env h of
                                Some p \<Rightarrow> (Some p, d1)
                              | None \<Rightarrow> (jv_fresh env h, await env 2 d1))
          in case policy of
               None \<Rightarrow> (Some (deny ManualQueue), d2)
             | Some p \<Rightarrow>
                 if pol_label p \<noteq> Some ORGANIZER_SELF_INVITE_LABEL then (Some (deny ManualQueue), d2)
                 else
                   let (dec, d3) = evaluate env st pk invite [h \<mapsto> p] d2
                   in (Some (if granted dec then allow OrganizerSelfJoin else deny (SelfJoinFailed (why dec))), d3))"

definition stale_join ::
  "int \<Rightarrow> string \<Rightarrow> pubkey \<Rightarrow> join_order option \<Rightarrow> attendee_row option \<Rightarrow> event_store \<Rightarrow> bool" where
  "stale_join now coordinate pk order existing s =
     (case order of
        None \<Rightarrow> False
      | Some ord \<Rightarrow>
          (existing = None \<or> map_option ar_status existing = Some ''revoked'')
          \<and> (case getCommandWatermark coordinate (''member:'' @ pk) s of
               None \<Rightarrow> False
             | Some w \<Rightarrow> op_state w = OpComplete \<and> op_rumor_id w \<noteq> jo_rumor_id ord
                 \<and> jo_created_at ord < op_created_at w
                 \<and> now div 1000 - jo_created_at ord > JOIN_STALE_AFTER_SEC))"

text \<open>The status write both paths end with, given the decision.\<close>

definition settle_join ::
  "'h join_env \<Rightarrow> event_state \<Rightarrow> pubkey \<Rightarrow> string \<Rightarrow> bool \<Rightarrow> decision \<Rightarrow> daemon \<Rightarrow> outcome \<times> daemon" where
  "settle_join env st pk nm queueFull dec d =
     (let current = getAttendee (es_coordinate st) pk (dm_store d)
      in if \<not> granted dec \<and> current = None \<and> queueFull then (NotGranted, d)
         else
           let status = (if granted dec then ''approved''
                         else (case current of Some r \<Rightarrow> ar_status r | None \<Rightarrow> ''pending''))
           in (if granted dec then Granted else NotGranted,
               update_store (upsertAttendee (join_upsert (es_coordinate st) pk status nm (jv_now env))) d))"

definition join_manual ::
  "'h join_env \<Rightarrow> event_state \<Rightarrow> pubkey \<Rightarrow> tag list \<Rightarrow> string \<Rightarrow> invite_proof option \<Rightarrow> bool \<Rightarrow> daemon
   \<Rightarrow> outcome \<times> daemon" where
  "join_manual env st pk tags nm invite queueFull d =
     (case organizerSelfJoin env st pk invite d of
        (None, d1) \<Rightarrow> (Threw, d1)
      | (Some self, d1) \<Rightarrow>
          let (dec, d2) =
                (if \<not> granted self \<and> has_member_of st tags
                 then let m = check_member_of (jv_crypto env) (jv_child env) (child_request st pk tags)
                      in (if granted m then m else self, await env 3 d1)
                 else (self, d1));
              fits = jv_fits env (dm_store d2);
              d3 = (if granted dec then await env 4 d2 else d2)
          in if granted dec \<and> \<not> fits then (NotGranted, d3)
             else if \<not> eventStillLive (es_coordinate st) (Some (es_gen st)) d3 then (NotGranted, d3)
             else settle_join env st pk nm queueFull dec d3)"

definition join_entitled ::
  "'h join_env \<Rightarrow> event_state \<Rightarrow> pubkey \<Rightarrow> tag list \<Rightarrow> string \<Rightarrow> invite_proof option
   \<Rightarrow> attendee_row option \<Rightarrow> bool \<Rightarrow> daemon \<Rightarrow> outcome \<times> daemon" where
  "join_entitled env st pk tags nm invite existing queueFull d =
     (let (dec, d1) = evaluate env st pk invite (jv_cached env) (await env 1 d);
          (dec, d2) = (if \<not> granted dec \<and> why dec = InvalidInviteProof
                       then evaluate env st pk invite (jv_fresh env) (await env 2 d1) else (dec, d1));
          (dec, d3) =
            (if \<not> granted dec \<and> has_member_of st tags
             then let m = check_member_of (jv_crypto env) (jv_child env) (child_request st pk tags)
                  in (if granted m then m
                      else deny (if why dec = NoInviteProof then why m else Both (why dec) (why m)),
                      await env 3 d2)
             else (dec, d2));
          inviteOnlyReject = (es_approval st = InviteOnly \<and> \<not> granted dec);
          dec = (if \<not> granted dec \<and> es_approval st = Open
                 then (if map_option ar_status existing = Some ''revoked''
                       then deny (OpenButRevoked (why dec)) else allow OpenApproval)
                 else dec);
          fits = jv_fits env (dm_store d3);
          d4 = (if granted dec then await env 4 d3 else d3);
          dec = (if granted dec \<and> \<not> fits then deny RosterFull else dec)
      in if \<not> eventStillLive (es_coordinate st) (Some (es_gen st)) d4 then (NotGranted, d4)
         else if inviteOnlyReject
         then (NotGranted, if existing = None then update_store (purge_attendee_row (es_coordinate st) pk) d4 else d4)
         else settle_join env st pk nm queueFull dec d4)"

definition handleJoinLocked ::
  "'h join_env \<Rightarrow> event_state \<Rightarrow> pubkey \<Rightarrow> tag list \<Rightarrow> string \<Rightarrow> join_order option \<Rightarrow> daemon
   \<Rightarrow> outcome \<times> daemon" where
  "handleJoinLocked env st pk tags nm order d =
     (let c = es_coordinate st; s = dm_store d; existing = getAttendee c pk s
      in if isRevoked c pk s then (NotGranted, d)
         else if map_option ar_status existing = Some ''approved'' then (Granted, d)
         else if stale_join (jv_now env) c pk order existing s then (NotGranted, d)
         else if existing = None \<and> MAX_ATTENDEES_PER_EVENT \<le> approvedAttendeeCount c s then (NotGranted, d)
         else
           let (queueFull, s1) = (if existing = None then pendingQueueFull c (jv_now env) s else (False, s));
               invite = invite_of tags;
               d1 = d\<lparr>dm_store := s1\<rparr>
           in if es_approval st = InviteOnly \<and> invite = None \<and> \<not> has_member_of st tags then (NotGranted, d1)
              else
                let d2 = (if queueFull then d1
                          else update_store (upsertAttendee (join_upsert c pk ''pending'' nm (jv_now env))) d1)
                in if es_approval st = Manual then join_manual env st pk tags nm invite queueFull d2
                   else join_entitled env st pk tags nm invite existing queueFull d2)"

section \<open>Lemmas of the parts\<close>

definition row_status :: "string \<Rightarrow> pubkey \<Rightarrow> event_store \<Rightarrow> string option" where
  "row_status c pk s = map_option ar_status (getAttendee c pk s)"

lemma row_status_join_upsert:
  "row_status c pk (upsertAttendee (join_upsert c' pk' status nm now) s) =
     (if (c, pk) = (c', pk') then Some status else row_status c pk s)"
  by (auto simp: row_status_def getAttendee_upsert join_upsert_def upsert_key_def inserted_attendee_def
      updated_attendee_def coalesce_value_def split: option.split)

lemma live_upsert [simp]:
  "eventStillLive c g (update_store (upsertAttendee u) d) = eventStillLive c g d"
  by (simp add: eventStillLive_def update_store_def isRetentionExpired_def isInstallTombstoned_def
      upsertAttendee_def split: option.split)

lemma settle_join_Granted:
  assumes "fst (settle_join env st pk nm qf dec d) = Granted"
  shows "granted dec"
    and "row_status (es_coordinate st) pk (dm_store (snd (settle_join env st pk nm qf dec d))) = Some ''approved''"
    and "eventStillLive c g (snd (settle_join env st pk nm qf dec d)) = eventStillLive c g d"
  using assms
  by (auto simp: settle_join_def Let_def update_store_def row_status_join_upsert split: if_splits)
    (simp_all flip: update_store_def)

lemma settle_join_not_threw: "fst (settle_join env st pk nm qf dec d) \<noteq> Threw"
  by (simp add: settle_join_def Let_def)

lemma evaluate_granted:
  "granted (fst (evaluate env st pk invite published d)) \<Longrightarrow>
     entitled_by_invite (jv_crypto env) (join_request st pk invite published) (jv_now env)
       (dm_store (snd (evaluate env st pk invite published d)))"
  using check_invite_grants [of "jv_crypto env" "join_request st pk invite published" "jv_now env" "dm_store d"]
  by (simp add: evaluate_def case_prod_unfold Let_def)

text \<open>What an admission may rest on, for each approval policy of the event.\<close>

definition by_invite ::
  "'h join_env \<Rightarrow> event_state \<Rightarrow> pubkey \<Rightarrow> tag list \<Rightarrow> (string \<Rightarrow> invite_policy option) \<Rightarrow> bool" where
  "by_invite env st pk tags published \<longleftrightarrow>
     (\<exists>s. entitled_by_invite (jv_crypto env) (join_request st pk (invite_of tags) published) (jv_now env) s)"

definition by_child :: "'h join_env \<Rightarrow> event_state \<Rightarrow> pubkey \<Rightarrow> tag list \<Rightarrow> bool" where
  "by_child env st pk tags \<longleftrightarrow>
     has_member_of st tags \<and> entitled_by_child (jv_crypto env) (jv_child env) (child_request st pk tags)"

definition organizer_codes :: "(string \<Rightarrow> invite_policy option) \<Rightarrow> string \<Rightarrow> invite_policy option" where
  "organizer_codes published h =
     (case published h of
        Some p \<Rightarrow> if pol_label p = Some ORGANIZER_SELF_INVITE_LABEL then Some p else None
      | None \<Rightarrow> None)"

definition admissible ::
  "'h join_env \<Rightarrow> event_state \<Rightarrow> pubkey \<Rightarrow> tag list \<Rightarrow> string option \<Rightarrow> bool" where
  "admissible env st pk tags status \<longleftrightarrow>
     (case es_approval st of
        Manual \<Rightarrow> by_invite env st pk tags (organizer_codes (jv_cached env))
                  \<or> by_invite env st pk tags (organizer_codes (jv_fresh env)) \<or> by_child env st pk tags
      | Open \<Rightarrow> by_invite env st pk tags (jv_cached env) \<or> by_invite env st pk tags (jv_fresh env)
                \<or> by_child env st pk tags \<or> status \<noteq> Some ''revoked''
      | _ \<Rightarrow> by_invite env st pk tags (jv_cached env) \<or> by_invite env st pk tags (jv_fresh env)
             \<or> by_child env st pk tags)"

lemma entitled_one_code:
  "entitled_by_invite cr (join_request st pk (Some pr) [cr_invite_hash cr (ip_pubkey pr) \<mapsto> p]) now s
     \<Longrightarrow> published (cr_invite_hash cr (ip_pubkey pr)) = Some p
     \<Longrightarrow> pol_label p = Some ORGANIZER_SELF_INVITE_LABEL
     \<Longrightarrow> entitled_by_invite cr (join_request st pk (Some pr) (organizer_codes published)) now s"
  by (auto simp: entitled_by_invite_def join_request_def organizer_codes_def)

lemma organizerSelfJoin_granted:
  assumes "organizerSelfJoin env st pk (invite_of tags) d = (Some dec, d')" and "granted dec"
  shows "by_invite env st pk tags (organizer_codes (jv_cached env))
       \<or> by_invite env st pk tags (organizer_codes (jv_fresh env))"
proof -
  from assms obtain pr where pr: "invite_of tags = Some pr"
    by (auto simp: organizerSelfJoin_def split: option.splits)
  let ?h = "cr_invite_hash (jv_crypto env) (ip_pubkey pr)"
  from assms pr obtain p d2 where p: "jv_cached env ?h = Some p \<or> jv_fresh env ?h = Some p"
    and label: "pol_label p = Some ORGANIZER_SELF_INVITE_LABEL"
    and ok: "granted (fst (evaluate env st pk (Some pr) [?h \<mapsto> p] d2))"
    by (auto simp: organizerSelfJoin_def Let_def case_prod_unfold split: option.splits if_splits)
  from evaluate_granted [OF ok] obtain s where
    "entitled_by_invite (jv_crypto env) (join_request st pk (Some pr) [?h \<mapsto> p]) (jv_now env) s" by blast
  then show ?thesis using p entitled_one_code label pr unfolding by_invite_def by metis
qed

lemma join_manual_Granted:
  assumes "fst (join_manual env st pk tags nm (invite_of tags) qf d) = Granted"
  shows "by_invite env st pk tags (organizer_codes (jv_cached env))
       \<or> by_invite env st pk tags (organizer_codes (jv_fresh env)) \<or> by_child env st pk tags"
    and "row_status (es_coordinate st) pk
           (dm_store (snd (join_manual env st pk tags nm (invite_of tags) qf d))) = Some ''approved''"
    and "eventStillLive (es_coordinate st) (Some (es_gen st))
           (snd (join_manual env st pk tags nm (invite_of tags) qf d))"
    and "\<exists>s. jv_fits env s"
proof -
  obtain self d1 where self: "organizerSelfJoin env st pk (invite_of tags) d = (Some self, d1)"
    using assms by (cases "organizerSelfJoin env st pk (invite_of tags) d"; cases "fst (organizerSelfJoin env st pk (invite_of tags) d)")
      (auto simp: join_manual_def)
  let ?m = "check_member_of (jv_crypto env) (jv_child env) (child_request st pk tags)"
  obtain dec d2 where dec: "(if \<not> granted self \<and> has_member_of st tags
      then (if granted ?m then ?m else self, await env 3 d1) else (self, d1)) = (dec, d2)" by fastforce
  define d3 where "d3 = (if granted dec then await env 4 d2 else d2)"
  have run: "join_manual env st pk tags nm (invite_of tags) qf d =
     (if granted dec \<and> \<not> jv_fits env (dm_store d2) then (NotGranted, d3)
      else if \<not> eventStillLive (es_coordinate st) (Some (es_gen st)) d3 then (NotGranted, d3)
      else settle_join env st pk nm qf dec d3)"
    unfolding join_manual_def self by (simp only: prod.case option.case Let_def dec d3_def)
  then have j: "join_manual env st pk tags nm (invite_of tags) qf d = settle_join env st pk nm qf dec d3"
    and fits: "granted dec \<longrightarrow> jv_fits env (dm_store d2)"
    and live: "eventStillLive (es_coordinate st) (Some (es_gen st)) d3"
    using assms by (auto split: if_splits)
  note s = settle_join_Granted [OF assms [unfolded j]]
  show "row_status (es_coordinate st) pk
      (dm_store (snd (join_manual env st pk tags nm (invite_of tags) qf d))) = Some ''approved''"
    unfolding j by (rule s(2))
  show "eventStillLive (es_coordinate st) (Some (es_gen st))
      (snd (join_manual env st pk tags nm (invite_of tags) qf d))"
    unfolding j s(3) by (rule live)
  show "\<exists>s. jv_fits env s" using fits s(1) by blast
  show "by_invite env st pk tags (organizer_codes (jv_cached env))
       \<or> by_invite env st pk tags (organizer_codes (jv_fresh env)) \<or> by_child env st pk tags"
  proof (cases "granted self")
    case True
    then show ?thesis using organizerSelfJoin_granted [OF self] by blast
  next
    case False
    with dec s(1) have "has_member_of st tags" "granted ?m" by (auto split: if_splits)
    then show ?thesis using check_member_of_grants unfolding by_child_def by blast
  qed
qed

lemma join_entitled_Granted:
  assumes "fst (join_entitled env st pk tags nm (invite_of tags) existing qf d) = Granted"
  shows "by_invite env st pk tags (jv_cached env) \<or> by_invite env st pk tags (jv_fresh env)
       \<or> by_child env st pk tags
       \<or> (es_approval st = Open \<and> map_option ar_status existing \<noteq> Some ''revoked'')"
    and "row_status (es_coordinate st) pk
           (dm_store (snd (join_entitled env st pk tags nm (invite_of tags) existing qf d))) = Some ''approved''"
    and "eventStillLive (es_coordinate st) (Some (es_gen st))
           (snd (join_entitled env st pk tags nm (invite_of tags) existing qf d))"
    and "\<exists>s. jv_fits env s"
proof -
  let ?m = "check_member_of (jv_crypto env) (jv_child env) (child_request st pk tags)"
  let ?attempt = "\<lambda>pub d. evaluate env st pk (invite_of tags) pub d"
  obtain dec1 d1 where e1: "?attempt (jv_cached env) (await env 1 d) = (dec1, d1)" by fastforce
  obtain dec2 d2 where e2: "(if \<not> granted dec1 \<and> why dec1 = InvalidInviteProof
      then ?attempt (jv_fresh env) (await env 2 d1) else (dec1, d1)) = (dec2, d2)" by fastforce
  obtain dec3 d3 where e3: "(if \<not> granted dec2 \<and> has_member_of st tags
      then (if granted ?m then ?m
            else deny (if why dec2 = NoInviteProof then why ?m else Both (why dec2) (why ?m)), await env 3 d2)
      else (dec2, d2)) = (dec3, d3)" by fastforce
  define dec4 where "dec4 = (if \<not> granted dec3 \<and> es_approval st = Open
      then (if map_option ar_status existing = Some ''revoked'' then deny (OpenButRevoked (why dec3)) else allow OpenApproval)
      else dec3)"
  define d4 where "d4 = (if granted dec4 then await env 4 d3 else d3)"
  define dec5 where "dec5 = (if granted dec4 \<and> \<not> jv_fits env (dm_store d3) then deny RosterFull else dec4)"
  have run: "join_entitled env st pk tags nm (invite_of tags) existing qf d =
     (if \<not> eventStillLive (es_coordinate st) (Some (es_gen st)) d4 then (NotGranted, d4)
      else if es_approval st = InviteOnly \<and> \<not> granted dec3
      then (NotGranted, if existing = None then update_store (purge_attendee_row (es_coordinate st) pk) d4 else d4)
      else settle_join env st pk nm qf dec5 d4)"
    unfolding join_entitled_def
    by (simp only: e1 e2 e3 prod.case Let_def dec4_def d4_def dec5_def)
  then have j: "join_entitled env st pk tags nm (invite_of tags) existing qf d = settle_join env st pk nm qf dec5 d4"
    and live: "eventStillLive (es_coordinate st) (Some (es_gen st)) d4"
    using assms by (auto split: if_splits)
  note s = settle_join_Granted [OF assms [unfolded j]]
  show "row_status (es_coordinate st) pk
      (dm_store (snd (join_entitled env st pk tags nm (invite_of tags) existing qf d))) = Some ''approved''"
    unfolding j by (rule s(2))
  show "eventStillLive (es_coordinate st) (Some (es_gen st))
      (snd (join_entitled env st pk tags nm (invite_of tags) existing qf d))"
    unfolding j s(3) by (rule live)
  from s(1) have g4: "granted dec4" and fits: "jv_fits env (dm_store d3)"
    unfolding dec5_def by (auto split: if_splits)
  from fits show "\<exists>s. jv_fits env s" by blast
  have two: "granted dec2 \<Longrightarrow> by_invite env st pk tags (jv_cached env) \<or> by_invite env st pk tags (jv_fresh env)"
    using e1 e2 evaluate_granted [of env st pk "invite_of tags" "jv_cached env" "await env 1 d"]
      evaluate_granted [of env st pk "invite_of tags" "jv_fresh env" "await env 2 d1"]
    unfolding by_invite_def by (auto split: if_splits)
  have three: "granted dec3 \<Longrightarrow> granted dec2 \<or> by_child env st pk tags"
    using e3 check_member_of_grants unfolding by_child_def by (auto split: if_splits)
  show "by_invite env st pk tags (jv_cached env) \<or> by_invite env st pk tags (jv_fresh env)
       \<or> by_child env st pk tags
       \<or> (es_approval st = Open \<and> map_option ar_status existing \<noteq> Some ''revoked'')"
    using g4 two three unfolding dec4_def by (auto split: if_splits)
qed

lemma handleJoin_revoked:
  "isRevoked (es_coordinate st) pk (dm_store d) \<Longrightarrow> handleJoinLocked env st pk tags nm order d = (NotGranted, d)"
  by (simp add: handleJoinLocked_def)

text \<open>The two stages after the early returns, as one equation.\<close>

lemma handleJoin_stages:
  assumes "fst (handleJoinLocked env st pk tags nm order d) \<noteq> NotGranted"
    and "row_status (es_coordinate st) pk (dm_store d) \<noteq> Some ''approved''"
  shows "\<not> isRevoked (es_coordinate st) pk (dm_store d)
    \<and> (\<exists>qf d2. handleJoinLocked env st pk tags nm order d =
         (if es_approval st = Manual then join_manual env st pk tags nm (invite_of tags) qf d2
          else join_entitled env st pk tags nm (invite_of tags)
                 (getAttendee (es_coordinate st) pk (dm_store d)) qf d2))"
  using assms
  by (auto simp: handleJoinLocked_def Let_def row_status_def case_prod_unfold split: if_splits)

text \<open>
  Revocation is authoritative over every way in. While an organizer's revocation of a member
  stands, a join of theirs is refused whatever it carries (their original invite, a membership proof,
  any approval policy), and leaves the daemon exactly as it was: no row is rewritten and no redemption
  is spent.
\<close>

theorem revoked_join_refused:
  assumes "isRevoked (es_coordinate st) pk (dm_store d)"
  shows "handleJoinLocked env st pk tags nm order d = (NotGranted, d)"
  by (rule handleJoin_revoked [OF assms])


section \<open>What the early enrollment does to a row a withdrawal left\<close>

text \<open>An environment in which nothing happens while the handler waits.\<close>

definition quiet :: "'h join_env \<Rightarrow> bool" where
  "quiet env \<longleftrightarrow> (\<forall>n. jv_await env n = [] \<and> jv_events env n = id)"

lemma await_quiet [simp]: "quiet env \<Longrightarrow> await env n d = d"
  by (simp add: quiet_def await_def)

lemma evaluate_no_invite [simp]: "evaluate env st pk None published d = (deny NoInviteProof, d)"
  by (simp add: evaluate_def check_invite_def join_request_def)

lemma isRevoked_upsert [simp]: "isRevoked c pk (upsertAttendee u s) = isRevoked c pk s"
  by (simp add: isRevoked_def upsertAttendee_def)

lemma row_status_None: "row_status c pk s = None \<longleftrightarrow> getAttendee c pk s = None"
  by (simp add: row_status_def)

text \<open>A bare join under \<open>open\<close>, of someone with a row that is neither approved nor tombstoned.\<close>

lemma open_join:
  fixes d :: daemon
  assumes env: "quiet env" "\<And>s. jv_fits env s" and st: "es_approval st = Open"
    and bare: "invite_of tags = None" "\<not> has_member_of st tags"
    and live: "eventStillLive (es_coordinate st) (Some (es_gen st)) d"
    and row: "row_status (es_coordinate st) pk (dm_store d) = Some status" "status \<noteq> ''approved''"
    and unrevoked: "\<not> isRevoked (es_coordinate st) pk (dm_store d)"
  shows "handleJoinLocked env st pk tags nm None d =
     (let u = (\<lambda>x. update_store (upsertAttendee (join_upsert (es_coordinate st) pk x nm (jv_now env))))
      in if status = ''revoked'' then (NotGranted, u ''pending'' (u ''pending'' d))
         else (Granted, u ''approved'' (u ''pending'' d)))"
proof -
  obtain r where r: "getAttendee (es_coordinate st) pk (dm_store d) = Some r" "ar_status r = status"
    using row by (auto simp: row_status_def)
  let ?d2 = "update_store (upsertAttendee (join_upsert (es_coordinate st) pk ''pending'' nm (jv_now env))) d"
  have cur: "map_option ar_status (getAttendee (es_coordinate st) pk (dm_store ?d2)) = Some ''pending''"
    using row_status_join_upsert [of "es_coordinate st" pk "es_coordinate st" pk]
    by (simp add: update_store_def row_status_def)
  have start: "handleJoinLocked env st pk tags nm None d = join_entitled env st pk tags nm None (Some r) False ?d2"
    using r row(2) unrevoked st bare by (simp add: handleJoinLocked_def stale_join_def)
  show ?thesis
    unfolding start join_entitled_def
    using env st bare live r cur by (auto simp: settle_join_def Let_def split: option.splits)
qed

text \<open>
  Under \<open>open\<close>, pressing Join twice undoes the one exception the policy makes. A member whose own
  withdrawal left a revoked row is queued by the first join, as intended, but the early enrollment has
  already rewritten their row to pending, so a second, identical join admits them without the
  organizer.
\<close>

theorem second_open_join_admits:
  fixes d :: daemon
  assumes "quiet env" and "\<And>s. jv_fits env s" and "es_approval st = Open"
    and "invite_of tags = None" and "\<not> has_member_of st tags"
    and "eventStillLive (es_coordinate st) (Some (es_gen st)) d"
    and "row_status (es_coordinate st) pk (dm_store d) = Some ''revoked''"
    and "\<not> isRevoked (es_coordinate st) pk (dm_store d)"
    and first: "(o1, d1) = handleJoinLocked env st pk tags nm None d"
    and second: "(o2, d2) = handleJoinLocked env st pk tags nm None d1"
  shows "o1 = NotGranted \<and> o2 = Granted \<and> row_status (es_coordinate st) pk (dm_store d2) = Some ''approved''"
proof (intro conjI)
  let ?u = "\<lambda>x. update_store (upsertAttendee (join_upsert (es_coordinate st) pk x nm (jv_now env)))"
  have j1: "(o1, d1) = (NotGranted, ?u ''pending'' (?u ''pending'' d))"
    unfolding first using open_join [OF assms(1-7) _ assms(8)] by (simp add: Let_def)
  then show "o1 = NotGranted" by simp
  have row1: "row_status (es_coordinate st) pk (dm_store d1) = Some ''pending''"
    using j1 by (simp add: update_store_def row_status_join_upsert)
  have live1: "eventStillLive (es_coordinate st) (Some (es_gen st)) d1"
    and unrev1: "\<not> isRevoked (es_coordinate st) pk (dm_store d1)"
    using j1 assms(6,8) by simp_all (simp add: update_store_def)
  have "(o2, d2) = (Granted, ?u ''approved'' (?u ''pending'' d1))"
    unfolding second using open_join [OF assms(1-5) live1 row1 _ unrev1] by (simp add: Let_def)
  then show "o2 = Granted" "row_status (es_coordinate st) pk (dm_store d2) = Some ''approved''"
    by (simp_all add: update_store_def row_status_join_upsert)
qed

text \<open>
  Under \<open>invite\<close>, a join whose code does not hold is rejected, but the early enrollment has already
  turned the revoked row of a withdrawn member into a pending request.
\<close>

lemma rejected_invite_requeues:
  fixes d :: daemon
  assumes "quiet env" and "es_approval st = InviteOnly" and "invite_of tags = Some pr"
    and "\<not> hex32 (ip_pubkey pr)" and "\<not> has_member_of st tags"
    and "row_status (es_coordinate st) pk (dm_store d) = Some ''revoked''"
    and "\<not> isRevoked (es_coordinate st) pk (dm_store d)"
  shows "fst (handleJoinLocked env st pk tags nm None d) = NotGranted"
    and "row_status (es_coordinate st) pk (dm_store (snd (handleJoinLocked env st pk tags nm None d)))
           = Some ''pending''"
proof -
  obtain r where r: "getAttendee (es_coordinate st) pk (dm_store d) = Some r" "ar_status r = ''revoked''"
    using assms(6) by (auto simp: row_status_def)
  let ?d2 = "update_store (upsertAttendee (join_upsert (es_coordinate st) pk ''pending'' nm (jv_now env))) d"
  have bad: "evaluate env st pk (Some pr) published d' = (deny InvalidInviteProof, d')" for published d'
    using assms(4)
    by (simp add: evaluate_def check_invite_def join_request_def invite_valid_def isInviteValid_def)
  have "handleJoinLocked env st pk tags nm None d = join_entitled env st pk tags nm (Some pr) (Some r) False ?d2"
    using r assms by (simp add: handleJoinLocked_def stale_join_def)
  also have "\<dots> = (NotGranted, ?d2)"
    unfolding join_entitled_def using assms bad by (simp add: Let_def)
  finally have j: "handleJoinLocked env st pk tags nm None d = (NotGranted, ?d2)" .
  show "fst (handleJoinLocked env st pk tags nm None d) = NotGranted" by (simp add: j)
  show "row_status (es_coordinate st) pk (dm_store (snd (handleJoinLocked env st pk tags nm None d)))
      = Some ''pending''"
    by (simp add: j update_store_def row_status_join_upsert)
qed

text \<open>
  Under \<open>manual\<close>, an invite tag that is not hexadecimal makes the handler throw after the row was
  enrolled and before any membership proof is looked at.
\<close>

lemma malformed_invite_throws:
  assumes "es_approval st = Manual" and "invite_of tags = Some pr" and "\<not> decodable_hex (ip_pubkey pr)"
    and "getAttendee (es_coordinate st) pk (dm_store d) = Some r" and "ar_status r = ''pending''"
    and "\<not> isRevoked (es_coordinate st) pk (dm_store d)"
  shows "fst (handleJoinLocked env st pk tags nm order d) = Threw"
  using assms
  by (cases order) (simp_all add: handleJoinLocked_def stale_join_def join_manual_def organizerSelfJoin_def Let_def)

section \<open>Concrete instances\<close>

definition party :: event_state where
  "party = \<lparr>es_coordinate = ''e'', es_space_kind = 31923, es_eid = ''eid'', es_gen = 1, es_approval = Open,
     es_children = None, es_retention_expired = False\<rparr>"

definition calm :: "string join_env" where
  "calm = \<lparr>jv_crypto = toy_crypto, jv_now = 40000, jv_cached = Map.empty, jv_fresh = Map.empty,
     jv_child = Map.empty, jv_fits = (\<lambda>_. True), jv_protect = id, jv_await = (\<lambda>_. []), jv_events = (\<lambda>_. id)\<rparr>"

definition party_daemon :: "string \<Rightarrow> daemon" where
  "party_daemon status =
     \<lparr>dm_store = upsertAttendee (join_upsert ''e'' ''ann'' status ''Ann'' 0) empty_store,
      dm_events = [''e'' \<mapsto> party]\<rparr>"

lemma calm_quiet [simp]: "quiet calm" "jv_fits calm s"
  by (simp_all add: quiet_def calm_def)

lemma party_simps [simp]:
  "es_approval party = Open" "es_coordinate party = ''e''" "\<not> has_member_of party tags" "invite_of [] = None"
  "eventStillLive ''e'' (Some (es_gen party)) (party_daemon status)"
  "row_status ''e'' ''ann'' (dm_store (party_daemon status)) = Some status"
  "\<not> isRevoked ''e'' ''ann'' (dm_store (party_daemon status))"
proof -
  show "row_status ''e'' ''ann'' (dm_store (party_daemon status)) = Some status"
    by (simp add: party_daemon_def row_status_join_upsert)
qed (simp_all add: party_def has_member_of_def KIND_COMMUNITY_def invite_of_def eventStillLive_def
      party_daemon_def isRevoked_def empty_store_def isRetentionExpired_def isInstallTombstoned_def
      upsertAttendee_def)

lemma second_open_join_admits_witness:
  "fst (handleJoinLocked calm party ''ann'' [] ''Ann'' None
     (snd (handleJoinLocked calm party ''ann'' [] ''Ann'' None (party_daemon ''revoked'')))) = Granted"
  using second_open_join_admits [OF calm_quiet, where st = party and tags = "[]" and pk = "''ann''"
        and d = "party_daemon ''revoked''" and nm = "''Ann''",
        OF _ _ _ _ _ _ prod.collapse prod.collapse] by simp

lemma pending_join_granted:
  "fst (handleJoinLocked calm party ''ann'' [] ''Ann'' None (party_daemon ''pending'')) = Granted"
  by (subst open_join [where status = "''pending''"]) (simp_all add: Let_def)


lemma revoked_join_refused_witness:
  "handleJoinLocked calm party ''ann'' [] ''Ann'' None
     (party_daemon ''pending''\<lparr>dm_store := recordRevocation ''e'' ''ann'' 0 empty_store\<rparr>)
   = (NotGranted, party_daemon ''pending''\<lparr>dm_store := recordRevocation ''e'' ''ann'' 0 empty_store\<rparr>)"
  by (rule revoked_join_refused) (simp add: isRevoked_def recordRevocation_def empty_store_def)

end
