(* ===== verification/Commands.thy ===== *)
theory Commands
  imports Membership Ordering Key_Backup
begin

text \<open>
  The organizer's commands and the members' withdrawals (\<open>handleAdmin\<close>, \<open>handleWithdrawal\<close>,
  \<open>beginOrderedOperation\<close> and the key rotation of \<open>revokeAttendee\<close> in
  \<open>packages/coordinator/src/coordinator.ts\<close>): the gate every ordered command passes, the membership
  transitions behind it, and the rotation that resumes instead of minting twice.

  One subject's commands run one after another (\<open>withSubjectLock\<close>), so a run is the sequence of
  deliveries; a handler that dies before its last step is a delivery whose operation is not
  completed. Relay publishing, matching, chat and billing are left out; the effects of the commands
  that only trigger those are an argument.
\<close>

section \<open>Subjects and the ordering gate\<close>

datatype admin_cmd = Approve | Recompute | Reprocess | Revoke | TalkPublish | TalkReject | Detach

record admin_args =
  aa_pubkey :: "string option"
  aa_talk_d :: "string option"

definition string_of_arg :: "string option \<Rightarrow> string" where
  "string_of_arg x = (case x of Some s \<Rightarrow> s | None \<Rightarrow> [])"

fun commandSubject :: "string \<Rightarrow> admin_cmd \<Rightarrow> admin_args \<Rightarrow> string" where
  "commandSubject coordinate Approve a = ''member:'' @ string_of_arg (aa_pubkey a)"
| "commandSubject coordinate Reprocess a = ''member:'' @ string_of_arg (aa_pubkey a)"
| "commandSubject coordinate Revoke a = ''member:'' @ string_of_arg (aa_pubkey a)"
| "commandSubject coordinate TalkPublish a =
     ''talk:'' @ string_of_arg (aa_pubkey a) @ '':'' @ string_of_arg (aa_talk_d a)"
| "commandSubject coordinate TalkReject a =
     ''talk:'' @ string_of_arg (aa_pubkey a) @ '':'' @ string_of_arg (aa_talk_d a)"
| "commandSubject coordinate Recompute a = ''coordinate:'' @ coordinate"
| "commandSubject coordinate Detach a = ''coordinate:'' @ coordinate"

record command_order = join_order +
  or_expires :: int

definition orderable_of :: "int \<Rightarrow> string \<Rightarrow> orderable" where
  "orderable_of createdAt rumorId = \<lparr>ev_id = rumorId, ev_created = Some createdAt\<rparr>"

definition gate :: "'r join_order_scheme \<Rightarrow> command_op option \<Rightarrow> bool" where
  "gate ord op =
     (case op of
        None \<Rightarrow> True
      | Some w \<Rightarrow>
          if op_rumor_id w = jo_rumor_id ord then op_state w \<noteq> OpComplete
          else supersedes (orderable_of (jo_created_at ord) (jo_rumor_id ord))
                 (orderable_of (op_created_at w) (op_rumor_id w)))"

text \<open>\<open>None\<close> is "skip", \<open>Some\<close> the store with the operation recorded as pending: "run".\<close>

definition beginOrderedOperation ::
  "string \<Rightarrow> string \<Rightarrow> 'r join_order_scheme \<Rightarrow> event_store \<Rightarrow> event_store option" where
  "beginOrderedOperation coordinate subject ord s =
     (let op = getCommandWatermark coordinate subject s
      in if gate ord op
         then Some (beginCommandOp coordinate subject (jo_created_at ord) (jo_rumor_id ord) s)
         else None)"

definition stillOwnsSubject :: "string \<Rightarrow> string \<Rightarrow> string \<Rightarrow> event_store \<Rightarrow> bool" where
  "stillOwnsSubject coordinate subject rumorId s =
     (case getCommandWatermark coordinate subject s of None \<Rightarrow> True | Some w \<Rightarrow> op_rumor_id w = rumorId)"

section \<open>A subject's deliveries\<close>

text \<open>
  One delivery: the gate, then an effect on the rest of the store, which leaves the subject's
  operation alone, then completion unless the handler died. The result tells whether it ran.
\<close>

definition deliver_command ::
  "string \<Rightarrow> string \<Rightarrow> (event_store \<Rightarrow> event_store) \<Rightarrow> join_order \<times> bool \<Rightarrow> event_store
   \<Rightarrow> bool \<times> event_store" where
  "deliver_command c sub eff dl s =
     (case beginOrderedOperation c sub (fst dl) s of
        None \<Rightarrow> (False, s)
      | Some s1 \<Rightarrow>
          (True, if snd dl then completeCommandOp c sub (jo_rumor_id (fst dl)) (eff s1) else eff s1))"

fun deliver_all ::
  "string \<Rightarrow> string \<Rightarrow> (event_store \<Rightarrow> event_store) \<Rightarrow> (join_order \<times> bool) list \<Rightarrow> event_store
   \<Rightarrow> join_order list \<times> event_store" where
  "deliver_all c sub eff [] s = ([], s)"
| "deliver_all c sub eff (dl # dls) s =
     (let (ran, s1) = deliver_command c sub eff dl s;
          (rest, s2) = deliver_all c sub eff dls s1
      in ((if ran then [fst dl] else []) @ rest, s2))"

definition keeps_op :: "string \<Rightarrow> string \<Rightarrow> (event_store \<Rightarrow> event_store) \<Rightarrow> bool" where
  "keeps_op c sub eff \<longleftrightarrow>
     (\<forall>s. map_option (\<lambda>w. (op_created_at w, op_rumor_id w, op_state w)) (op_of c sub (eff s))
        = map_option (\<lambda>w. (op_created_at w, op_rumor_id w, op_state w)) (op_of c sub s))"

text \<open>The ordering key and state of the subject's operation.\<close>

definition op_key :: "string \<Rightarrow> string \<Rightarrow> event_store \<Rightarrow> (join_order \<times> bool) option" where
  "op_key c sub s =
     map_option (\<lambda>w. (\<lparr>jo_created_at = op_created_at w, jo_rumor_id = op_rumor_id w\<rparr>, op_state w = OpComplete))
       (op_of c sub s)"

definition as_event :: "join_order \<Rightarrow> orderable" where
  "as_event ord = orderable_of (jo_created_at ord) (jo_rumor_id ord)"

lemma watermark_op_of: "getCommandWatermark c sub s = op_of c sub s"
  by (simp add: getCommandWatermark_def op_of_def)

lemma op_key_begin:
  "op_key c sub (beginCommandOp c sub t r s) = Some (\<lparr>jo_created_at = t, jo_rumor_id = r\<rparr>, False)"
  by (simp add: op_key_def op_of_begin)

lemma op_key_complete:
  "op_key c sub s = Some (\<lparr>jo_created_at = t, jo_rumor_id = r\<rparr>, b)
     \<Longrightarrow> op_key c sub (completeCommandOp c sub r s) = Some (\<lparr>jo_created_at = t, jo_rumor_id = r\<rparr>, True)"
  by (auto simp: op_key_def completeCommandOp_def op_of_update)

lemma op_key_eff:
  assumes "keeps_op c sub eff"
  shows "op_key c sub (eff s) = op_key c sub s"
proof -
  let ?f = "\<lambda>(t, r, b). (\<lparr>jo_created_at = t, jo_rumor_id = r\<rparr>, b = OpComplete)"
  have "op_key c sub x = map_option ?f (map_option (\<lambda>w. (op_created_at w, op_rumor_id w, op_state w)) (op_of c sub x))"
    for x by (simp add: op_key_def option.map_comp comp_def)
  then show ?thesis using assms unfolding keeps_op_def by simp
qed

lemma gate_key:
  "gate ord (getCommandWatermark c sub s) =
     (case op_key c sub s of
        None \<Rightarrow> True
      | Some (w, done_before) \<Rightarrow>
          if jo_rumor_id w = jo_rumor_id ord then \<not> done_before
          else supersedes (orderable_of (jo_created_at ord) (jo_rumor_id ord)) (as_event w))"
  by (simp add: gate_def op_key_def watermark_op_of as_event_def split: option.split)

lemma deliver_command_key:
  assumes "keeps_op c sub eff"
  shows "fst (deliver_command c sub eff (ord, ok) s) \<longleftrightarrow> gate ord (getCommandWatermark c sub s)"
    and "op_key c sub (snd (deliver_command c sub eff (ord, ok) s)) =
      (if gate ord (getCommandWatermark c sub s) then Some (ord, ok) else op_key c sub s)"
proof -
  show "fst (deliver_command c sub eff (ord, ok) s) \<longleftrightarrow> gate ord (getCommandWatermark c sub s)"
    by (simp add: deliver_command_def beginOrderedOperation_def)
  let ?s1 = "beginCommandOp c sub (jo_created_at ord) (jo_rumor_id ord) s"
  have "op_key c sub (eff ?s1) = Some (ord, False)"
    by (simp add: op_key_eff [OF assms] op_key_begin)
  then show "op_key c sub (snd (deliver_command c sub eff (ord, ok) s)) =
      (if gate ord (getCommandWatermark c sub s) then Some (ord, ok) else op_key c sub s)"
    using op_key_complete [of c sub "eff ?s1" "jo_created_at ord" "jo_rumor_id ord" False]
    by (simp add: deliver_command_def beginOrderedOperation_def)
qed

text \<open>One rumor id names one command, as the id is the hash of the rumor.\<close>

definition one_id :: "join_order set \<Rightarrow> bool" where
  "one_id A \<longleftrightarrow> (\<forall>a\<in>A. \<forall>b\<in>A. jo_rumor_id a = jo_rumor_id b \<longrightarrow> a = b)"

definition newer :: "join_order \<Rightarrow> join_order \<Rightarrow> bool" where
  "newer a b \<longleftrightarrow> supersedes (as_event a) (as_event b)"

lemma newer_trans: "newer a b \<Longrightarrow> newer b d \<Longrightarrow> newer a d"
  unfolding newer_def by (rule latest.beats_trans)

lemma newer_irrefl [simp]: "\<not> newer a a"
  by (simp add: newer_def latest.beats_irrefl)

lemma as_event_inject [simp]: "as_event a = as_event b \<longleftrightarrow> a = b"
  by (cases a; cases b) (auto simp: as_event_def orderable_of_def)

lemma deliver_all_from:
  assumes eff: "keeps_op c sub eff"
  shows "op_key c sub s = Some (w, b) \<Longrightarrow> one_id (insert w (fst ` set dls)) \<Longrightarrow>
    (\<forall>x\<in>set (fst (deliver_all c sub eff dls s)). newer x w \<or> x = w \<and> \<not> b)
    \<and> sorted_wrt (\<lambda>x y. x = y \<or> newer y x) (fst (deliver_all c sub eff dls s))
    \<and> map_option (as_event \<circ> fst) (op_key c sub (snd (deliver_all c sub eff dls s)))
        = Some (latest.deliver (as_event w) (map (as_event \<circ> fst) dls))"
proof (induction dls arbitrary: s w b)
  case (Cons dl dls)
  obtain ord ok where dl: "dl = (ord, ok)" by fastforce
  let ?r = "deliver_command c sub eff dl s"
  let ?rest = "deliver_all c sub eff dls (snd ?r)"
  have run: "deliver_all c sub eff (dl # dls) s = ((if fst ?r then [ord] else []) @ fst ?rest, snd ?rest)"
    by (simp add: case_prod_unfold Let_def dl)
  have same: "jo_rumor_id w = jo_rumor_id ord \<longleftrightarrow> ord = w"
    using Cons.prems(2) by (auto simp: one_id_def dl)
  have g: "gate ord (getCommandWatermark c sub s) \<longleftrightarrow> (if ord = w then \<not> b else newer ord w)"
    using Cons.prems(1) same by (simp add: gate_key newer_def as_event_def)
  define w' b' where "w' = (if fst ?r then ord else w)" and "b' = (if fst ?r then ok else b)"
  have ran: "fst ?r \<longleftrightarrow> (if ord = w then \<not> b else newer ord w)"
    using deliver_command_key(1) [OF eff] g by (simp add: dl)
  have key: "op_key c sub (snd ?r) = Some (w', b')"
    using deliver_command_key [OF eff, of ord ok s] Cons.prems(1) by (simp add: dl w'_def b'_def)
  have "one_id (insert w' (fst ` set dls))"
    using Cons.prems(2) by (auto simp: one_id_def w'_def dl)
  note IH = Cons.IH [OF key this]
  have head: "(if newer ord w then as_event ord else as_event w) = as_event w'"
    using ran by (auto simp: w'_def split: if_splits)
  have w': "w' = w \<or> newer w' w" using ran by (auto simp: w'_def split: if_splits)
  have low: "newer x w \<or> x = w \<and> \<not> b" if "x \<in> set (fst ?rest)" for x
  proof -
    from IH that have "newer x w' \<or> x = w' \<and> \<not> b'" by blast
    then show ?thesis using w' newer_trans ran by (auto simp: w'_def b'_def split: if_splits)
  qed
  have above: "ord = x \<or> newer x ord" if "fst ?r" "x \<in> set (fst ?rest)" for x
    using IH that by (auto simp: w'_def)
  show ?case unfolding run
    using IH low above ran head by (auto simp: dl newer_def)
qed simp

text \<open>
  (C7) A subject's ordered commands converge. Whatever the order and multiplicity of the deliveries,
  and whichever of them die before completing, the recorded operation ends as the latest command
  delivered, by the same rule every reader of the protocol uses; the commands that run never go back
  in that order; and a command that completed never runs again.
\<close>

theorem ordered_commands_converge:
  assumes "keeps_op c sub eff" and "op_of c sub s = None"
    and "one_id (fst ` set dls)" and "dls \<noteq> []"
  shows "map_option (as_event \<circ> fst) (op_key c sub (snd (deliver_all c sub eff dls s)))
        = pickLatest (map (as_event \<circ> fst) dls)
    \<and> sorted_wrt (\<lambda>x y. x = y \<or> newer y x) (fst (deliver_all c sub eff dls s))
    \<and> (\<forall>a s'. op_key c sub s' = Some (a, True) \<and> a \<in> fst ` set dls
          \<longrightarrow> a \<notin> set (fst (deliver_all c sub eff dls s')))"
proof (intro conjI allI impI)
  obtain ord ok rest where dls: "dls = (ord, ok) # rest" using assms(4) by (cases dls) auto
  let ?r = "deliver_command c sub eff (ord, ok) s"
  have "gate ord (getCommandWatermark c sub s)" using assms(2) by (simp add: gate_def watermark_op_of)
  then have r: "fst ?r" "op_key c sub (snd ?r) = Some (ord, ok)"
    using deliver_command_key [OF assms(1)] by simp_all
  have run: "deliver_all c sub eff dls s =
      (ord # fst (deliver_all c sub eff rest (snd ?r)), snd (deliver_all c sub eff rest (snd ?r)))"
    using r(1) by (simp add: dls case_prod_unfold Let_def)
  have "one_id (insert ord (fst ` set rest))" using assms(3) by (simp add: dls)
  note rest = deliver_all_from [OF assms(1) r(2) this]
  show "map_option (as_event \<circ> fst) (op_key c sub (snd (deliver_all c sub eff dls s)))
      = pickLatest (map (as_event \<circ> fst) dls)"
    using rest by (simp add: run) (simp add: dls)
  show "sorted_wrt (\<lambda>x y. x = y \<or> newer y x) (fst (deliver_all c sub eff dls s))"
    using rest by (auto simp: run)
next
  fix a s' assume a: "op_key c sub s' = Some (a, True) \<and> a \<in> fst ` set dls"
  then have "insert a (fst ` set dls) = fst ` set dls" by blast
  then show "a \<notin> set (fst (deliver_all c sub eff dls s'))"
    using deliver_all_from [OF assms(1), of s' a True dls] a assms(3) by auto
qed

lemma ordered_commands_converge_witness:
  "let old = \<lparr>jo_created_at = 5, jo_rumor_id = ''a''\<rparr>; new = \<lparr>jo_created_at = 9, jo_rumor_id = ''b''\<rparr>
   in map_option (as_event \<circ> fst)
        (op_key ''e'' ''coordinate:e''
          (snd (deliver_all ''e'' ''coordinate:e'' id [(new, False), (old, True), (new, True)] empty_store)))
      = pickLatest (map (as_event \<circ> fst) [(new, False), (old, True), (new, True)])"
  unfolding Let_def
  by (rule ordered_commands_converge [THEN conjunct1])
    (simp_all add: keeps_op_def op_of_def empty_store_def one_id_def)

end
