(* ===== verification/Revocation.thy ===== *)
theory Revocation
  imports Commands
begin

text \<open>
  The membership transitions behind the command gate (\<open>packages/coordinator/src/coordinator.ts\<close>): an
  organizer's approve and revoke, a member's withdrawal, and the key rotation of a revoke.

  The rotation is a small state machine: the key it is about to mint is written to the operation's
  progress first, so that a retry reuses it. The event's key list is threaded through as an argument;
  the fresh key, \<open>JSON.parse\<close> and at-rest encryption are arguments. Relay publishing, matching, chat and
  billing are left out, and so are the job rows and derived data a purge deletes elsewhere.
\<close>

section \<open>The key rotation\<close>

record rotation =
  rot_new_id :: int
  rot_new_key :: string
  rot_prev_id :: int

definition rotation_json :: "rotation \<Rightarrow> json" where
  "rotation_json r = JObj [(''newId'', JInt (rot_new_id r)), (''newKey'', JStr (rot_new_key r)),
     (''prevId'', JInt (rot_prev_id r))]"

text \<open>\<open>progress.eckRotation\<close>; only \<open>revokeAttendee\<close> writes it, so another shape reads as absent.\<close>

fun as_rotation :: "json \<Rightarrow> rotation option" where
  "as_rotation (JObj fs) =
     (case (map_of fs ''newId'', map_of fs ''newKey'', map_of fs ''prevId'') of
        (Some (JInt n), Some (JStr k), Some (JInt p)) \<Rightarrow>
          Some \<lparr>rot_new_id = n, rot_new_key = k, rot_prev_id = p\<rparr>
      | _ \<Rightarrow> None)"
| "as_rotation _ = None"

lemma as_rotation_json [simp]: "as_rotation (rotation_json r) = Some r"
  by (cases r) (simp add: rotation_json_def)

text \<open>What the rotation takes from its surroundings.\<close>

record rotation_env =
  ro_protect :: "string \<Rightarrow> string"
  ro_reveal :: "string \<Rightarrow> string"
  ro_parse :: "string \<Rightarrow> json option"
  ro_fp :: "string \<Rightarrow> string"
  ro_now :: int

definition progress_fields :: "rotation_env \<Rightarrow> string \<Rightarrow> string \<Rightarrow> event_store \<Rightarrow> (string \<times> json) list" where
  "progress_fields env coordinate subject s =
     (case getCommandOpProgress (ro_reveal env) coordinate subject s of
        None \<Rightarrow> []
      | Some t \<Rightarrow> (case ro_parse env t of Some (JObj fs) \<Rightarrow> fs | _ \<Rightarrow> []))"

definition recorded_rotation :: "(string \<times> json) list \<Rightarrow> rotation option" where
  "recorded_rotation pf = Option.bind (map_of pf ''eckRotation'') as_rotation"

definition eck_json :: "eck_version list \<Rightarrow> json" where
  "eck_json vs = JArr (map (\<lambda>v. JObj [(''id'', JInt (eck_id v)), (''key'', JStr (eck_key v))]) vs)"

definition persistEck :: "rotation_env \<Rightarrow> string \<Rightarrow> eck_version list \<Rightarrow> event_store \<Rightarrow> event_store" where
  "persistEck env coordinate eck s =
     (case getEvent (ro_reveal env) coordinate s of
        None \<Rightarrow> s
      | Some e \<Rightarrow> upsertEvent (ro_protect env)
          \<lparr>ue_coordinate = coordinate, ue_configJson = ev_config_json e, ue_inboxNsec = ev_inbox_nsec e,
           ue_eckJson = stringify (eck_json eck), ue_configRelays = ev_config_relays e, ue_gen = None,
           ue_now = ro_now env\<rparr> s)"

definition next_eck_id :: "eck_version list \<Rightarrow> int" where
  "next_eck_id eck = foldl (\<lambda>m v. max m (eck_id v)) 0 eck + 1"

record rotated =
  rt_new_id :: int
  rt_prev_key :: string
  rt_eck :: "eck_version list"
  rt_store :: event_store

text \<open>
  The rotation of \<open>revokeAttendee\<close>: \<open>ctx\<close> is the operation context (subject and rumor), \<open>newKey\<close> what
  \<open>generateEck\<close> returns. \<open>None\<close> is the error of an event that holds no key at all.
\<close>

definition rotateEck ::
  "rotation_env \<Rightarrow> string \<Rightarrow> (string \<times> string) option \<Rightarrow> string \<Rightarrow> eck_version list \<Rightarrow> event_store
   \<Rightarrow> rotated option" where
  "rotateEck env coordinate ctx newKey eck s =
     (let pf = (case ctx of Some (subject, _) \<Rightarrow> progress_fields env coordinate subject s | None \<Rightarrow> [])
      in case recorded_rotation pf of
           Some rot \<Rightarrow>
             let prev = (case List.find (\<lambda>v. eck_id v = rot_prev_id rot) eck of
                           Some v \<Rightarrow> Some v | None \<Rightarrow> canonicalEck (ro_fp env) eck)
             in map_option (\<lambda>p.
                  if list_ex (\<lambda>v. eck_id v = rot_new_id rot) eck
                  then \<lparr>rt_new_id = rot_new_id rot, rt_prev_key = eck_key p, rt_eck = eck, rt_store = s\<rparr>
                  else let eck' = eck @ [\<lparr>eck_id = rot_new_id rot, eck_key = rot_new_key rot\<rparr>]
                       in \<lparr>rt_new_id = rot_new_id rot, rt_prev_key = eck_key p, rt_eck = eck',
                           rt_store = persistEck env coordinate eck' s\<rparr>) prev
         | None \<Rightarrow>
             map_option (\<lambda>p.
               let n = next_eck_id eck;
                   rot = \<lparr>rot_new_id = n, rot_new_key = newKey, rot_prev_id = eck_id p\<rparr>;
                   s1 = (case ctx of
                           Some (subject, rumorId) \<Rightarrow>
                             setCommandOpProgress (ro_protect env) coordinate subject rumorId
                               (stringify (JObj (AList.update ''eckRotation'' (rotation_json rot) pf))) s
                         | None \<Rightarrow> s);
                   eck' = eck @ [\<lparr>eck_id = n, eck_key = newKey\<rparr>]
               in \<lparr>rt_new_id = n, rt_prev_key = eck_key p, rt_eck = eck',
                   rt_store = persistEck env coordinate eck' s1\<rparr>) (canonicalEck (ro_fp env) eck))"

text \<open>The progress a first run writes.\<close>

definition rotation_progress :: "rotation \<Rightarrow> json" where
  "rotation_progress r = JObj [(''eckRotation'', rotation_json r)]"

lemma fold_max_le: "m \<le> foldl (\<lambda>m v. max m (eck_id v)) m eck"
  by (induction eck arbitrary: m) (auto intro: order_trans [OF max.cobounded1])

lemma fold_max_ge: "v \<in> set eck \<Longrightarrow> eck_id v \<le> foldl (\<lambda>m v. max m (eck_id v)) m eck"
proof (induction eck arbitrary: m)
  case (Cons w eck)
  have "max m (eck_id w) \<le> foldl (\<lambda>m v. max m (eck_id v)) (max m (eck_id w)) eck" by (rule fold_max_le)
  then show ?case using Cons by auto
qed simp

lemma next_eck_id_fresh: "v \<in> set eck \<Longrightarrow> eck_id v < next_eck_id eck"
  using fold_max_ge [of v eck 0] by (simp add: next_eck_id_def)

lemma op_of_persist [simp]: "op_of c sub (persistEck env c' eck s) = op_of c sub s"
  by (simp add: persistEck_def op_of_def upsertEvent_def split: option.split)

lemma progress_fields_op:
  "progress_fields env c sub s =
     (case Option.bind (op_of c sub s) op_progress of
        None \<Rightarrow> []
      | Some t \<Rightarrow> (case ro_parse env (ro_reveal env t) of Some (JObj fs) \<Rightarrow> fs | _ \<Rightarrow> []))"
proof (cases "op_of c sub s")
  case (Some w)
  then show ?thesis
    by (cases "op_progress w") (simp_all add: progress_fields_def getCommandOpProgress_def watermark_op_of)
qed (simp add: progress_fields_def getCommandOpProgress_def watermark_op_of)



section \<open>The transitions\<close>

text \<open>The state a transition works on: the event's key list and the daemon.\<close>

type_synonym keyed = "eck_version list \<times> daemon"

text \<open>The result is \<open>False\<close> where the rotation throws.\<close>

definition revokeAttendee ::
  "'h join_env \<Rightarrow> rotation_env \<Rightarrow> event_state \<Rightarrow> pubkey \<Rightarrow> (string \<times> string) option \<Rightarrow> bool \<Rightarrow> string
   \<Rightarrow> keyed \<Rightarrow> bool \<times> keyed" where
  "revokeAttendee env renv st pk ctx byOrganizer newKey kd =
     (let c = es_coordinate st; (eck, d) = kd
      in if (case ctx of Some (subject, rumorId) \<Rightarrow> \<not> stillOwnsSubject c subject rumorId (dm_store d)
                       | None \<Rightarrow> False)
         then (True, kd)
         else
           let d1 = (if byOrganizer then update_store (recordRevocation c pk (jv_now env)) d else d)
           in case rotateEck renv c ctx newKey eck (dm_store d1) of
                None \<Rightarrow> (False, eck, d1)
              | Some x \<Rightarrow>
                  let d2 = await env 5 (d1\<lparr>dm_store := rt_store x\<rparr>);
                      d3 = update_store (upsertAttendee (join_upsert c pk ''revoked'' [] (jv_now env))) d2
                  in (True, rt_eck x, await env 6 d3))"

datatype approve_result = ApGranted | ApNobody | ApRefused

text \<open>An approve that found, or created, the row \<open>r\<close>.\<close>

definition approve_row ::
  "'h join_env \<Rightarrow> event_state \<Rightarrow> pubkey \<Rightarrow> attendee_row \<Rightarrow> daemon \<Rightarrow> approve_result \<times> daemon" where
  "approve_row env st pk r d =
     (let c = es_coordinate st; approved_before = (ar_status r = ''approved''); fits = jv_fits env (dm_store d);
          d2 = (if approved_before then d else await env 4 d)
      in if \<not> approved_before \<and> \<not> fits then (ApRefused, d2)
         else
           let d3 = update_store (clearRevocation c pk) d2
           in (ApGranted, if approved_before then d3
                          else update_store (upsertAttendee (join_upsert c pk ''approved'' [] (jv_now env))) d3))"

definition approve_member :: "'h join_env \<Rightarrow> event_state \<Rightarrow> pubkey \<Rightarrow> daemon \<Rightarrow> approve_result \<times> daemon" where
  "approve_member env st pk d =
     (let c = es_coordinate st;
          found = (if pk \<noteq> [] then getAttendee c pk (dm_store d) else None)
      in case found of
           Some r \<Rightarrow> approve_row env st pk r d
         | None \<Rightarrow>
             if \<not> hex32 pk then (ApNobody, d)
             else if MAX_ATTENDEES_PER_EVENT \<le> approvedAttendeeCount c (dm_store d) then (ApRefused, d)
             else
               let d1 = update_store (upsertAttendee (join_upsert c pk ''pending'' [] (jv_now env))) d
               in case getAttendee c pk (dm_store d1) of
                    None \<Rightarrow> (ApNobody, d1) | Some r \<Rightarrow> approve_row env st pk r d1)"

datatype admin_result = NotLive | Deferred | NotOrganizer | Expired | Skipped | Stopped | Done | Failed

text \<open>What an admin command needs besides the join environment.\<close>

record admin_env =
  ad_suspended :: "string \<Rightarrow> bool"
  ad_effect :: "admin_cmd \<Rightarrow> admin_args \<Rightarrow> daemon \<Rightarrow> daemon"
  ad_newKey :: string

definition run_admin ::
  "'h join_env \<Rightarrow> rotation_env \<Rightarrow> admin_env \<Rightarrow> event_state \<Rightarrow> admin_cmd \<Rightarrow> admin_args
   \<Rightarrow> command_order option \<Rightarrow> keyed \<Rightarrow> admin_result \<times> keyed" where
  "run_admin env renv aenv st cmd args ord kd =
     (let c = es_coordinate st; subject = commandSubject c cmd args; pk = string_of_arg (aa_pubkey args);
          (eck, d) = kd;
          (res, eck, d) =
            (case cmd of
               Approve \<Rightarrow>
                 if (case ord of Some oo \<Rightarrow> \<not> stillOwnsSubject c subject (jo_rumor_id oo) (dm_store d) | None \<Rightarrow> False)
                 then (Stopped, eck, d)
                 else (case approve_member env st pk d of
                         (ApRefused, d') \<Rightarrow> (Stopped, eck, d')
                       | (ApNobody, d') \<Rightarrow> (Done, eck, d')
                       | (ApGranted, d') \<Rightarrow> (Done, eck, await env 7 d'))
             | Revoke \<Rightarrow>
                 if pk = [] then (Done, eck, d)
                 else (case revokeAttendee env renv st pk (map_option (\<lambda>oo. (subject, jo_rumor_id oo)) ord) True
                              (ad_newKey aenv) (eck, d) of
                         (True, kd') \<Rightarrow> (Done, kd')
                       | (False, kd') \<Rightarrow> (Failed, kd'))
             | _ \<Rightarrow> (Done, eck, ad_effect aenv cmd args d))
      in (res, eck,
          if res = Done
          then (case ord of Some oo \<Rightarrow> update_store (completeCommandOp c subject (jo_rumor_id oo)) d | None \<Rightarrow> d)
          else d))"

definition handleAdmin ::
  "'h join_env \<Rightarrow> rotation_env \<Rightarrow> admin_env \<Rightarrow> pubkey \<Rightarrow> string \<Rightarrow> admin_cmd \<Rightarrow> admin_args
   \<Rightarrow> command_order option \<Rightarrow> keyed \<Rightarrow> admin_result \<times> keyed" where
  "handleAdmin env renv aenv sender coordinate cmd args ord kd =
     (case dm_events (snd kd) coordinate of
        None \<Rightarrow>
          (if ad_suspended aenv coordinate \<and> \<not> isInstallTombstoned coordinate (dm_store (snd kd))
           then (case parseCoordinate coordinate of
                   Inl _ \<Rightarrow> Failed
                 | Inr p \<Rightarrow> if sender = co_pubkey p then Deferred else NotLive)
           else NotLive, kd)
      | Some st \<Rightarrow>
          if sender \<noteq> es_eid st then (NotOrganizer, kd)
          else if (case ord of Some oo \<Rightarrow> jv_now env div 1000 > or_expires oo | None \<Rightarrow> False) then (Expired, kd)
          else
            (case ord of
               None \<Rightarrow> run_admin env renv aenv st cmd args None kd
             | Some oo \<Rightarrow>
                 (case beginOrderedOperation coordinate (commandSubject coordinate cmd args) oo (dm_store (snd kd)) of
                    None \<Rightarrow> (Skipped, kd)
                  | Some s1 \<Rightarrow> run_admin env renv aenv st cmd args ord (fst kd, (snd kd)\<lparr>dm_store := s1\<rparr>))))"

text \<open>A withdrawal that passed the gate and found a row.\<close>

definition withdraw_member ::
  "'h join_env \<Rightarrow> rotation_env \<Rightarrow> string \<Rightarrow> event_state \<Rightarrow> pubkey \<Rightarrow> string \<Rightarrow> string \<Rightarrow> bool \<Rightarrow> attendee_row
   \<Rightarrow> keyed \<Rightarrow> keyed" where
  "withdraw_member env renv newKey st pk subject rumorId delete_data r kd =
     (let c = es_coordinate st; complete = completeCommandOp c subject rumorId; (eck, d) = kd;
          rotating = (ar_status r = ''approved'' \<or>
                      recorded_rotation (progress_fields renv c subject (dm_store d)) \<noteq> None);
          (ok, eck, d1) =
            (if rotating then revokeAttendee env renv st pk (Some (subject, rumorId)) False newKey kd
             else if ar_status r = ''pending'' then (True, eck, update_store (purge_attendee_row c pk) d)
             else (True, eck, d))
      in if \<not> ok then (eck, d1)
         else if delete_data
         then (if \<not> stillOwnsSubject c subject rumorId (dm_store d1) then (eck, d1)
               else (eck, update_store (complete \<circ> purge_attendee_row c pk) d1))
         else (eck, update_store complete d1))"

definition handleWithdrawal ::
  "'h join_env \<Rightarrow> rotation_env \<Rightarrow> string \<Rightarrow> event_state \<Rightarrow> pubkey \<Rightarrow> string \<Rightarrow> bool \<Rightarrow> join_order
   \<Rightarrow> keyed \<Rightarrow> keyed" where
  "handleWithdrawal env renv newKey st pk a delete_data ord kd =
     (let c = es_coordinate st; subject = ''member:'' @ pk
      in if a \<noteq> c then kd
         else (case beginOrderedOperation c subject ord (dm_store (snd kd)) of
                 None \<Rightarrow> kd
               | Some s1 \<Rightarrow>
                   let d = (snd kd)\<lparr>dm_store := s1\<rparr>
                   in case getAttendee c pk s1 of
                        None \<Rightarrow> (fst kd, update_store (completeCommandOp c subject (jo_rumor_id ord)) d)
                      | Some r \<Rightarrow>
                          withdraw_member env renv newKey st pk subject (jo_rumor_id ord) delete_data r (fst kd, d)))"

section \<open>A revoked member stays out\<close>

definition kept_out :: "string \<Rightarrow> pubkey \<Rightarrow> event_store \<Rightarrow> bool" where
  "kept_out c pk s \<longleftrightarrow> isRevoked c pk s \<and> row_status c pk s \<noteq> Some ''approved''"

text \<open>A statement that neither lifts this member's revocation nor writes their row as approved.\<close>

definition harmless :: "string \<Rightarrow> pubkey \<Rightarrow> store_op \<Rightarrow> bool" where
  "harmless c pk p =
     (case p of
        ClearRevocation c' pk' \<Rightarrow> (c', pk') \<noteq> (c, pk)
      | UpsertAttendee u \<Rightarrow> upsert_key u = (c, pk) \<longrightarrow> ua_status u \<noteq> Some ''approved''
      | _ \<Rightarrow> True)"

lemma isRevoked_step:
  "isRevoked c pk s \<Longrightarrow> harmless c pk p \<Longrightarrow> isRevoked c pk (store_step protect p s)"
  by (cases p) (auto simp: store_defs isRevoked_def harmless_def update_conv' delete_conv')

lemma find_status_update:
  "(\<And>r. att_key (f r) = att_key r \<and> ar_status (f r) = ar_status r) \<Longrightarrow>
     map_option ar_status (List.find (\<lambda>r. att_key r = k) (update_where Q f rows))
       = map_option ar_status (List.find (\<lambda>r. att_key r = k) rows)"
  by (induction rows) auto

lemma row_status_attendees:
  "row_status c pk s = map_option ar_status (List.find (\<lambda>r. att_key r = (c, pk)) (st_attendees s))"
  by (simp add: row_status_def getAttendee_key)

lemma row_status_commit [simp]: "row_status c pk (snd (commitAiProfile x s)) = row_status c pk s"
proof -
  have rows: "st_attendees (snd (commitAiProfile x s)) =
      update_where (\<lambda>r. is_attendee (ac_coordinate x) (ac_pubkey x) r \<and>
        ar_source_revision r = ac_expectedSourceRevision x) (committed x) (st_attendees s)"
    by (simp add: commitAiProfile_def Let_def committed_def [abs_def])
  have "att_key (committed x r) = att_key r \<and> ar_status (committed x r) = ar_status r" for r
    by (simp add: committed_def att_key_def)
  then show ?thesis unfolding row_status_attendees rows by (rule find_status_update)
qed

lemma row_status_cong: "st_attendees s' = st_attendees s \<Longrightarrow> row_status c pk s' = row_status c pk s"
  by (simp add: row_status_attendees)

lemma row_status_purge [simp]:
  "row_status c pk (purge_attendee_row c' pk' s) = (if (c, pk) = (c', pk') then None else row_status c pk s)"
  by (simp add: row_status_def getAttendee_purge)

lemma row_status_upsert:
  "row_status c pk s \<noteq> Some ''approved'' \<Longrightarrow> (upsert_key u = (c, pk) \<longrightarrow> ua_status u \<noteq> Some ''approved'')
     \<Longrightarrow> row_status c pk (upsertAttendee u s) \<noteq> Some ''approved''"
  by (auto simp: row_status_def getAttendee_upsert inserted_attendee_def updated_attendee_def
      coalesce_value_def split: option.splits)

lemma row_status_step:
  assumes "row_status c pk s \<noteq> Some ''approved''" and "harmless c pk p"
  shows "row_status c pk (store_step protect p s) \<noteq> Some ''approved''"
proof (cases p)
  case (UpsertAttendee u)
  then show ?thesis using assms row_status_upsert by (simp add: store_step.simps harmless_def)
next
  case (PurgeAttendee c' pk')
  then show ?thesis using assms(1) by (simp add: store_step.simps)
next
  case (CommitAi x)
  then show ?thesis using assms(1) by (simp add: store_step.simps)
qed (use assms(1) in \<open>simp_all add: row_status_cong [OF store_step_attendees [THEN trans]]\<close>)

lemma kept_out_step: "kept_out c pk s \<Longrightarrow> harmless c pk p \<Longrightarrow> kept_out c pk (store_step protect p s)"
  unfolding kept_out_def using isRevoked_step row_status_step by blast

lemma kept_out_run:
  "kept_out c pk s \<Longrightarrow> \<forall>p\<in>set ops. harmless c pk p \<Longrightarrow> kept_out c pk (run_store protect ops s)"
  by (induction ops arbitrary: s) (auto simp: kept_out_step)

text \<open>Nothing harmful happens while a handler waits.\<close>

definition calm_for :: "string \<Rightarrow> pubkey \<Rightarrow> 'h join_env \<Rightarrow> bool" where
  "calm_for c pk env \<longleftrightarrow> (\<forall>n. \<forall>p\<in>set (jv_await env n). harmless c pk p)"

lemma kept_out_cong:
  "st_attendees s' = st_attendees s \<Longrightarrow> st_revocations s' = st_revocations s \<Longrightarrow> kept_out c pk s' = kept_out c pk s"
  by (simp add: kept_out_def isRevoked_def row_status_attendees)

lemma kept_out_untouched [simp]:
  "kept_out c pk (beginCommandOp c' sub t r s) = kept_out c pk s"
  "kept_out c pk (completeCommandOp c' sub r s) = kept_out c pk s"
  "kept_out c pk (setCommandOpProgress protect c' sub r pr s) = kept_out c pk s"
  "kept_out c pk (persistEck renv c' eck s) = kept_out c pk s"
  by (rule kept_out_cong;
      simp add: beginCommandOp_def completeCommandOp_def setCommandOpProgress_def update_command_def
        persistEck_def upsertEvent_def split: option.split)+

lemma kept_out_await [simp]: "calm_for c pk env \<Longrightarrow> kept_out c pk (dm_store d) \<Longrightarrow> kept_out c pk (dm_store (await env n d))"
  by (simp add: await_def calm_for_def kept_out_run)

lemma kept_out_purge [simp]: "kept_out c pk s \<Longrightarrow> kept_out c pk (purge_attendee_row c' pk' s)"
  using kept_out_step [of c pk s "PurgeAttendee c' pk'" id] by (simp add: harmless_def store_step.simps)

lemma kept_out_join_upsert:
  "kept_out c pk s \<Longrightarrow> (c', pk') \<noteq> (c, pk) \<or> status \<noteq> ''approved''
     \<Longrightarrow> kept_out c pk (upsertAttendee (join_upsert c' pk' status nm now) s)"
  by (auto simp: kept_out_def row_status_join_upsert)

lemma kept_out_revocation:
  "kept_out c pk s \<Longrightarrow> kept_out c pk (recordRevocation c' pk' now s)"
  "kept_out c pk s \<Longrightarrow> (c', pk') \<noteq> (c, pk) \<Longrightarrow> kept_out c pk (clearRevocation c' pk' s)"
  using kept_out_step [of c pk s "store_op.Revoke c' pk' now" id] kept_out_step [of c pk s "ClearRevocation c' pk'" id]
  by (simp_all add: harmless_def store_step.simps)

lemma kept_out_claim [simp]: "kept_out c pk (snd (claimInvite c' i u now m s)) = kept_out c pk s"
  by (rule kept_out_cong) (simp_all add: claimInvite_def Let_def)

lemma dm_store_update [simp]: "dm_store (update_store f d) = f (dm_store d)"
  by (simp add: update_store_def)

text \<open>The stages of a join by somebody else, or at another event.\<close>

lemma kept_out_evaluate [simp]:
  "kept_out c pk (dm_store (snd (evaluate env st pk' code pub d))) = kept_out c pk (dm_store d)"
  by (simp add: evaluate_def evaluateEntitlement_def check_invite_def case_prod_unfold Let_def split: option.split)

lemma kept_out_self [simp]:
  "calm_for c pk env \<Longrightarrow> kept_out c pk (dm_store d)
     \<Longrightarrow> kept_out c pk (dm_store (snd (organizerSelfJoin env st pk' code d)))"
  by (simp add: organizerSelfJoin_def Let_def case_prod_unfold split: option.split)

lemma kept_out_settle [simp]:
  "kept_out c pk (dm_store d) \<Longrightarrow> (es_coordinate st, pk') \<noteq> (c, pk)
     \<Longrightarrow> kept_out c pk (dm_store (snd (settle_join env st pk' nm qf dec d)))"
  by (simp add: settle_join_def Let_def kept_out_join_upsert)

lemma kept_out_manual [simp]:
  "calm_for c pk env \<Longrightarrow> kept_out c pk (dm_store d) \<Longrightarrow> (es_coordinate st, pk') \<noteq> (c, pk)
     \<Longrightarrow> kept_out c pk (dm_store (snd (join_manual env st pk' tags nm code qf d)))"
  using kept_out_self [of c pk env d st pk' code]
  by (cases "organizerSelfJoin env st pk' code d") (simp add: join_manual_def Let_def split: option.split)

lemma kept_out_entitled [simp]:
  "calm_for c pk env \<Longrightarrow> kept_out c pk (dm_store d) \<Longrightarrow> (es_coordinate st, pk') \<noteq> (c, pk)
     \<Longrightarrow> kept_out c pk (dm_store (snd (join_entitled env st pk' tags nm code existing qf d)))"
  by (simp add: join_entitled_def Let_def case_prod_unfold)

lemma kept_out_purges: "kept_out c pk s \<Longrightarrow> kept_out c pk (foldl (\<lambda>s pk'. purge_attendee_row c' pk' s) s pks)"
  by (induction pks arbitrary: s) simp_all

lemma kept_out_queue [simp]: "kept_out c pk s \<Longrightarrow> kept_out c pk (snd (pendingQueueFull c' now s))"
  by (simp add: pendingQueueFull_def Let_def kept_out_purges)

lemma kept_out_join:
  assumes "calm_for c pk env" and "kept_out c pk (dm_store d)"
  shows "kept_out c pk (dm_store (snd (handleJoinLocked env st pk' tags nm order d)))"
proof (cases "(es_coordinate st, pk') = (c, pk)")
  case True
  then have "handleJoinLocked env st pk' tags nm order d = (NotGranted, d)"
    using assms(2) by (intro handleJoin_revoked) (simp add: kept_out_def)
  then show ?thesis using assms(2) by simp
next
  case False
  then show ?thesis using assms
    by (simp add: handleJoinLocked_def Let_def case_prod_unfold kept_out_join_upsert)
qed

lemma kept_out_rotate:
  "rotateEck renv c' ctx k eck s = Some x \<Longrightarrow> kept_out c pk s \<Longrightarrow> kept_out c pk (rt_store x)"
  by (auto simp: rotateEck_def Let_def split: option.splits if_splits)

lemma kept_out_revokeAttendee:
  assumes env: "calm_for c pk env" and kept: "kept_out c pk (dm_store (snd kd))"
  shows "kept_out c pk (dm_store (snd (snd (revokeAttendee env renv st pk' ctx org k kd))))"
proof -
  let ?e = "es_coordinate st"
  define d1 where "d1 = (if org then update_store (recordRevocation ?e pk' (jv_now env)) (snd kd) else snd kd)"
  have d1: "kept_out c pk (dm_store d1)" using kept by (simp add: d1_def kept_out_revocation)
  show ?thesis
  proof (cases "rotateEck renv ?e ctx k (fst kd) (dm_store d1)")
    case None
    then show ?thesis using kept d1
      by (simp add: revokeAttendee_def case_prod_unfold Let_def flip: d1_def)
  next
    case (Some x)
    then have "kept_out c pk (rt_store x)" using kept_out_rotate d1 by blast
    then show ?thesis using Some kept env
      by (simp add: revokeAttendee_def case_prod_unfold Let_def kept_out_join_upsert flip: d1_def)
  qed
qed

lemma kept_out_approve_row:
  "calm_for c pk env \<Longrightarrow> kept_out c pk (dm_store d) \<Longrightarrow> (es_coordinate st, pk') \<noteq> (c, pk)
     \<Longrightarrow> kept_out c pk (dm_store (snd (approve_row env st pk' r d)))"
  by (simp add: approve_row_def Let_def kept_out_revocation kept_out_join_upsert)

lemma kept_out_approve:
  assumes "calm_for c pk env" and "kept_out c pk (dm_store d)" and "(es_coordinate st, pk') \<noteq> (c, pk)"
  shows "kept_out c pk (dm_store (snd (approve_member env st pk' d)))"
proof -
  define d1 where "d1 = update_store (upsertAttendee (join_upsert (es_coordinate st) pk' ''pending'' [] (jv_now env))) d"
  define found where "found = (if pk' \<noteq> [] then getAttendee (es_coordinate st) pk' (dm_store d) else None)"
  note row = kept_out_approve_row [OF assms(1) _ assms(3)]
  have "kept_out c pk (dm_store d1)" using assms(2) by (simp add: d1_def kept_out_join_upsert)
  then show ?thesis
    using assms(2) row unfolding approve_member_def Let_def d1_def [symmetric] found_def [symmetric]
    by (cases found) (simp_all split: option.split)
qed

lemma kept_out_withdraw_member:
  assumes "calm_for c pk env" and "kept_out c pk (dm_store (snd kd))"
  shows "kept_out c pk (dm_store (snd (withdraw_member env renv k st pk' sub r del row kd)))"
  using kept_out_revokeAttendee [OF assms, of renv st pk' "Some (sub, r)" False k] assms(2)
  by (simp add: withdraw_member_def case_prod_unfold Let_def)

lemma kept_out_begin:
  "beginOrderedOperation c' sub ord s = Some s1 \<Longrightarrow> kept_out c pk s1 = kept_out c pk s"
  by (auto simp: beginOrderedOperation_def Let_def split: if_splits)

lemma kept_out_withdrawal:
  assumes "calm_for c pk env" and "kept_out c pk (dm_store (snd kd))"
  shows "kept_out c pk (dm_store (snd (handleWithdrawal env renv k st pk' a del ord kd)))"
  using assms
  by (auto simp del: append.simps simp: handleWithdrawal_def Let_def intro!: kept_out_withdraw_member
      dest: kept_out_begin split: option.split)

text \<open>The commands other than approve and revoke run store statements harmless to this member.\<close>

definition effects_calm :: "string \<Rightarrow> pubkey \<Rightarrow> admin_env \<Rightarrow> bool" where
  "effects_calm c pk aenv \<longleftrightarrow>
     (\<forall>cmd args d. \<exists>protect ops. dm_store (ad_effect aenv cmd args d) = run_store protect ops (dm_store d)
        \<and> (\<forall>p\<in>set ops. harmless c pk p))"

lemma kept_out_effect:
  "effects_calm c pk aenv \<Longrightarrow> kept_out c pk (dm_store d) \<Longrightarrow> kept_out c pk (dm_store (ad_effect aenv cmd args d))"
  unfolding effects_calm_def using kept_out_run by metis

lemma kept_out_run_admin:
  assumes env: "calm_for c pk env" "effects_calm c pk aenv" and kept: "kept_out c pk (dm_store (snd kd))"
    and other: "cmd = Approve \<longrightarrow> (es_coordinate st, string_of_arg (aa_pubkey args)) \<noteq> (c, pk)"
  shows "kept_out c pk (dm_store (snd (snd (run_admin env renv aenv st cmd args ord kd))))"
proof (cases cmd)
  case Approve
  define ap where "ap = approve_member env st (string_of_arg (aa_pubkey args)) (snd kd)"
  have "kept_out c pk (dm_store (snd ap))" unfolding ap_def using env(1) kept other Approve by (intro kept_out_approve) auto
  then show ?thesis using kept env(1) Approve
    by (simp add: run_admin_def Let_def case_prod_unfold flip: ap_def split: approve_result.split option.split)
next
  case Revoke
  define ctx where "ctx = map_option (\<lambda>oo. (commandSubject (es_coordinate st) cmd args, jo_rumor_id oo)) ord"
  define rv where "rv = revokeAttendee env renv st (string_of_arg (aa_pubkey args)) ctx True (ad_newKey aenv) kd"
  have "kept_out c pk (dm_store (snd (snd rv)))" unfolding rv_def by (rule kept_out_revokeAttendee [OF env(1) kept])
  then show ?thesis using kept Revoke
    by (cases kd; cases ord)
      (simp_all del: commandSubject.simps add: run_admin_def Let_def case_prod_unfold rv_def ctx_def split: bool.split)
qed (use kept kept_out_effect [OF env(2)] in
    \<open>simp_all add: run_admin_def Let_def case_prod_unfold split: option.split\<close>)

lemma kept_out_admin:
  assumes env: "calm_for c pk env" "effects_calm c pk aenv" and kept: "kept_out c pk (dm_store (snd kd))"
    and other: "cmd = Approve \<longrightarrow> string_of_arg (aa_pubkey args) \<noteq> pk"
  shows "kept_out c pk (dm_store (snd (snd (handleAdmin env renv aenv sender coord cmd args ord kd))))"
proof -
  have run: "kept_out c pk (dm_store (snd kd')) \<Longrightarrow>
      kept_out c pk (dm_store (snd (snd (run_admin env renv aenv st cmd args o' kd'))))" for st kd' o'
    using kept_out_run_admin [OF env] other by auto
  show ?thesis
  proof (cases "dm_events (snd kd) coord")
    case None
    then show ?thesis using kept by (simp add: handleAdmin_def split: sum.split)
  next
    case (Some st)
    then show ?thesis using kept
      by (auto simp: handleAdmin_def intro!: run simp del: commandSubject.simps
          dest: kept_out_begin [of _ _ _ _ _ c pk] split: option.split)
  qed
qed

lemma isRevoked_run:
  "isRevoked c pk s \<Longrightarrow> \<forall>p\<in>set ops. harmless c pk p \<Longrightarrow> isRevoked c pk (run_store protect ops s)"
  by (induction ops arbitrary: s) (auto simp: isRevoked_step)

lemma isRevoked_cong: "st_revocations s' = st_revocations s \<Longrightarrow> isRevoked c pk s' = isRevoked c pk s"
  by (simp add: isRevoked_def)

lemma isRevoked_rotate:
  "rotateEck renv c' ctx k eck s = Some x \<Longrightarrow> isRevoked c pk (rt_store x) = isRevoked c pk s"
  by (rule isRevoked_cong)
    (auto simp: rotateEck_def Let_def persistEck_def upsertEvent_def setCommandOpProgress_def update_command_def
      split: option.splits if_splits)

lemma revokeAttendee_removes:
  assumes env: "calm_for c pk env" and st: "es_coordinate st = c"
    and owns: "case ctx of Some (sub, r) \<Rightarrow> stillOwnsSubject c sub r (dm_store (snd kd)) | None \<Rightarrow> True"
    and ok: "fst (revokeAttendee env renv st pk ctx True k kd)"
  shows "kept_out c pk (dm_store (snd (snd (revokeAttendee env renv st pk ctx True k kd))))"
proof -
  have owned: "\<not> (case ctx of None \<Rightarrow> False | Some (sub, r) \<Rightarrow> \<not> stillOwnsSubject c sub r (dm_store (snd kd)))"
    using owns by (auto split: option.splits)
  define s1 where "s1 = recordRevocation c pk (jv_now env) (dm_store (snd kd))"
  have "isRevoked c pk s1"
    by (cases "(c, pk) \<in> fst ` set (st_revocations (dm_store (snd kd)))")
      (auto simp: s1_def isRevoked_def recordRevocation_def update_conv')
  moreover obtain x where x: "rotateEck renv c ctx k (fst kd) s1 = Some x"
    using ok st owned by (auto simp: revokeAttendee_def case_prod_unfold Let_def s1_def split: option.splits if_splits)
  ultimately have "isRevoked c pk (rt_store x)" by (simp add: isRevoked_rotate)
  then have "isRevoked c pk (run_store (jv_protect env) (jv_await env 5) (rt_store x))"
    using env by (intro isRevoked_run) (simp_all add: calm_for_def)
  then show ?thesis
    using x st env owned
    by (simp add: revokeAttendee_def case_prod_unfold Let_def s1_def await_def calm_for_def)
      (rule kept_out_run, simp add: kept_out_def row_status_join_upsert, simp)
qed

lemma run_admin_Revoke:
  fixes st :: event_state
  assumes "string_of_arg (aa_pubkey args) \<noteq> []"
  defines "sub \<equiv> commandSubject (es_coordinate st) Revoke args"
  shows "run_admin env renv aenv st Revoke args ord kd =
    (let (ok, eck, d) = revokeAttendee env renv st (string_of_arg (aa_pubkey args))
           (map_option (\<lambda>oo. (sub, jo_rumor_id oo)) ord) True (ad_newKey aenv) kd
     in (if ok then Done else Failed, eck,
         if ok then (case ord of Some oo \<Rightarrow> update_store (completeCommandOp (es_coordinate st) sub (jo_rumor_id oo)) d
                                | None \<Rightarrow> d)
         else d))"
  using assms(1) unfolding run_admin_def sub_def
  by (cases kd) (simp del: commandSubject.simps add: Let_def split: prod.split bool.split option.split)

lemma run_admin_Revoke_Done:
  assumes "fst (run_admin env renv aenv st Revoke args ord kd) = Done"
    and env: "calm_for (es_coordinate st) pk env" and pk: "string_of_arg (aa_pubkey args) = pk" "pk \<noteq> []"
    and owns: "case ord of Some oo \<Rightarrow> stillOwnsSubject (es_coordinate st) (commandSubject (es_coordinate st) Revoke args)
           (jo_rumor_id oo) (dm_store (snd kd)) | None \<Rightarrow> True"
  shows "kept_out (es_coordinate st) pk (dm_store (snd (snd (run_admin env renv aenv st Revoke args ord kd))))"
proof -
  define sub where "sub = commandSubject (es_coordinate st) Revoke args"
  define rv where "rv = revokeAttendee env renv st pk (map_option (\<lambda>oo. (sub, jo_rumor_id oo)) ord) True (ad_newKey aenv) kd"
  note run = run_admin_Revoke [of args env renv aenv st ord kd, folded sub_def, unfolded pk(1), OF pk(2), folded rv_def]
  from assms(1) have "fst rv" by (auto simp: run case_prod_unfold Let_def split: if_splits)
  then have "kept_out (es_coordinate st) pk (dm_store (snd (snd rv)))"
    unfolding rv_def using owns
    by (intro revokeAttendee_removes [OF env refl]) (auto simp: sub_def split: option.split)
  then show ?thesis by (simp add: run case_prod_unfold Let_def split: option.split)
qed

lemma begin_owns: "beginOrderedOperation c sub ord s = Some s1 \<Longrightarrow> stillOwnsSubject c sub (jo_rumor_id ord) s1"
  by (auto simp: beginOrderedOperation_def Let_def stillOwnsSubject_def watermark_op_of op_of_begin split: if_splits)

text \<open>The messages that reach a membership, each handled in surroundings of its own.\<close>

datatype 'h member_msg =
    MsgJoin "'h join_env" event_state pubkey "tag list" string "join_order option"
  | MsgAdmin "'h join_env" rotation_env admin_env pubkey string admin_cmd admin_args "command_order option"
  | MsgWithdraw "'h join_env" rotation_env string event_state pubkey string bool join_order

fun member_step :: "'h member_msg \<Rightarrow> keyed \<Rightarrow> keyed" where
  "member_step (MsgJoin env st pk tags nm ord) kd = (fst kd, snd (handleJoinLocked env st pk tags nm ord (snd kd)))"
| "member_step (MsgAdmin env renv aenv sender c cmd args ord) kd = snd (handleAdmin env renv aenv sender c cmd args ord kd)"
| "member_step (MsgWithdraw env renv k st pk a del ord) kd = handleWithdrawal env renv k st pk a del ord kd"

fun spares :: "string \<Rightarrow> pubkey \<Rightarrow> 'h member_msg \<Rightarrow> bool" where
  "spares c pk (MsgJoin env st pk' tags nm ord) = calm_for c pk env"
| "spares c pk (MsgAdmin env renv aenv sender c' cmd args ord) =
     (calm_for c pk env \<and> effects_calm c pk aenv \<and> (cmd = Approve \<longrightarrow> string_of_arg (aa_pubkey args) \<noteq> pk))"
| "spares c pk (MsgWithdraw env renv k st pk' a del ord) = calm_for c pk env"

definition member_run :: "'h member_msg list \<Rightarrow> keyed \<Rightarrow> keyed" where
  "member_run msgs kd = foldl (\<lambda>kd m. member_step m kd) kd msgs"

lemma member_run_simps [simp]:
  "member_run [] kd = kd"
  "member_run (m # msgs) kd = member_run msgs (member_step m kd)"
  by (simp_all add: member_run_def)

lemma kept_out_member_step:
  "spares c pk m \<Longrightarrow> kept_out c pk (dm_store (snd kd)) \<Longrightarrow> kept_out c pk (dm_store (snd (member_step m kd)))"
  by (cases m) (auto simp: kept_out_join kept_out_admin kept_out_withdrawal)

lemma kept_out_member_run:
  "\<forall>m\<in>set msgs. spares c pk m \<Longrightarrow> kept_out c pk (dm_store (snd kd))
     \<Longrightarrow> kept_out c pk (dm_store (snd (member_run msgs kd)))"
  by (induction msgs arbitrary: kd) (auto simp: kept_out_member_step)

text \<open>
  (C2) A revoked member stays out. Once an organizer's revoke has run to completion, the member has a
  revocation on record and no approved row, and this stays so through any sequence of joins,
  withdrawals and commands, the member's own included, at this or any other event, as long as none
  of them is an approve naming them and no other handler, while these wait for relays, lifts the
  revocation or writes their row as approved.
\<close>

theorem revoked_stays_out:
  assumes "fst (handleAdmin env renv aenv sender c Revoke args ord kd) = Done"
    and "dm_events (snd kd) c = Some st" and "es_coordinate st = c"
    and "string_of_arg (aa_pubkey args) = pk" and "pk \<noteq> []" and "calm_for c pk env"
    and "\<forall>m\<in>set msgs. spares c pk m"
  shows "kept_out c pk (dm_store (snd (member_run msgs (snd (handleAdmin env renv aenv sender c Revoke args ord kd)))))"
proof (rule kept_out_member_run [OF assms(7)])
  show "kept_out c pk (dm_store (snd (snd (handleAdmin env renv aenv sender c Revoke args ord kd))))"
  proof (cases ord)
    case None
    then have "handleAdmin env renv aenv sender c Revoke args ord kd = run_admin env renv aenv st Revoke args None kd"
      using assms(1,2) by (simp add: handleAdmin_def split: if_splits)
    then show ?thesis using assms run_admin_Revoke_Done [of env renv aenv st args None kd pk] by simp
  next
    case (Some oo)
    then obtain s1 where s1: "beginOrderedOperation c (commandSubject c Revoke args) oo (dm_store (snd kd)) = Some s1"
      and run: "handleAdmin env renv aenv sender c Revoke args ord kd =
        run_admin env renv aenv st Revoke args (Some oo) (fst kd, (snd kd)\<lparr>dm_store := s1\<rparr>)"
      using assms(1,2) by (simp add: handleAdmin_def split: if_splits option.splits)
    show ?thesis unfolding run
      using run_admin_Revoke_Done [OF assms(1) [unfolded run], of pk] assms begin_owns [OF s1] by simp
  qed
qed

lemma calm_calm: "calm_for c pk calm"
  by (simp add: calm_for_def calm_def)

definition plain_rotation :: rotation_env where
  "plain_rotation = \<lparr>ro_protect = id, ro_reveal = id, ro_parse = Map.empty, ro_fp = id, ro_now = 0\<rparr>"

definition plain_admin :: admin_env where
  "plain_admin = \<lparr>ad_suspended = (\<lambda>_. False), ad_effect = (\<lambda>cmd args d. d), ad_newKey = ''fresh''\<rparr>"

lemma plain_effects: "effects_calm c pk plain_admin"
proof -
  have "\<exists>protect ops. dm_store d = run_store protect ops (dm_store d) \<and> (\<forall>p\<in>set ops. harmless c pk p)"
    for d :: daemon by (rule exI [of _ id], rule exI [of _ "[]"]) simp
  then show ?thesis by (simp add: effects_calm_def plain_admin_def)
qed

definition revoke_ann :: admin_args where
  "revoke_ann = \<lparr>aa_pubkey = Some ''ann'', aa_talk_d = None\<rparr>"

definition held_key :: keyed where
  "held_key = ([\<lparr>eck_id = 1, eck_key = ''k''\<rparr>], party_daemon ''approved'')"

lemma held_key_event: "dm_events (snd held_key) ''e'' = Some party"
  by (simp add: held_key_def party_daemon_def)

lemma held_key_revoked:
  obtains d where "revokeAttendee calm plain_rotation party ''ann'' None True ''fresh'' held_key
    = (True, [\<lparr>eck_id = 1, eck_key = ''k''\<rparr>, \<lparr>eck_id = 2, eck_key = ''fresh''\<rparr>], d)"
  by (auto simp: revokeAttendee_def held_key_def rotateEck_def recorded_rotation_def canonicalEck_def
      next_eck_id_def Let_def)

lemma revoke_ann_run:
  obtains d where "handleAdmin calm plain_rotation plain_admin ''eid'' ''e'' Revoke revoke_ann None held_key
    = (Done, [\<lparr>eck_id = 1, eck_key = ''k''\<rparr>, \<lparr>eck_id = 2, eck_key = ''fresh''\<rparr>], d)"
proof -
  obtain d where "revokeAttendee calm plain_rotation party ''ann'' None True ''fresh'' held_key
    = (True, [\<lparr>eck_id = 1, eck_key = ''k''\<rparr>, \<lparr>eck_id = 2, eck_key = ''fresh''\<rparr>], d)" by (rule held_key_revoked)
  then show ?thesis using that held_key_event
    by (simp add: handleAdmin_def run_admin_Revoke revoke_ann_def string_of_arg_def party_def plain_admin_def Let_def)
qed

lemma revoked_stays_out_witness:
  "let join = MsgJoin calm party ''ann'' [] ''Ann'' None
   in kept_out ''e'' ''ann'' (dm_store (snd (member_run [join, join]
        (snd (handleAdmin calm plain_rotation plain_admin ''eid'' ''e'' Revoke revoke_ann None held_key)))))"
proof -
  have "fst (handleAdmin calm plain_rotation plain_admin ''eid'' ''e'' Revoke revoke_ann None held_key) = Done"
    by (rule revoke_ann_run) simp
  from revoked_stays_out [OF this held_key_event _ _ _ calm_calm, where pk = "''ann''"
      and msgs = "[MsgJoin calm party ''ann'' [] ''Ann'' None, MsgJoin calm party ''ann'' [] ''Ann'' None]"]
  show ?thesis
    by (simp add: Let_def revoke_ann_def string_of_arg_def calm_calm del: member_run_simps)
qed

section \<open>Who may command\<close>

text \<open>
  (C12) Only the organizer's own live commands act. If handling a command changed anything, then the event
  is live, the sender is its organizer, the command has not expired, and the gate of its subject let it
  run: the operation on record is absent, this very command left unfinished, or an older one. A command
  for an event that is not live is put off exactly when the event is suspended, not detached, and the
  sender owns the coordinate.
\<close>

theorem only_organizer_commands_act:
  assumes "snd (handleAdmin env renv aenv sender c cmd args ord kd) \<noteq> kd
    \<or> fst (handleAdmin env renv aenv sender c cmd args ord kd) = Deferred"
  shows "if fst (handleAdmin env renv aenv sender c cmd args ord kd) = Deferred
    then dm_events (snd kd) c = None \<and> ad_suspended aenv c \<and> \<not> isInstallTombstoned c (dm_store (snd kd))
      \<and> (\<exists>p. parseCoordinate c = Inr p \<and> co_pubkey p = sender)
      \<and> snd (handleAdmin env renv aenv sender c cmd args ord kd) = kd
    else (\<exists>st. dm_events (snd kd) c = Some st \<and> es_eid st = sender)
      \<and> (\<forall>oo. ord = Some oo \<longrightarrow> jv_now env div 1000 \<le> or_expires oo
            \<and> gate oo (getCommandWatermark c (commandSubject c cmd args) (dm_store (snd kd))))"
proof (cases "dm_events (snd kd) c")
  case None
  then show ?thesis using assms by (auto simp: handleAdmin_def split: sum.splits if_splits)
next
  case (Some st)
  have "fst (run_admin env renv aenv st cmd args o' kd') \<noteq> Deferred" for o' kd'
    by (auto simp: run_admin_def case_prod_unfold Let_def split: admin_cmd.split approve_result.split option.split bool.split)
  then have live: "fst (handleAdmin env renv aenv sender c cmd args ord kd) \<noteq> Deferred"
    using Some by (simp add: handleAdmin_def split: option.split)
  have "sender = es_eid st" using assms live Some by (auto simp: handleAdmin_def split: if_splits)
  moreover have "jv_now env div 1000 \<le> or_expires oo
      \<and> gate oo (getCommandWatermark c (commandSubject c cmd args) (dm_store (snd kd)))" if "ord = Some oo" for oo
    using assms live Some that
    by (auto simp: handleAdmin_def beginOrderedOperation_def Let_def split: if_splits)
  ultimately show ?thesis using live Some by auto
qed

lemma only_organizer_commands_act_witness:
  "\<exists>st. dm_events (snd held_key) ''e'' = Some st \<and> es_eid st = ''eid''"
proof -
  obtain d where run: "handleAdmin calm plain_rotation plain_admin ''eid'' ''e'' Revoke revoke_ann None held_key
    = (Done, [\<lparr>eck_id = 1, eck_key = ''k''\<rparr>, \<lparr>eck_id = 2, eck_key = ''fresh''\<rparr>], d)" by (rule revoke_ann_run)
  then have "snd (handleAdmin calm plain_rotation plain_admin ''eid'' ''e'' Revoke revoke_ann None held_key) \<noteq> held_key"
    by (simp add: held_key_def)
  from only_organizer_commands_act [OF disjI1 [OF this]] show ?thesis by (simp add: run)
qed

end
