(* ===== verification/Install.thy ===== *)
theory Install
  imports Revocation
begin

text \<open>
  Installing, suspending and detaching an event (\<open>installEvent\<close>, \<open>suspendEvent\<close>, \<open>retrySuspendedEvents\<close>,
  \<open>detachEvent\<close>, \<open>seedRevocations\<close>, the retention deadline and the purge of detached events in
  \<open>packages/coordinator/src/coordinator.ts\<close>).

  The state is the store and the maps of the running process: live events, the generation each install
  finished at, suspended events. What the relays answer is an argument, and so are
  \<open>getPublicKey\<close>, \<open>new URL\<close>, \<open>Number\<close>, \<open>JSON.parse\<close> of the stored values, the relay policy and
  at-rest encryption. \<open>installEvent\<close> is its synchronous part, from the answer of the fetch to the
  inbox subscription; the backfill, billing, chat and handover it then awaits are one later step that
  records the install as finished, or never comes. \<open>detachEvent\<close> is two steps, before and after it
  awaits the handlers in flight. Subscriptions, jobs, chat and logging are left out.
\<close>

section \<open>State\<close>

record live_event = event_state +
  le_identifier :: string
  le_inbox_sk :: string
  le_eck :: "eck_version list"
  le_relays :: "string list"
  le_retention_days :: "int option"
  le_event_end :: int
  le_config_id :: "string option"
  le_config_at :: int

record suspension =
  sp_inbox_sk :: string
  sp_eck :: "eck_version list"
  sp_relays :: "string list"
  sp_gen :: nat
  sp_retry_at :: int
  sp_attempts :: nat
  sp_reason :: string

record installer =
  im_store :: event_store
  im_events :: "string \<Rightarrow> live_event option"
  im_completed :: "string \<Rightarrow> nat option"
  im_suspended :: "string \<Rightarrow> suspension option"

datatype install_source = FromGrant | Restore

record install_grant =
  gr_coordinate :: string
  gr_inbox_sk :: string
  gr_eck :: "eck_version list"
  gr_relays :: "string list"
  gr_gen :: "nat option"
  gr_source :: install_source
  gr_revoked :: "pubkey list"

record install_env =
  iv_coord_pub :: pubkey
  iv_now :: int
  iv_fetched :: "minimal_event list"
  iv_urls :: url_env
  iv_error_text :: "config_error \<Rightarrow> string"
  iv_pubkey_of :: "string \<Rightarrow> pubkey"
  iv_sanitize :: "string list \<Rightarrow> string list"
  iv_default_relays :: "string list"
  iv_delays :: "int list"
  iv_config_json :: "event_config option \<Rightarrow> string"
  iv_stored_eck :: "string \<Rightarrow> eck_version list"
  iv_stored_relays :: "string \<Rightarrow> string list"
  iv_stored_days :: "string \<Rightarrow> int option"
  iv_fp :: "string \<Rightarrow> string"
  iv_protect :: "string \<Rightarrow> string"
  iv_reveal :: "string \<Rightarrow> string"

section \<open>Retention\<close>

definition DETACHED_NO_DEADLINE_GRACE_SEC :: int where "DETACHED_NO_DEADLINE_GRACE_SEC = 7 * 86400"

definition read_sec :: "(string \<Rightarrow> js_number) \<Rightarrow> tag list \<Rightarrow> string \<Rightarrow> int" where
  "read_sec number tags nm =
     (case tag_value nm tags of
        None \<Rightarrow> 0
      | Some raw \<Rightarrow> (case as_integer (number raw) of Some n \<Rightarrow> if n > 0 then n else 0 | None \<Rightarrow> 0))"

definition parseEventEndSec :: "(string \<Rightarrow> js_number) \<Rightarrow> minimal_event option \<Rightarrow> int" where
  "parseEventEndSec number evt =
     (case evt of
        None \<Rightarrow> 0
      | Some e \<Rightarrow> let t = read_sec number (me_tags e) ''end''
                  in if t \<noteq> 0 then t else read_sec number (me_tags e) ''start'')"

definition retentionAnchorFor :: "install_env \<Rightarrow> string \<Rightarrow> minimal_event option \<Rightarrow> event_store \<Rightarrow> int \<times> event_store" where
  "retentionAnchorFor env coordinate evt s =
     (let parsed = parseEventEndSec (ue_number (iv_urls env)) evt
      in if parsed > 0 then (parsed, setRetentionAnchor coordinate parsed s)
         else (getRetentionAnchor coordinate s, s))"

definition retentionDeadline :: "live_event \<Rightarrow> int option" where
  "retentionDeadline st =
     (case le_retention_days st of
        None \<Rightarrow> None
      | Some days \<Rightarrow> if le_event_end st \<le> 0 then None else Some (le_event_end st + days * 86400))"

definition detachPurgeAfter :: "install_env \<Rightarrow> string \<Rightarrow> live_event option \<Rightarrow> event_store \<Rightarrow> int" where
  "detachPurgeAfter env coordinate live s =
     (let nowSec = iv_now env div 1000;
          deadline =
            (case live of
               Some st \<Rightarrow> retentionDeadline st
             | None \<Rightarrow>
                 (case getEvent (iv_reveal env) coordinate s of
                    None \<Rightarrow> None
                  | Some row \<Rightarrow>
                      let endSec = getRetentionAnchor coordinate s
                      in (case iv_stored_days env (ev_config_json row) of
                            Some days \<Rightarrow> if days > 0 \<and> endSec > 0 then Some (endSec + days * 86400) else None
                          | None \<Rightarrow> None)))
      in case deadline of None \<Rightarrow> nowSec + DETACHED_NO_DEADLINE_GRACE_SEC | Some t \<Rightarrow> max t nowSec)"

section \<open>Install\<close>

definition onlyAddressed :: "minimal_event list \<Rightarrow> pubkey \<Rightarrow> string \<Rightarrow> minimal_event list" where
  "onlyAddressed events author d =
     filter (\<lambda>e. me_pubkey e = author
       \<and> list_ex (\<lambda>t. case t of a # b # _ \<Rightarrow> a = ''d'' \<and> b = d | _ \<Rightarrow> False) (me_tags e)) events"

text \<open>The newest 31600 at the address, parsed, with the reason when there is none to use.\<close>

definition fetched_config ::
  "install_env \<Rightarrow> event_coordinate \<Rightarrow> minimal_event option \<times> (string + event_config)" where
  "fetched_config env p =
     (let cfg = pickLatest (filter (\<lambda>e. me_kind e = int KIND_EVENT_CONFIG)
                  (onlyAddressed (iv_fetched env) (co_pubkey p) (co_identifier p)))
      in (cfg, case cfg of
                 None \<Rightarrow> Inl ''newest 31600 not fetchable''
               | Some e \<Rightarrow>
                   (case parseEventConfig (iv_urls env) (co_pubkey p) (me_tags e) of
                      Inl err \<Rightarrow> Inl (''newest 31600 present but unparseable ('' @ iv_error_text env err @ '')'')
                    | Inr cf \<Rightarrow> Inr cf)))"

datatype verdict = Reject | RetryLater | Proceed

definition authorize_grant :: "install_env \<Rightarrow> install_grant \<Rightarrow> event_config option \<Rightarrow> installer \<Rightarrow> verdict" where
  "authorize_grant env grant config im =
     (let c = gr_coordinate grant; gen = (case gr_gen grant of Some g \<Rightarrow> g | None \<Rightarrow> 0);
          high = installHighGen c (im_store im)
      in if gen < high then Reject
         else if gen = high \<and> (getEvent (iv_reveal env) c (im_store im) = None \<or> isInstallTombstoned c (im_store im))
         then Reject
         else if gen = high \<and> im_completed im c = Some gen then Reject
         else case config of
                None \<Rightarrow> RetryLater
              | Some cf \<Rightarrow>
                  if ec_coordinator cf \<noteq> Some (iv_coord_pub env)
                  then (if ec_coordinator cf = None \<or> ec_coordinator cf = Some [] then RetryLater else Reject)
                  else if ec_gen cf \<noteq> Some (int gen)
                  then (if int gen > (case ec_gen cf of Some g \<Rightarrow> g | None \<Rightarrow> 0) then RetryLater else Reject)
                  else if iv_pubkey_of env (gr_inbox_sk grant) \<noteq> ec_inbox cf then Reject
                  else Proceed)"

definition suspendEvent :: "install_env \<Rightarrow> install_grant \<Rightarrow> nat \<Rightarrow> string \<Rightarrow> installer \<Rightarrow> installer" where
  "suspendEvent env grant gen reason im =
     (let c = gr_coordinate grant;
          attempts = (case im_suspended im c of Some p \<Rightarrow> sp_attempts p | None \<Rightarrow> 0) + 1;
          delays = iv_delays env;
          backoff = (if delays = [] then 30000 else delays ! min (attempts - 1) (length delays - 1))
      in im\<lparr>im_completed := (im_completed im)(c := None),
            im_events := (im_events im)(c := None),
            im_suspended := (im_suspended im)(c \<mapsto>
              \<lparr>sp_inbox_sk = gr_inbox_sk grant, sp_eck = gr_eck grant, sp_relays = gr_relays grant,
               sp_gen = gen, sp_retry_at = iv_now env + backoff, sp_attempts = attempts,
               sp_reason = reason\<rparr>)\<rparr>)"

text \<open>\<open>detachEvent\<close> up to the wait for the handlers in flight, and from there on.\<close>

definition detach_begin :: "install_env \<Rightarrow> string \<Rightarrow> nat option \<Rightarrow> installer \<Rightarrow> installer" where
  "detach_begin env c gen im =
     (let s = im_store im;
          g = max (case gen of Some g \<Rightarrow> g | None \<Rightarrow> 0) (installHighGen c s)
      in im\<lparr>im_store := tombstoneInstall c g (iv_now env div 1000) s\<rparr>)"

definition detach_finish :: "install_env \<Rightarrow> string \<Rightarrow> installer \<Rightarrow> installer" where
  "detach_finish env c im =
     (let s = im_store im;
          purgeAfter = detachPurgeAfter env c (im_events im c) s
      in im\<lparr>im_store := clearCommandProgressForEvent c (deleteEvent c
               (recordDetachedEvent c purgeAfter (iv_now env div 1000) s)),
            im_events := (im_events im)(c := None), im_completed := (im_completed im)(c := None)\<rparr>)"

definition detachEvent :: "install_env \<Rightarrow> string \<Rightarrow> nat option \<Rightarrow> installer \<Rightarrow> installer" where
  "detachEvent env c gen im = detach_finish env c (detach_begin env c gen im)"

fun seedRevocations :: "int \<Rightarrow> string \<Rightarrow> pubkey list \<Rightarrow> event_store \<Rightarrow> event_store" where
  "seedRevocations now c [] s = s"
| "seedRevocations now c (pk # pks) s =
     (let s1 = recordRevocation c pk now s;
          s2 = (if row_status c pk s1 = Some ''approved''
                then upsertAttendee (join_upsert c pk ''revoked'' [] now) s1 else s1)
      in seedRevocations now c pks s2)"

datatype install_result = InstallThrew | Rejected | Retryable | Suspended | Detached | Installed

text \<open>
  \<open>commit_install\<close> is what follows the authorization: the key union, the row, the high-water mark, the
  tombstones of the grant's revoked members and the live state.
\<close>

definition commit_install ::
  "install_env \<Rightarrow> install_grant \<Rightarrow> event_coordinate \<Rightarrow> minimal_event option \<Rightarrow> event_config option \<Rightarrow> nat
   \<Rightarrow> installer \<Rightarrow> installer" where
  "commit_install env grant p cfg config gen im =
     (let c = gr_coordinate grant; s = im_store im;
          granted_relays = iv_sanitize env (gr_relays grant);
          relays = (if granted_relays \<noteq> [] then granted_relays else iv_default_relays env);
          eck = (case getEvent (iv_reveal env) c s of
                   Some held \<Rightarrow> unionEck (iv_fp env) [iv_stored_eck env (ev_eck_json held), gr_eck grant]
                 | None \<Rightarrow> gr_eck grant);
          s1 = upsertEvent (iv_protect env)
                 \<lparr>ue_coordinate = c, ue_configJson = iv_config_json env config, ue_inboxNsec = gr_inbox_sk grant,
                  ue_eckJson = stringify (eck_json eck), ue_configRelays = stringify (JArr (map JStr relays)),
                  ue_gen = Some gen, ue_now = iv_now env\<rparr> s;
          s2 = recordInstalledGen c gen s1;
          s3 = (if gr_source grant = FromGrant \<and> gr_revoked grant \<noteq> []
                then seedRevocations (iv_now env) c (remdups (gr_revoked grant)) s2 else s2);
          evt = pickLatest (filter (\<lambda>e. me_kind e = int (co_kind p))
                  (onlyAddressed (iv_fetched env) (co_pubkey p) (co_identifier p)));
          (endSec, s4) = retentionAnchorFor env c evt s3
      in im\<lparr>im_store := s4,
            im_events := (im_events im)(c \<mapsto>
              \<lparr>es_coordinate = c, es_space_kind = co_kind p, es_eid = co_pubkey p, es_gen = gen,
               es_approval = (case config of Some cf \<Rightarrow> ec_approval cf | None \<Rightarrow> Manual),
               es_children = Option.bind config ec_children,
               es_retention_expired = isRetentionExpired c s4,
               le_identifier = co_identifier p, le_inbox_sk = gr_inbox_sk grant, le_eck = eck, le_relays = relays,
               le_retention_days = Option.bind config ec_retention, le_event_end = endSec,
               le_config_id = map_option ev_id cfg, le_config_at = (case cfg of Some e \<Rightarrow> created_or_0 e | None \<Rightarrow> 0)\<rparr>)\<rparr>)"

definition config_of :: "string + event_config \<Rightarrow> event_config option" where
  "config_of r = (case r of Inl _ \<Rightarrow> None | Inr cf \<Rightarrow> Some cf)"

text \<open>The generation a restore runs at: the given one, else the one of the stored row.\<close>

definition restore_gen :: "install_env \<Rightarrow> install_grant \<Rightarrow> installer \<Rightarrow> nat" where
  "restore_gen env grant im =
     (case gr_gen grant of
        Some g \<Rightarrow> g
      | None \<Rightarrow> (case getEvent (iv_reveal env) (gr_coordinate grant) (im_store im) of Some r \<Rightarrow> ev_gen r | None \<Rightarrow> 0))"

definition drop_suspension :: "string \<Rightarrow> installer \<Rightarrow> installer" where
  "drop_suspension c im = im\<lparr>im_suspended := (im_suspended im)(c := None)\<rparr>"

definition installEvent :: "install_env \<Rightarrow> install_grant \<Rightarrow> installer \<Rightarrow> install_result \<times> installer" where
  "installEvent env grant im =
     (let c = gr_coordinate grant
      in case parseCoordinate c of
           Inl _ \<Rightarrow> (InstallThrew, im)
         | Inr p \<Rightarrow>
             let (cfg, parsed) = fetched_config env p; config = config_of parsed
             in case gr_source grant of
                  FromGrant \<Rightarrow>
                    (case authorize_grant env grant config im of
                       Reject \<Rightarrow> (Rejected, im)
                     | RetryLater \<Rightarrow> (Retryable, im)
                     | Proceed \<Rightarrow>
                         (Installed, commit_install env grant p cfg config
                            (case gr_gen grant of Some g \<Rightarrow> g | None \<Rightarrow> 0) im))
                | Restore \<Rightarrow>
                    let gen = restore_gen env grant im
                    in (case parsed of
                          Inl reason \<Rightarrow> (Suspended, suspendEvent env grant gen reason im)
                        | Inr cf \<Rightarrow>
                            if ec_coordinator cf \<noteq> Some (iv_coord_pub env) \<or> ec_gen cf \<noteq> Some (int gen)
                            then (Detached, detachEvent env c (Some gen) (drop_suspension c im))
                            else (Installed, commit_install env grant p cfg config gen (drop_suspension c im))))"

definition finish_install :: "string \<Rightarrow> nat \<Rightarrow> installer \<Rightarrow> installer" where
  "finish_install c gen im = im\<lparr>im_completed := (im_completed im)(c \<mapsto> gen)\<rparr>"

definition retrySuspended :: "install_env \<Rightarrow> string \<Rightarrow> installer \<Rightarrow> installer" where
  "retrySuspended env c im =
     (case im_suspended im c of
        None \<Rightarrow> im
      | Some sp \<Rightarrow>
          if sp_retry_at sp > iv_now env then im
          else snd (installEvent env
            \<lparr>gr_coordinate = c, gr_inbox_sk = sp_inbox_sk sp, gr_eck = sp_eck sp, gr_relays = sp_relays sp,
             gr_gen = Some (sp_gen sp), gr_source = Restore, gr_revoked = []\<rparr> im))"

text \<open>The boot's restore of one stored row.\<close>

definition restore_row :: "install_env \<Rightarrow> string \<Rightarrow> installer \<Rightarrow> installer" where
  "restore_row env c im =
     (case getEvent (iv_reveal env) c (im_store im) of
        None \<Rightarrow> im
      | Some row \<Rightarrow> snd (installEvent env
          \<lparr>gr_coordinate = c, gr_inbox_sk = ev_inbox_nsec row, gr_eck = iv_stored_eck env (ev_eck_json row),
           gr_relays = iv_stored_relays env (ev_config_relays row), gr_gen = Some (ev_gen row),
           gr_source = Restore, gr_revoked = []\<rparr> im))"

text \<open>The checks of \<open>handleCoordinatorWrap\<close> on a grant sealed by \<open>sender\<close>.\<close>

definition handle_grant ::
  "install_env \<Rightarrow> pubkey list \<Rightarrow> nat \<Rightarrow> pubkey \<Rightarrow> install_grant \<Rightarrow> installer \<Rightarrow> install_result \<times> installer" where
  "handle_grant env allowed maxEvents sender grant im =
     (case parseEventCoordinate (gr_coordinate grant) of
        Inl _ \<Rightarrow> (InstallThrew, im)
      | Inr p \<Rightarrow>
          if sender \<noteq> co_pubkey p then (Rejected, im)
          else if allowed \<noteq> [] \<and> co_pubkey p \<notin> set allowed then (Rejected, im)
          else if getEvent (iv_reveal env) (gr_coordinate grant) (im_store im) = None
            \<and> length (st_events (im_store im)) \<ge> maxEvents then (Rejected, im)
          else installEvent env (grant\<lparr>gr_source := FromGrant\<rparr>) im)"

section \<open>The purge of detached events\<close>

text \<open>The tables of the store among those \<open>purgeEventArtifacts\<close> clears.\<close>

definition purgeEventArtifacts :: "string \<Rightarrow> event_store \<Rightarrow> event_store" where
  "purgeEventArtifacts c s =
     s\<lparr>st_attendees := delete_where (\<lambda>r. ar_coordinate r = c) (st_attendees s),
       st_rate := delete_where (\<lambda>r. fst (fst r) = c) (st_rate s),
       st_invites := delete_where (\<lambda>u. iu_coordinate u = c) (st_invites s),
       st_commands := delete_where (\<lambda>w. fst (fst w) = c) (st_commands s),
       st_revocations := delete_where (\<lambda>w. fst (fst w) = c) (st_revocations s)\<rparr>"

fun purge_due :: "(string \<Rightarrow> bool) \<Rightarrow> (string \<times> int \<times> int) list \<Rightarrow> event_store \<Rightarrow> event_store" where
  "purge_due live [] s = s"
| "purge_due live ((c, _, _) # ts) s =
     purge_due live ts
       (if live c \<or> map_of (st_events s) c \<noteq> None then clearDetachedEvent c s
        else clearDetachedEvent c (purgeEventArtifacts c s))"

definition purgeDueDetachedEvents :: "int \<Rightarrow> installer \<Rightarrow> installer" where
  "purgeDueDetachedEvents nowSec im =
     im\<lparr>im_store := purge_due (\<lambda>c. im_events im c \<noteq> None) (dueDetachedEvents nowSec (im_store im)) (im_store im)\<rparr>"

section \<open>Runs\<close>

text \<open>The steps a daemon interleaves; \<open>Reboot\<close> loses what is in memory.\<close>

datatype install_op =
    OpGrant install_env "pubkey list" nat pubkey install_grant
  | OpFinish string nat
  | OpRetry install_env string
  | OpRestoreRow install_env string
  | OpReboot
  | OpDetachBegin install_env string "nat option"
  | OpDetachFinish install_env string
  | OpPurge int
  | OpOther "string \<Rightarrow> string" "store_op list"

fun install_step :: "install_op \<Rightarrow> installer \<Rightarrow> installer" where
  "install_step (OpGrant env allowed m sender grant) im = snd (handle_grant env allowed m sender grant im)"
| "install_step (OpFinish c gen) im = finish_install c gen im"
| "install_step (OpRetry env c) im = retrySuspended env c im"
| "install_step (OpRestoreRow env c) im = restore_row env c im"
| "install_step OpReboot im =
     im\<lparr>im_events := Map.empty, im_completed := Map.empty, im_suspended := Map.empty\<rparr>"
| "install_step (OpDetachBegin env c gen) im = detach_begin env c gen im"
| "install_step (OpDetachFinish env c) im = detach_finish env c im"
| "install_step (OpPurge nowSec) im = purgeDueDetachedEvents nowSec im"
| "install_step (OpOther protect ops) im = im\<lparr>im_store := run_store protect ops (im_store im)\<rparr>"

definition install_run :: "install_op list \<Rightarrow> installer \<Rightarrow> installer" where
  "install_run ops im = foldl (\<lambda>im p. install_step p im) im ops"

lemma install_run_simps [simp]:
  "install_run [] im = im"
  "install_run (p # ops) im = install_run ops (install_step p im)"
  by (simp_all add: install_run_def)

definition granted_gen :: "install_grant \<Rightarrow> nat" where
  "granted_gen grant = (case gr_gen grant of Some g \<Rightarrow> g | None \<Rightarrow> 0)"

section \<open>A detached event stays detached\<close>

text \<open>What the rest of the daemon holds about one coordinate.\<close>

definition install_view ::
  "string \<Rightarrow> installer \<Rightarrow> event_row option \<times> install_row option \<times> live_event option \<times> suspension option" where
  "install_view c im =
     (map_of (st_events (im_store im)) c, map_of (st_install (im_store im)) c, im_events im c, im_suspended im c)"

definition detached_at :: "string \<Rightarrow> nat \<Rightarrow> installer \<Rightarrow> bool" where
  "detached_at c g im \<longleftrightarrow>
     (\<exists>r. install_view c im = (None, Some r, None, None) \<and> in_tombstoned r \<and> g \<le> in_high_gen r)"

lemma map_of_update_other: "c \<noteq> c' \<Longrightarrow> map_of (AList.update c' v xs) c = map_of xs c"
  by (simp add: update_conv')

lemma seedRevocations_frame [simp]:
  "st_events (seedRevocations now c pks s) = st_events s"
  "st_install (seedRevocations now c pks s) = st_install s"
  by (induction pks arbitrary: s) (simp_all add: Let_def recordRevocation_def upsertAttendee_def)

lemma map_of_update_event:
  "map_of (st_events (update_event c' f s)) c = map_option (\<lambda>e. if c = c' then f e else e) (map_of (st_events s) c)"
  using map_of_update_values [of "\<lambda>k e. if k = c' then f e else e" "st_events s" c] by (simp add: update_event_def)

lemma retentionAnchorFor_frame [simp]:
  "st_install (snd (retentionAnchorFor env c' evt s)) = st_install s"
  "c \<noteq> c' \<Longrightarrow> map_of (st_events (snd (retentionAnchorFor env c' evt s))) c = map_of (st_events s) c"
  by (simp_all add: retentionAnchorFor_def setRetentionAnchor_def Let_def map_of_update_event option.map_ident)
    (simp add: update_event_def)

lemma view_commit:
  "c \<noteq> gr_coordinate grant \<Longrightarrow> install_view c (commit_install env grant p cfg config gen im) = install_view c im"
  by (simp add: install_view_def commit_install_def Let_def case_prod_unfold recordInstalledGen_def
      clearDetachedEvent_def upsertEvent_def map_of_update_other)

lemma view_suspend:
  "c \<noteq> gr_coordinate grant \<Longrightarrow> install_view c (suspendEvent env grant gen reason im) = install_view c im"
  by (simp add: install_view_def suspendEvent_def Let_def)

lemma view_detach:
  "c \<noteq> c' \<Longrightarrow> install_view c (detach_begin env c' gen im) = install_view c im"
  "c \<noteq> c' \<Longrightarrow> install_view c (detach_finish env c' im) = install_view c im"
  by (simp_all add: install_view_def detach_begin_def detach_finish_def Let_def tombstoneInstall_def deleteEvent_def
      recordDetachedEvent_def clearCommandProgressForEvent_def map_of_update_other map_of_delete_other)

lemma view_drop: "c \<noteq> c' \<Longrightarrow> install_view c (drop_suspension c' im) = install_view c im"
  by (simp add: install_view_def drop_suspension_def)

lemma view_install:
  "c \<noteq> gr_coordinate grant \<Longrightarrow> install_view c (snd (installEvent env grant im)) = install_view c im"
  by (auto simp: installEvent_def detachEvent_def Let_def view_commit view_suspend view_detach view_drop
      split: sum.split prod.split install_source.split verdict.split)

lemma detached_at_iff:
  "detached_at c g im \<longleftrightarrow>
     map_of (st_events (im_store im)) c = None \<and> im_events im c = None \<and> im_suspended im c = None
     \<and> isInstallTombstoned c (im_store im) \<and> g \<le> installHighGen c (im_store im)"
  if "map_of (st_install (im_store im)) c \<noteq> None"
  using that by (auto simp: detached_at_def install_view_def isInstallTombstoned_def installHighGen_def)

lemma detached_at_cong: "install_view c im' = install_view c im \<Longrightarrow> detached_at c g im' = detached_at c g im"
  by (simp add: detached_at_def)

lemma getEvent_None: "getEvent reveal c s = None \<longleftrightarrow> map_of (st_events s) c = None"
  by (simp add: getEvent_def)

lemma authorize_old:
  assumes "detached_at c g im" and "gr_coordinate grant = c" and "granted_gen grant \<le> g"
  shows "authorize_grant env grant config im = Reject"
proof -
  from assms(1) obtain r where r: "map_of (st_events (im_store im)) c = None"
    "map_of (st_install (im_store im)) c = Some r" "g \<le> in_high_gen r"
    by (auto simp: detached_at_def install_view_def)
  have "granted_gen grant \<le> in_high_gen r" using assms(3) r(3) by linarith
  then have "granted_gen grant < in_high_gen r \<or> granted_gen grant = in_high_gen r" by linarith
  then show ?thesis
    using r assms(2)
    by (auto simp: authorize_grant_def Let_def granted_gen_def installHighGen_def getEvent_None)
qed

lemma handle_grant_old:
  assumes "detached_at c g im" and "gr_coordinate grant = c" and "granted_gen grant \<le> g"
  shows "snd (handle_grant env allowed m sender grant im) = im"
    and "fst (handle_grant env allowed m sender grant im) \<in> {Rejected, InstallThrew}"
proof -
  have "authorize_grant env (grant\<lparr>gr_source := FromGrant\<rparr>) config im = Reject" for config
    using assms by (intro authorize_old) (simp_all add: granted_gen_def)
  then show "snd (handle_grant env allowed m sender grant im) = im"
    "fst (handle_grant env allowed m sender grant im) \<in> {Rejected, InstallThrew}"
    by (auto simp: handle_grant_def installEvent_def Let_def split: sum.split prod.split)
qed

text \<open>The statements of the other handlers: none installs \<open>c\<close> or writes a row for it.\<close>

definition leaves_install :: "string \<Rightarrow> store_op \<Rightarrow> bool" where
  "leaves_install c p =
     (case p of UpsertEvent e \<Rightarrow> ue_coordinate e \<noteq> c | RecordInstalled c' g \<Rightarrow> c' \<noteq> c | Tombstone c' g t \<Rightarrow> c' \<noteq> c | _ \<Rightarrow> True)"

lemmas event_row_writes =
  markRetentionExpired_def clearRetentionExpired_def setPendingRelays_def clearPendingRelays_def
  setRetentionAnchor_def

lemma store_step_row:
  assumes "leaves_install c p" and "map_of (st_events s) c = None"
  shows "map_of (st_events (store_step protect p s)) c = None"
proof -
  have "map_of (st_events (update_event c' f s)) c = None" for c' f
    using assms(2) by (simp add: map_of_update_event)
  then show ?thesis using assms
    by (cases p; simp add: store_step.simps leaves_install_def event_row_writes)
      (auto simp: store_defs map_of_update_other delete_conv' simp del: update_event_def)
qed

lemma store_step_install_other:
  "leaves_install c p \<Longrightarrow> map_of (st_install (store_step protect p s)) c = map_of (st_install s) c"
  by (cases p) (auto simp: store_step_install leaves_install_def map_of_update_other)

lemma run_store_install:
  "\<forall>p\<in>set ops. leaves_install c p \<Longrightarrow> map_of (st_events s) c = None \<Longrightarrow>
     map_of (st_events (run_store protect ops s)) c = None
     \<and> map_of (st_install (run_store protect ops s)) c = map_of (st_install s) c"
  by (induction ops arbitrary: s) (simp_all add: store_step_row store_step_install_other)

lemma purge_due_frame [simp]:
  "st_events (purge_due live ts s) = st_events s" "st_install (purge_due live ts s) = st_install s"
  by (induction live ts s rule: purge_due.induct)
    (simp_all add: clearDetachedEvent_def purgeEventArtifacts_def)

text \<open>A step that brings \<open>c\<close> no grant above generation \<open>g\<close>.\<close>

fun old_news :: "string \<Rightarrow> nat \<Rightarrow> install_op \<Rightarrow> bool" where
  "old_news c g (OpGrant env allowed m sender grant) = (gr_coordinate grant = c \<longrightarrow> granted_gen grant \<le> g)"
| "old_news c g (OpOther protect ops) = (\<forall>p\<in>set ops. leaves_install c p)"
| "old_news c g _ = True"

lemma stays_detached_step:
  assumes d: "detached_at c g im" and old: "old_news c g p"
  shows "detached_at c g (install_step p im)"
proof (cases p)
  case (OpGrant env allowed m sender grant)
  show ?thesis
  proof (cases "gr_coordinate grant = c")
    case True
    then show ?thesis using d old OpGrant handle_grant_old(1) [OF d] by simp
  next
    case False
    then have "install_view c (install_step p im) = install_view c im"
      using OpGrant view_install [of c "grant\<lparr>gr_source := FromGrant\<rparr>" env im]
      by (simp add: handle_grant_def split: sum.split)
    then show ?thesis using d detached_at_cong by blast
  qed
next
  case (OpRetry env c')
  have "install_view c (install_step p im) = install_view c im"
  proof (cases "c' = c")
    case True
    then show ?thesis using d OpRetry by (auto simp: retrySuspended_def detached_at_def install_view_def)
  qed (simp add: OpRetry retrySuspended_def view_install split: option.split)
  then show ?thesis using d detached_at_cong by blast
next
  case (OpRestoreRow env c')
  have "install_view c (install_step p im) = install_view c im"
  proof (cases "c' = c")
    case True
    then show ?thesis using d OpRestoreRow
      by (auto simp: restore_row_def detached_at_def install_view_def getEvent_def)
  qed (simp add: OpRestoreRow restore_row_def view_install split: option.split)
  then show ?thesis using d detached_at_cong by blast
next
  case (OpDetachBegin env c' gen)
  then show ?thesis using d
    by (cases "c' = c")
      (auto simp: detached_at_def install_view_def detach_begin_def tombstoneInstall_def raised_gen_def
        update_conv' Let_def)
next
  case (OpDetachFinish env c')
  then show ?thesis using d
    by (cases "c' = c")
      (auto simp: detached_at_def install_view_def detach_finish_def Let_def deleteEvent_def
        recordDetachedEvent_def clearCommandProgressForEvent_def delete_conv')
next
  case (OpOther protect ops)
  then show ?thesis using d old run_store_install [of ops c "im_store im" protect]
    by (auto simp: detached_at_def install_view_def)
qed (use d in \<open>auto simp: detached_at_def install_view_def finish_install_def purgeDueDetachedEvents_def\<close>)

lemma stays_detached_run:
  "detached_at c g im \<Longrightarrow> \<forall>p\<in>set ops. old_news c g p \<Longrightarrow> detached_at c g (install_run ops im)"
  by (induction ops arbitrary: im) (auto simp: stays_detached_step)

lemma detachEvent_detaches:
  assumes "im_suspended im c = None"
  shows "detached_at c (max gen (installHighGen c (im_store im))) (detachEvent env c (Some gen) im)"
  using assms
  by (auto simp: detached_at_def install_view_def detachEvent_def detach_begin_def detach_finish_def Let_def
      tombstoneInstall_def raised_gen_def installHighGen_def deleteEvent_def recordDetachedEvent_def
      clearCommandProgressForEvent_def delete_conv' update_conv' split: option.split)


section \<open>What an install leaves\<close>

text \<open>A grant above the high-water mark whose 31600 names this daemon, that generation and its inbox.\<close>

definition authorized :: "install_env \<Rightarrow> install_grant \<Rightarrow> event_coordinate \<Rightarrow> nat \<Rightarrow> installer \<Rightarrow> bool" where
  "authorized env grant p gen im \<longleftrightarrow>
     parseEventCoordinate (gr_coordinate grant) = Inr p \<and> gr_gen grant = Some gen
     \<and> installHighGen (gr_coordinate grant) (im_store im) < gen
     \<and> (case snd (fetched_config env p) of
          Inl _ \<Rightarrow> False
        | Inr cf \<Rightarrow> ec_coordinator cf = Some (iv_coord_pub env) \<and> ec_gen cf = Some (int gen)
                    \<and> iv_pubkey_of env (gr_inbox_sk grant) = ec_inbox cf)"

lemma authorized_installs:
  assumes "authorized env grant p gen im"
    and "getEvent (iv_reveal env) (gr_coordinate grant) (im_store im) \<noteq> None"
  shows "\<exists>cfg config. handle_grant env [] m (co_pubkey p) grant im =
    (Installed, commit_install env (grant\<lparr>gr_source := FromGrant\<rparr>) p cfg config gen im)"
proof -
  obtain cfg cf where f: "fetched_config env p = (cfg, Inr cf)"
    "ec_coordinator cf = Some (iv_coord_pub env)" "ec_gen cf = Some (int gen)"
    "iv_pubkey_of env (gr_inbox_sk grant) = ec_inbox cf"
    using assms(1) by (cases "fetched_config env p"; cases "snd (fetched_config env p)") (auto simp: authorized_def)
  have p: "parseEventCoordinate (gr_coordinate grant) = Inr p" using assms(1) by (simp add: authorized_def)
  then have "parseCoordinate (gr_coordinate grant) = Inr p"
    by (auto simp: parseEventCoordinate_def split: sum.splits if_splits)
  moreover have "authorize_grant env (grant\<lparr>gr_source := FromGrant\<rparr>) (Some cf) im = Proceed"
    using assms(1) f by (simp add: authorize_grant_def authorized_def)
  ultimately have "handle_grant env [] m (co_pubkey p) grant im =
      (Installed, commit_install env (grant\<lparr>gr_source := FromGrant\<rparr>) p cfg (Some cf) gen im)"
    using assms p f(1) by (simp add: handle_grant_def installEvent_def config_of_def authorized_def)
  then show ?thesis by blast
qed

lemma commit_install_view:
  assumes "gr_coordinate grant = c"
  shows "isInstallTombstoned c (im_store (commit_install env grant p cfg config gen im)) = False"
    and "installHighGen c (im_store (commit_install env grant p cfg config gen im)) = max (installHighGen c (im_store im)) gen"
    and "map_option es_gen (im_events (commit_install env grant p cfg config gen im) c) = Some gen"
    and "map_of (st_events (im_store (commit_install env grant p cfg config gen im))) c \<noteq> None"
    and "im_suspended (commit_install env grant p cfg config gen im) = im_suspended im"
proof -
  show "map_of (st_events (im_store (commit_install env grant p cfg config gen im))) c \<noteq> None"
    using assms
    by (auto simp: commit_install_def Let_def case_prod_unfold retentionAnchorFor_def setRetentionAnchor_def
        map_of_update_event recordInstalledGen_def clearDetachedEvent_def upsertEvent_def update_conv')
qed (use assms in \<open>simp_all add: commit_install_def Let_def case_prod_unfold isInstallTombstoned_def
       installHighGen_def recordInstalledGen_def clearDetachedEvent_def upsertEvent_def raised_gen_def update_conv'
       split: option.split\<close>)

lemma detach_finish_view:
  "getEvent reveal c (im_store (detach_finish env c im)) = None"
  "im_events (detach_finish env c im) c = None"
  "isInstallTombstoned c (im_store (detach_finish env c im)) = isInstallTombstoned c (im_store im)"
  "installHighGen c (im_store (detach_finish env c im)) = installHighGen c (im_store im)"
  by (simp_all add: detach_finish_def Let_def getEvent_def deleteEvent_def recordDetachedEvent_def
      clearCommandProgressForEvent_def delete_conv' isInstallTombstoned_def installHighGen_def)

lemma detach_begin_view:
  "isInstallTombstoned c (im_store (detach_begin env c gen im))"
  "installHighGen c (im_store (detach_begin env c gen im))
     = max (case gen of Some g \<Rightarrow> g | None \<Rightarrow> 0) (installHighGen c (im_store im))"
  "getEvent reveal c' (im_store (detach_begin env c gen im)) = getEvent reveal c' (im_store im)"
  by (auto simp: detach_begin_def Let_def tombstoneInstall_def isInstallTombstoned_def installHighGen_def
      raised_gen_def update_conv' getEvent_def split: option.split)

lemma regrant_rejected:
  assumes "getEvent (iv_reveal env) (gr_coordinate grant) (im_store im) = None"
    and "granted_gen grant \<le> installHighGen (gr_coordinate grant) (im_store im)"
  shows "fst (handle_grant env allowed m sender grant im) \<in> {Rejected, InstallThrew}"
    and "snd (handle_grant env allowed m sender grant im) = im"
proof -
  have "authorize_grant env (grant\<lparr>gr_source := FromGrant\<rparr>) config im = Reject" for config
    using assms by (auto simp: authorize_grant_def granted_gen_def Let_def)
  then show "fst (handle_grant env allowed m sender grant im) \<in> {Rejected, InstallThrew}"
    "snd (handle_grant env allowed m sender grant im) = im"
    by (auto simp: handle_grant_def installEvent_def Let_def split: sum.split prod.split)
qed

text \<open>
  (C32) A re-attach that races the detach it causes is lost. The organizer's new 31600 makes the daemon
  detach the old generation; while that detach waits for the handlers in flight, the fresh grant
  installs the new one; the detach then resumes and deletes the new row, key custody and live state
  without looking again. The event is not served, is not marked detached, and the same grant is refused
  from then on as already consumed.
\<close>

theorem detach_race_drops_reinstall:
  assumes grant: "authorized env grant p gen im" and c: "c = gr_coordinate grant"
    and row: "getEvent (iv_reveal env) c (im_store im) \<noteq> None" and old: "g < gen"
    and run: "im1 = detach_begin env' c (Some g) im"
      "handle_grant env [] m (co_pubkey p) grant im1 = (res, im2)"
      "im3 = detach_finish env' c (finish_install c gen im2)"
  shows "res = Installed \<and> map_option es_gen (im_events im2 c) = Some gen
    \<and> im_events im3 c = None \<and> getEvent (iv_reveal env) c (im_store im3) = None
    \<and> \<not> isInstallTombstoned c (im_store im3)
    \<and> (\<forall>env2 allowed m' sender. fst (handle_grant env2 allowed m' sender grant im3) \<in> {Rejected, InstallThrew}
         \<and> snd (handle_grant env2 allowed m' sender grant im3) = im3)"
proof -
  have auth: "authorized env grant p gen im1"
    using grant old unfolding authorized_def run(1) c by (simp add: detach_begin_view)
  have "getEvent (iv_reveal env) (gr_coordinate grant) (im_store im1) \<noteq> None"
    using row unfolding c run(1) by (simp add: detach_begin_view)
  from authorized_installs [OF auth this, of m] run(2) obtain cfg config where
    i2: "res = Installed" "im2 = commit_install env (grant\<lparr>gr_source := FromGrant\<rparr>) p cfg config gen im1" by auto
  define im2' where "im2' = finish_install c gen im2"
  have store: "im_store im2' = im_store im2" by (simp add: im2'_def finish_install_def)
  have v2: "isInstallTombstoned c (im_store im2') = False" "gen \<le> installHighGen c (im_store im2')"
    "map_option es_gen (im_events im2 c) = Some gen"
    unfolding store i2(2) using c by (simp_all add: commit_install_view)
  have v3: "getEvent reveal c (im_store im3) = None" "im_events im3 c = None" "\<not> isInstallTombstoned c (im_store im3)"
    "gen \<le> installHighGen c (im_store im3)" for reveal
    unfolding run(3) im2'_def [symmetric] using v2 by (simp_all add: detach_finish_view)
  have "granted_gen grant = gen" using grant by (simp add: authorized_def granted_gen_def)
  then have "granted_gen grant \<le> installHighGen (gr_coordinate grant) (im_store im3)" using v3(4) c by simp
  note again = regrant_rejected [OF _ this]
  have "getEvent reveal (gr_coordinate grant) (im_store im3) = None" for reveal using v3(1) c by simp
  note again = again [OF this]
  show ?thesis using v2(3) v3(1-3) i2(1) again by blast
qed

text \<open>
  A suspension outlives the install that replaces it. When an event is suspended at one generation
  and the organizer re-attaches it at a newer one, the grant installs but leaves the suspension on
  record; the next retry restores at the old generation, finds that the 31600 names the new one, and
  detaches the event that was just installed, durably, so that the same grant is refused afterwards.
\<close>

theorem stale_suspension_detaches_reinstall:
  assumes grant: "authorized env grant p gen im" and c: "c = gr_coordinate grant"
    and row: "getEvent (iv_reveal env) c (im_store im) \<noteq> None"
    and held: "im_suspended im c = Some sp" "sp_gen sp < gen" "sp_retry_at sp \<le> t"
    and run: "handle_grant env [] m (co_pubkey p) grant im = (res, im1)"
      "im2 = retrySuspended (env\<lparr>iv_now := t\<rparr>) c (finish_install c gen im1)"
  shows "res = Installed \<and> map_option es_gen (im_events im1 c) = Some gen
    \<and> im_events im2 c = None \<and> getEvent (iv_reveal env) c (im_store im2) = None
    \<and> isInstallTombstoned c (im_store im2)
    \<and> (\<forall>env2 allowed m' sender. fst (handle_grant env2 allowed m' sender grant im2) \<in> {Rejected, InstallThrew}
         \<and> snd (handle_grant env2 allowed m' sender grant im2) = im2)"
proof -
  from authorized_installs [OF grant row [unfolded c], of m] run(1) obtain cfg config where
    i1: "res = Installed" "im1 = commit_install env (grant\<lparr>gr_source := FromGrant\<rparr>) p cfg config gen im" by auto
  define im1' where "im1' = finish_install c gen im1"
  have store: "im_store im1' = im_store im1" "im_suspended im1' = im_suspended im1"
    by (simp_all add: im1'_def finish_install_def)
  have v1: "gen \<le> installHighGen c (im_store im1')" "map_option es_gen (im_events im1 c) = Some gen"
    "im_suspended im1' c = Some sp"
    unfolding store i1(2) using c held(1) by (simp_all add: commit_install_view)
  let ?env = "env\<lparr>iv_now := t\<rparr>"
  have "fetched_config ?env p = fetched_config env p"
    by (simp add: fetched_config_def Let_def split: option.split sum.split)
  then obtain cfg' cf where f: "fetched_config ?env p = (cfg', Inr cf)" "ec_gen cf = Some (int gen)"
    using grant by (cases "fetched_config env p"; cases "snd (fetched_config env p)") (auto simp: authorized_def)
  have "parseCoordinate c = Inr p"
    using grant c by (auto simp: authorized_def parseEventCoordinate_def split: sum.splits if_splits)
  then have i2: "im2 = detachEvent ?env c (Some (sp_gen sp)) (drop_suspension c im1')"
    unfolding run(2) im1'_def [symmetric] using v1(3) held f
    by (simp add: retrySuspended_def installEvent_def restore_gen_def)
  have drop: "im_store (drop_suspension c im1') = im_store im1'" by (simp add: drop_suspension_def)
  have v2: "getEvent reveal c (im_store im2) = None" "im_events im2 c = None" "isInstallTombstoned c (im_store im2)"
    "gen \<le> installHighGen c (im_store im2)" for reveal
    unfolding i2 detachEvent_def using v1(1)
    by (simp_all add: detach_finish_view detach_begin_view drop)
  have "granted_gen grant = gen" using grant by (simp add: authorized_def granted_gen_def)
  then have "granted_gen grant \<le> installHighGen (gr_coordinate grant) (im_store im2)" using v2(4) c by simp
  note again = regrant_rejected [OF _ this]
  have "getEvent reveal (gr_coordinate grant) (im_store im2) = None" for reveal using v2(1) c by simp
  note again = again [OF this]
  show ?thesis using v1(2) v2(1-3) i1(1) again by blast
qed

section \<open>What an install rests on and keeps\<close>

lemma seeded_kept:
  "kept_out c pk s \<Longrightarrow> kept_out c pk (seedRevocations now c' pks s)"
  by (induction pks arbitrary: s) (simp_all add: Let_def kept_out_revocation(1) kept_out_join_upsert)

lemma isRevoked_record: "isRevoked c pk (recordRevocation c pk now s)"
  by (simp add: isRevoked_def recordRevocation_def update_conv')

lemma seeded_out: "pk \<in> set pks \<Longrightarrow> kept_out c pk (seedRevocations now c pks s)"
proof (induction pks arbitrary: s)
  case (Cons q pks)
  let ?s1 = "recordRevocation c q now s"
  let ?s2 = "if row_status c q ?s1 = Some ''approved''
    then upsertAttendee (join_upsert c q ''revoked'' [] now) ?s1 else ?s1"
  have "kept_out c q ?s2" using isRevoked_record [of c q now s] by (simp add: kept_out_def row_status_join_upsert)
  then have "pk = q \<Longrightarrow> kept_out c pk (seedRevocations now c pks ?s2)" using seeded_kept by simp
  then show ?case using Cons by (auto simp: Let_def)
qed simp

lemma kept_out_anchor [simp]: "kept_out c pk (snd (retentionAnchorFor env c' evt s)) = kept_out c pk s"
  by (rule kept_out_cong) (simp_all add: retentionAnchorFor_def setRetentionAnchor_def update_event_def Let_def)

lemma commit_seeds:
  assumes "gr_source grant = FromGrant" and "pk \<in> set (gr_revoked grant)"
  shows "kept_out (gr_coordinate grant) pk (im_store (commit_install env grant p cfg config gen im))"
proof -
  have "gr_revoked grant \<noteq> []" "pk \<in> set (remdups (gr_revoked grant))" using assms(2) by auto
  then show ?thesis using assms(1) by (simp add: commit_install_def Let_def case_prod_unfold seeded_out del: set_remdups)
qed

lemma commit_keys:
  "\<exists>st. im_events (commit_install env grant p cfg config gen im) (gr_coordinate grant) = Some st
     \<and> set (gr_eck grant) \<subseteq> set (le_eck st)
     \<and> (\<forall>row. getEvent (iv_reveal env) (gr_coordinate grant) (im_store im) = Some row
          \<longrightarrow> set (iv_stored_eck env (ev_eck_json row)) \<subseteq> set (le_eck st))"
  by (auto simp: commit_install_def Let_def case_prod_unfold split: option.split)

lemma authorize_Proceed:
  assumes "authorize_grant env grant config im = Proceed"
  shows "\<exists>cf. config = Some cf \<and> ec_coordinator cf = Some (iv_coord_pub env) \<and> ec_gen cf = Some (int (granted_gen grant))
      \<and> iv_pubkey_of env (gr_inbox_sk grant) = ec_inbox cf"
    and "installHighGen (gr_coordinate grant) (im_store im) \<le> granted_gen grant"
    and "granted_gen grant = installHighGen (gr_coordinate grant) (im_store im) \<Longrightarrow>
      \<not> isInstallTombstoned (gr_coordinate grant) (im_store im)
      \<and> getEvent (iv_reveal env) (gr_coordinate grant) (im_store im) \<noteq> None
      \<and> im_completed im (gr_coordinate grant) \<noteq> Some (granted_gen grant)"
  using assms
  by (auto simp: authorize_grant_def Let_def granted_gen_def [symmetric] split: if_splits option.splits)

text \<open>
  (C11) An install rests on the organizer's authority and keeps what it must. A grant that installs an event
  was sealed by the owner of the coordinate; the newest 31600 at that address names this daemon, the
  grant's generation and its inbox; the generation is above every one installed or detached before, or
  resumes an unfinished install of the highest. The members the grant names as revoked have a
  revocation on record and no approved row, and the live event holds every key of the grant and every
  key the store held.
\<close>

theorem install_authorized:
  assumes "handle_grant env allowed m sender grant im = (Installed, im')"
  shows "(\<exists>p cf. parseCoordinate (gr_coordinate grant) = Inr p \<and> sender = co_pubkey p
        \<and> snd (fetched_config env p) = Inr cf \<and> ec_coordinator cf = Some (iv_coord_pub env)
        \<and> ec_gen cf = Some (int (granted_gen grant)) \<and> iv_pubkey_of env (gr_inbox_sk grant) = ec_inbox cf)
    \<and> (installHighGen (gr_coordinate grant) (im_store im) < granted_gen grant
       \<or> installHighGen (gr_coordinate grant) (im_store im) = granted_gen grant
         \<and> \<not> isInstallTombstoned (gr_coordinate grant) (im_store im)
         \<and> im_completed im (gr_coordinate grant) \<noteq> Some (granted_gen grant))
    \<and> (\<forall>pk\<in>set (gr_revoked grant). kept_out (gr_coordinate grant) pk (im_store im'))
    \<and> (\<exists>st. im_events im' (gr_coordinate grant) = Some st \<and> set (gr_eck grant) \<subseteq> set (le_eck st)
         \<and> (\<forall>row. getEvent (iv_reveal env) (gr_coordinate grant) (im_store im) = Some row
               \<longrightarrow> set (iv_stored_eck env (ev_eck_json row)) \<subseteq> set (le_eck st)))"
proof -
  let ?g = "grant\<lparr>gr_source := FromGrant\<rparr>"
  from assms obtain p where p: "parseCoordinate (gr_coordinate grant) = Inr p" "sender = co_pubkey p"
    and run: "installEvent env ?g im = (Installed, im')"
    by (auto simp: handle_grant_def parseEventCoordinate_def split: sum.splits if_splits)
  obtain cfg parsed where f: "fetched_config env p = (cfg, parsed)" by fastforce
  from run p f have auth: "authorize_grant env ?g (config_of parsed) im = Proceed"
    and im': "im' = commit_install env ?g p cfg (config_of parsed) (granted_gen grant) im"
    by (auto simp: installEvent_def granted_gen_def Let_def split: verdict.splits)
  obtain cf where "parsed = Inr cf" "ec_coordinator cf = Some (iv_coord_pub env)" "ec_gen cf = Some (int (granted_gen grant))"
    "iv_pubkey_of env (gr_inbox_sk grant) = ec_inbox cf"
    using authorize_Proceed(1) [OF auth] by (auto simp: config_of_def granted_gen_def split: sum.splits)
  moreover have "installHighGen (gr_coordinate grant) (im_store im) \<le> granted_gen grant"
    using authorize_Proceed(2) [OF auth] by (simp add: granted_gen_def)
  ultimately show ?thesis
    using p f authorize_Proceed(3) [OF auth] commit_seeds [of ?g] commit_keys [of env ?g p cfg "config_of parsed"]
    unfolding im' by (auto simp: granted_gen_def)
qed

section \<open>Concrete instances\<close>

definition organizer :: pubkey where "organizer = ec_eid sample_config"

definition meetup :: string where "meetup = makeCoordinate organizer ''meetup'' 31923"

definition meetup_place :: event_coordinate where
  "meetup_place = \<lparr>co_kind = 31923, co_pubkey = organizer, co_identifier = ''meetup''\<rparr>"

definition meetup_config :: minimal_event where
  "meetup_config = \<lparr>ev_id = ''c2'', ev_created = Some 100, me_kind = 31600, me_pubkey = organizer,
     me_tags = config_tags sample_config\<rparr>"

definition daemon_env :: install_env where
  "daemon_env = \<lparr>iv_coord_pub = the (ec_coordinator sample_config), iv_now = 5000, iv_fetched = [meetup_config],
     iv_urls = plain_urls, iv_error_text = (\<lambda>_. []),
     iv_pubkey_of = (\<lambda>_. ec_inbox sample_config), iv_sanitize = id, iv_default_relays = [],
     iv_delays = [5000, 30000], iv_config_json = (\<lambda>_. ''{}''), iv_stored_eck = (\<lambda>_. []),
     iv_stored_relays = (\<lambda>_. []), iv_stored_days = (\<lambda>_. None), iv_fp = id, iv_protect = id, iv_reveal = id\<rparr>"

definition meetup_grant :: "nat \<Rightarrow> install_grant" where
  "meetup_grant gen = \<lparr>gr_coordinate = meetup, gr_inbox_sk = ''sk'', gr_eck = [], gr_relays = [],
     gr_gen = Some gen, gr_source = FromGrant, gr_revoked = []\<rparr>"

definition first_install :: installer where
  "first_install = \<lparr>im_store = recordInstalledGen meetup 1 (upsertEvent id
       \<lparr>ue_coordinate = meetup, ue_configJson = ''{}'', ue_inboxNsec = ''sk'', ue_eckJson = ''[]'',
        ue_configRelays = ''[]'', ue_gen = Some 1, ue_now = 0\<rparr> empty_store),
     im_events = Map.empty, im_completed = Map.empty, im_suspended = Map.empty\<rparr>"

definition suspended_install :: installer where
  "suspended_install = suspendEvent daemon_env (meetup_grant 1) 1 ''newest 31600 not fetchable'' first_install"

lemma meetup_parses: "parseEventCoordinate meetup = Inr meetup_place"
proof -
  have "hex32 organizer" by (simp add: organizer_def sample_config_def hex32_def is_lower_hex_def list_all_iff)
  then have "parseCoordinate meetup = Inr meetup_place"
    by (simp add: parseCoordinate_Inr meetup_def meetup_place_def)
  then show ?thesis
    by (simp add: parseEventCoordinate_def meetup_place_def SPACE_KINDS_def KIND_CALENDAR_EVENT_def)
qed

lemma first_install_store:
  "installHighGen meetup (im_store first_install) = 1"
  "getEvent reveal meetup (im_store first_install) \<noteq> None"
  "im_store suspended_install = im_store first_install"
  by (simp_all add: first_install_def installHighGen_def recordInstalledGen_def clearDetachedEvent_def raised_gen_def
      upsertEvent_def empty_store_def getEvent_def update_conv' suspended_install_def suspendEvent_def Let_def)

lemma meetup_fetched: "snd (fetched_config daemon_env meetup_place) = Inr sample_config"
proof -
  have "parseEventConfig plain_urls organizer (config_tags sample_config) = Inr sample_config"
    using parse_built [OF sample_config_ok plain_urls_numbers] by (simp add: organizer_def)
  moreover have "list_ex (\<lambda>t. case t of a # b # _ \<Rightarrow> a = ''d'' \<and> b = ''meetup'' | _ \<Rightarrow> False) (config_tags sample_config)"
    by (simp add: config_tags_def sample_config_def)
  ultimately show ?thesis
    by (simp add: fetched_config_def daemon_env_def onlyAddressed_def meetup_config_def meetup_place_def
        KIND_EVENT_CONFIG_def Let_def)
qed

lemma meetup_authorized:
  "im_store im = im_store first_install \<Longrightarrow> authorized daemon_env (meetup_grant 2) meetup_place 2 im"
  by (simp add: authorized_def meetup_grant_def meetup_parses meetup_fetched first_install_store)
    (simp add: daemon_env_def sample_config_def)

lemma detach_race_drops_reinstall_witness:
  "let im1 = detach_begin daemon_env meetup (Some 1) first_install;
       im2 = snd (handle_grant daemon_env [] 50 organizer (meetup_grant 2) im1);
       im3 = detach_finish daemon_env meetup (finish_install meetup 2 im2)
   in map_option es_gen (im_events im2 meetup) = Some 2 \<and> im_events im3 meetup = None
      \<and> snd (handle_grant daemon_env [] 50 organizer (meetup_grant 2) im3) = im3"
  unfolding Let_def
  using detach_race_drops_reinstall [OF meetup_authorized [OF refl] _ _ _ refl prod.collapse [symmetric] refl,
      of meetup 1 50 daemon_env]
  by (simp add: meetup_grant_def first_install_store meetup_place_def)

lemma stale_suspension_detaches_reinstall_witness:
  "let im1 = snd (handle_grant daemon_env [] 50 organizer (meetup_grant 2) suspended_install);
       im2 = retrySuspended (daemon_env\<lparr>iv_now := 60000\<rparr>) meetup (finish_install meetup 2 im1)
   in map_option es_gen (im_events im1 meetup) = Some 2 \<and> im_events im2 meetup = None
      \<and> isInstallTombstoned meetup (im_store im2)"
proof -
  obtain sp where "im_suspended suspended_install meetup = Some sp" "sp_gen sp = 1" "sp_retry_at sp \<le> 60000"
    by (simp add: suspended_install_def suspendEvent_def Let_def meetup_grant_def first_install_def daemon_env_def)
  then show ?thesis unfolding Let_def
    using stale_suspension_detaches_reinstall [OF meetup_authorized [OF first_install_store(3)] _ _ _ _ _
        prod.collapse [symmetric] refl, of meetup sp 60000 50]
    by (simp add: meetup_grant_def first_install_store meetup_place_def)
qed


lemma install_authorized_witness:
  "kept_out meetup ''mallory''
     (im_store (snd (handle_grant daemon_env [] 50 organizer ((meetup_grant 2)\<lparr>gr_revoked := [''mallory'']\<rparr>) first_install)))"
proof -
  have "authorized daemon_env ((meetup_grant 2)\<lparr>gr_revoked := [''mallory'']\<rparr>) meetup_place 2 first_install"
    using meetup_authorized [OF refl]
    by (simp add: authorized_def meetup_grant_def split: sum.split) (auto split: sum.splits)
  from authorized_installs [OF this, of 50]
  have "handle_grant daemon_env [] 50 organizer ((meetup_grant 2)\<lparr>gr_revoked := [''mallory'']\<rparr>) first_install
    = (Installed, snd (handle_grant daemon_env [] 50 organizer ((meetup_grant 2)\<lparr>gr_revoked := [''mallory'']\<rparr>) first_install))"
    by (auto simp: meetup_grant_def first_install_store meetup_place_def)
  from install_authorized [OF this, THEN conjunct2, THEN conjunct2, THEN conjunct1]
  show ?thesis by (simp add: meetup_grant_def)
qed

end
