(* ===== verification/Cache.thy ===== *)
theory Cache
  imports Prelude
begin

text \<open>
  The app's persistent cache (\<open>packages/app/src/lib/cache/persist.ts\<close>): an IndexedDB store that
  every tab of a profile shares, and in each tab a synchronous in-memory mirror of it.

  A write lands only over an older entry (\<open>cacheSet\<close> in the mirror, \<open>put\<close> on disk); the boot
  read folds the disk into the mirror by the same rule (\<open>hydrateAppCache\<close>); a logout wipes the
  owner's entries and bumps a generation that fences off the asynchronous work in flight; old and
  excess entries are evicted by last use.

  A tab's disk accesses are asynchronous. They are queued in the order they are issued and each
  lands in a step of its own, interleaved with the other tabs in any order (IndexedDB runs the
  overlapping transactions of a tab in the order they were created). A write the browser refuses
  (quota) is a landing step of its own. The values cached are a type parameter; the serialized
  size of an entry is an argument, since it is \<open>JSON.stringify\<close> of the value.
\<close>

section \<open>Entries and keys\<close>

record 'd cache_entry =
  ce_at :: int
  ce_touched :: "int option"
  ce_data :: 'd

type_synonym 'd entries = "(string \<times> 'd cache_entry) list"

definition ANON :: string where
  "ANON = ''anon''"

definition SEP :: char where
  "SEP = CHR 0x1F"

definition compositeKey :: "string \<Rightarrow> string \<Rightarrow> string" where
  "compositeKey scope k = scope @ SEP # k"

text \<open>The keys filed under a scope: \<open>startsWith(`${scope}${SEP}`)\<close>.\<close>

definition under_scope :: "string \<Rightarrow> string \<Rightarrow> bool" where
  "under_scope scope ck = (take (length scope + 1) ck = scope @ [SEP])"

lemma under_scope_key: "under_scope scope (compositeKey scope k)"
  by (simp add: under_scope_def compositeKey_def)

lemma under_scope_iff:
  assumes "SEP \<notin> set scope" "SEP \<notin> set scope'"
  shows "under_scope scope (compositeKey scope' k) \<longleftrightarrow> scope' = scope"
proof
  assume "under_scope scope (compositeKey scope' k)"
  then have "scope @ SEP # drop (length scope + 1) (compositeKey scope' k) = scope' @ SEP # k"
    unfolding under_scope_def compositeKey_def
    by (metis append_take_drop_id append_Cons append_Nil append_assoc)
  then show "scope' = scope" using assms by (simp add: append_sep_inject)
qed (simp add: under_scope_key)

section \<open>State of a tab and of the disk\<close>

datatype 'd disk_request =
    PutEntry string "'d cache_entry"
  | DeleteKeys "string list"
  | DeleteByPrefix string
  | GetAll nat

text \<open>\<open>GetAll\<close> and the read that has come back carry the generation the hydration started in.\<close>

record 'd tab =
  mirror :: "'d entries"
  activeOwner :: "string option"
  generation :: nat
  hydrated :: bool
  requests :: "'d disk_request list"
  read_back :: "(nat \<times> 'd entries) option"

record 'd profile =
  disk :: "'d entries"
  tabs :: "nat \<Rightarrow> 'd tab"

definition fresh_tab :: "'d tab" where
  "fresh_tab = \<lparr>mirror = [], activeOwner = None, generation = 0, hydrated = False,
     requests = [], read_back = None\<rparr>"

text \<open>\<open>setActiveCacheOwner\<close>: leaving an account invalidates the work in flight.\<close>

definition setActiveCacheOwner :: "string option \<Rightarrow> 'd tab \<Rightarrow> 'd tab" where
  "setActiveCacheOwner pk t =
     t\<lparr>generation := (if activeOwner t \<noteq> None \<and> pk \<noteq> activeOwner t
                      then Suc (generation t) else generation t),
       activeOwner := pk\<rparr>"

definition resolveScope :: "string option \<Rightarrow> 'd tab \<Rightarrow> string option" where
  "resolveScope explicit t = (case explicit of Some s \<Rightarrow> Some s | None \<Rightarrow> activeOwner t)"

section \<open>Reads and writes\<close>

text \<open>A read touches the entry in the mirror, and only there.\<close>

definition cacheGet :: "int \<Rightarrow> string \<Rightarrow> string option \<Rightarrow> 'd tab \<Rightarrow> 'd cache_entry option \<times> 'd tab" where
  "cacheGet now k scope t =
     (case resolveScope scope t of
        None \<Rightarrow> (None, t)
      | Some s \<Rightarrow>
          (case map_of (mirror t) (compositeKey s k) of
             None \<Rightarrow> (None, t)
           | Some e \<Rightarrow>
               (let e' = e\<lparr>ce_touched := Some now\<rparr>
                in (Some e', t\<lparr>mirror := AList.update (compositeKey s k) e' (mirror t)\<rparr>))))"

definition enqueue_request :: "'d disk_request \<Rightarrow> 'd tab \<Rightarrow> 'd tab" where
  "enqueue_request r t = t\<lparr>requests := requests t @ [r]\<rparr>"

definition cacheSet ::
  "int \<Rightarrow> string \<Rightarrow> 'd \<Rightarrow> int option \<Rightarrow> string option \<Rightarrow> nat option \<Rightarrow> 'd tab \<Rightarrow> 'd tab" where
  "cacheSet now k d stamp scope guard_generation t =
     (if guard_generation \<noteq> None \<and> guard_generation \<noteq> Some (generation t) then t
      else case resolveScope scope t of
        None \<Rightarrow> t
      | Some s \<Rightarrow>
          (let ck = compositeKey s k;
               created = (case stamp of Some x \<Rightarrow> x | None \<Rightarrow> now);
               entry = \<lparr>ce_at = created, ce_touched = Some now, ce_data = d\<rparr>
           in case map_of (mirror t) ck of
                Some old \<Rightarrow>
                  (if created < ce_at old then t
                   else enqueue_request (PutEntry ck entry) (t\<lparr>mirror := AList.update ck entry (mirror t)\<rparr>))
              | None \<Rightarrow>
                  enqueue_request (PutEntry ck entry) (t\<lparr>mirror := AList.update ck entry (mirror t)\<rparr>)))"

definition drop_keys :: "string list \<Rightarrow> 'd entries \<Rightarrow> 'd entries" where
  "drop_keys ks es = filter (\<lambda>(k, _). k \<notin> set ks) es"

definition cacheDelete :: "string \<Rightarrow> string option \<Rightarrow> 'd tab \<Rightarrow> 'd tab" where
  "cacheDelete k scope t =
     (case resolveScope scope t of
        None \<Rightarrow> t
      | Some s \<Rightarrow>
          enqueue_request (DeleteKeys [compositeKey s k])
            (t\<lparr>mirror := drop_keys [compositeKey s k] (mirror t)\<rparr>))"

text \<open>\<open>clearOwnerCache\<close>: the generation first, then the mirror, then the disk by key range.\<close>

definition clearOwnerCache :: "string \<Rightarrow> 'd tab \<Rightarrow> 'd tab" where
  "clearOwnerCache owner t =
     enqueue_request (DeleteByPrefix owner)
       (t\<lparr>generation := Suc (generation t),
          mirror := filter (\<lambda>(k, _). \<not> under_scope owner k) (mirror t)\<rparr>)"

section \<open>Eviction\<close>

definition MAX_CACHE_ENTRIES :: nat where
  "MAX_CACHE_ENTRIES = 4000"

definition MAX_CACHE_BYTES :: nat where
  "MAX_CACHE_BYTES = 8 * 1024 * 1024"

definition touched_or_zero :: "'d cache_entry \<Rightarrow> int" where
  "touched_or_zero e = (case ce_touched e of Some x \<Rightarrow> x | None \<Rightarrow> 0)"

definition approxBytes :: "('d \<Rightarrow> nat) \<Rightarrow> 'd cache_entry \<Rightarrow> nat" where
  "approxBytes json_length e = json_length (ce_data e) + 96"

definition recountMirrorBytes :: "('d \<Rightarrow> nat) \<Rightarrow> 'd entries \<Rightarrow> nat" where
  "recountMirrorBytes json_length es = sum_list (map (\<lambda>(_, e). approxBytes json_length e) es)"

text \<open>The loop over the entries by age: the keys evicted until both budgets hold.\<close>

fun evict_loop :: "('d \<Rightarrow> nat) \<Rightarrow> nat \<Rightarrow> nat \<Rightarrow> nat \<Rightarrow> nat \<Rightarrow> 'd entries \<Rightarrow> string list" where
  "evict_loop json_length max_entries max_bytes n bytes [] = []"
| "evict_loop json_length max_entries max_bytes n bytes ((k, e) # byAge) =
     (if n \<le> max_entries \<and> bytes \<le> max_bytes then []
      else k # evict_loop json_length max_entries max_bytes (n - 1)
                 (bytes - approxBytes json_length e) byAge)"

definition byAge :: "'d entries \<Rightarrow> 'd entries" where
  "byAge es = sort_by (\<lambda>a b. touched_or_zero (snd a) \<le> touched_or_zero (snd b)) es"

definition evicted_keys :: "('d \<Rightarrow> nat) \<Rightarrow> nat \<Rightarrow> nat \<Rightarrow> 'd entries \<Rightarrow> string list" where
  "evicted_keys json_length max_entries max_bytes es =
     (let bytes = recountMirrorBytes json_length es
      in if length es \<le> max_entries \<and> bytes \<le> max_bytes then []
         else evict_loop json_length max_entries max_bytes (length es) bytes (byAge es))"

definition drop_and_mirror :: "string list \<Rightarrow> 'd tab \<Rightarrow> 'd tab" where
  "drop_and_mirror ks t =
     (let t' = t\<lparr>mirror := drop_keys ks (mirror t)\<rparr>
      in if ks = [] then t' else enqueue_request (DeleteKeys ks) t')"

definition enforceCacheBudget :: "('d \<Rightarrow> nat) \<Rightarrow> nat \<Rightarrow> nat \<Rightarrow> 'd tab \<Rightarrow> 'd tab" where
  "enforceCacheBudget json_length max_entries max_bytes t =
     drop_and_mirror (evicted_keys json_length max_entries max_bytes (mirror t)) t"

text \<open>
  A write refused for lack of space evicts; when nothing exceeds the budget, the oldest tenth
  (\<open>Math.ceil(n / 10)\<close>) goes.
\<close>

definition quota_eviction :: "('d \<Rightarrow> nat) \<Rightarrow> nat \<Rightarrow> nat \<Rightarrow> 'd tab \<Rightarrow> 'd tab" where
  "quota_eviction json_length max_entries max_bytes t =
     (if evicted_keys json_length max_entries max_bytes (mirror t) \<noteq> []
      then enforceCacheBudget json_length max_entries max_bytes t
      else drop_and_mirror (map fst (take ((length (mirror t) + 9) div 10) (byAge (mirror t)))) t)"

text \<open>
  \<open>pruneCache\<close> drops what was not used for 30 days and, after awaiting the disk, enforces the
  budget; the two halves are steps of their own.
\<close>

definition pruneCache :: "int \<Rightarrow> 'd tab \<Rightarrow> 'd tab" where
  "pruneCache now t =
     (let old = map fst (filter (\<lambda>(_, e).
            (case ce_touched e of Some x \<Rightarrow> x | None \<Rightarrow> now) < now - 30 * 24 * 60 * 60) (mirror t))
      in enqueue_request (DeleteKeys old) (t\<lparr>mirror := drop_keys old (mirror t)\<rparr>))"

section \<open>Hydration\<close>

text \<open>The boot read is issued once, under the generation of that moment.\<close>

definition hydrateAppCache :: "'d tab \<Rightarrow> 'd tab" where
  "hydrateAppCache t =
     (if hydrated t then t
      else enqueue_request (GetAll (generation t)) (t\<lparr>hydrated := True\<rparr>))"

text \<open>
  Folding what came back: after a wipe only the public entries, a missing eviction clock is set
  to now, and an entry the app has written meanwhile wins unless it is older.
\<close>

definition fold_entry :: "bool \<Rightarrow> int \<Rightarrow> string \<times> 'd cache_entry \<Rightarrow> 'd entries \<Rightarrow> 'd entries" where
  "fold_entry wiped now kv m =
     (let (k, v) = kv
      in if wiped \<and> \<not> under_scope ANON k then m
         else let v' = (if ce_touched v = None then v\<lparr>ce_touched := Some now\<rparr> else v)
              in case map_of m k of
                   Some live \<Rightarrow> if ce_at v' \<le> ce_at live then m else AList.update k v' m
                 | None \<Rightarrow> AList.update k v' m)"

definition fold_read :: "bool \<Rightarrow> int \<Rightarrow> 'd entries \<Rightarrow> 'd entries \<Rightarrow> 'd entries" where
  "fold_read wiped now all m = foldl (\<lambda>m kv. fold_entry wiped now kv m) m all"

definition fold_hydration :: "int \<Rightarrow> 'd tab \<Rightarrow> 'd tab" where
  "fold_hydration now t =
     (case read_back t of
        None \<Rightarrow> t
      | Some (started, all) \<Rightarrow>
          t\<lparr>mirror := fold_read (generation t \<noteq> started) now all (mirror t), read_back := None\<rparr>)"

section \<open>The disk\<close>

text \<open>The versioned put compares inside its transaction.\<close>

definition put_disk :: "string \<Rightarrow> 'd cache_entry \<Rightarrow> 'd entries \<Rightarrow> 'd entries" where
  "put_disk ck entry d =
     (case map_of d ck of
        Some old \<Rightarrow> if ce_at old \<le> ce_at entry then AList.update ck entry d else d
      | None \<Rightarrow> AList.update ck entry d)"

definition prefix_delete :: "string \<Rightarrow> 'd entries \<Rightarrow> 'd entries" where
  "prefix_delete owner d = filter (\<lambda>(k, _). \<not> under_scope owner k) d"

definition set_tab :: "nat \<Rightarrow> 'd tab \<Rightarrow> 'd profile \<Rightarrow> 'd profile" where
  "set_tab i t w = w\<lparr>tabs := (tabs w)(i := t)\<rparr>"

definition land :: "nat \<Rightarrow> 'd profile \<Rightarrow> 'd profile" where
  "land i w =
     (case requests (tabs w i) of
        [] \<Rightarrow> w
      | r # rs \<Rightarrow>
          (let w' = set_tab i (tabs w i\<lparr>requests := rs\<rparr>) w
           in case r of
                PutEntry ck e \<Rightarrow> w'\<lparr>disk := put_disk ck e (disk w)\<rparr>
              | DeleteKeys ks \<Rightarrow> w'\<lparr>disk := drop_keys ks (disk w)\<rparr>
              | DeleteByPrefix owner \<Rightarrow> w'\<lparr>disk := prefix_delete owner (disk w)\<rparr>
              | GetAll g \<Rightarrow> set_tab i (tabs w' i\<lparr>read_back := Some (g, disk w)\<rparr>) w'))"

section \<open>Runs of the profile\<close>

datatype 'd cache_op =
    SetActive "string option"
  | Get int string "string option"
  | CSet int string 'd "int option" "string option" "nat option"
  | CDelete string "string option"
  | Logout string
  | Hydrate
  | FoldHydration int
  | Budget
  | QuotaHit
  | Prune int

fun tab_step :: "('d \<Rightarrow> nat) \<Rightarrow> 'd cache_op \<Rightarrow> 'd tab \<Rightarrow> 'd tab" where
  "tab_step jl (SetActive pk) t = setActiveCacheOwner pk t"
| "tab_step jl (Get now k scope) t = snd (cacheGet now k scope t)"
| "tab_step jl (CSet now k d stamp scope g) t = cacheSet now k d stamp scope g t"
| "tab_step jl (CDelete k scope) t = cacheDelete k scope t"
| "tab_step jl (Logout owner) t = clearOwnerCache owner t"
| "tab_step jl Hydrate t = hydrateAppCache t"
| "tab_step jl (FoldHydration now) t = fold_hydration now t"
| "tab_step jl Budget t = enforceCacheBudget jl MAX_CACHE_ENTRIES MAX_CACHE_BYTES t"
| "tab_step jl QuotaHit t = quota_eviction jl MAX_CACHE_ENTRIES MAX_CACHE_BYTES t"
| "tab_step jl (Prune now) t = pruneCache now t"

datatype 'd profile_op = InTab nat "'d cache_op" | Land nat | LandFails nat

fun profile_step :: "('d \<Rightarrow> nat) \<Rightarrow> 'd profile_op \<Rightarrow> 'd profile \<Rightarrow> 'd profile" where
  "profile_step jl (InTab i p) w = set_tab i (tab_step jl p (tabs w i)) w"
| "profile_step jl (Land i) w = land i w"
| "profile_step jl (LandFails i) w = set_tab i (tabs w i\<lparr>requests := tl (requests (tabs w i))\<rparr>) w"

definition run_profile :: "('d \<Rightarrow> nat) \<Rightarrow> 'd profile_op list \<Rightarrow> 'd profile \<Rightarrow> 'd profile" where
  "run_profile jl ops w = foldl (\<lambda>w p. profile_step jl p w) w ops"

lemma run_profile_simps [simp]:
  "run_profile jl [] w = w"
  "run_profile jl (p # ops) w = run_profile jl ops (profile_step jl p w)"
  by (simp_all add: run_profile_def)

section \<open>Latest wins\<close>

definition stamp_le :: "'d cache_entry option \<Rightarrow> 'd cache_entry option \<Rightarrow> bool" where
  "stamp_le a b = (case a of None \<Rightarrow> True
                   | Some x \<Rightarrow> (case b of None \<Rightarrow> False | Some y \<Rightarrow> ce_at x \<le> ce_at y))"

lemma stamp_le_None [simp]: "stamp_le None b"
  by (simp add: stamp_le_def)

lemma stamp_le_Some [simp]: "stamp_le (Some x) b \<longleftrightarrow> (\<exists>y. b = Some y \<and> ce_at x \<le> ce_at y)"
  by (cases b) (auto simp: stamp_le_def)

lemma stamp_le_refl [simp]: "stamp_le a a"
  by (cases a) (auto simp: stamp_le_def)

lemma stamp_le_trans: "stamp_le a b \<Longrightarrow> stamp_le b c \<Longrightarrow> stamp_le a c"
  by (cases a; cases b; cases c) (auto simp: stamp_le_def)

definition entries_le :: "'d entries \<Rightarrow> 'd entries \<Rightarrow> bool" where
  "entries_le m m' \<longleftrightarrow> (\<forall>ck. stamp_le (map_of m ck) (map_of m' ck))"

lemma entries_le_refl [simp]: "entries_le m m"
  by (simp add: entries_le_def)

lemma entries_le_trans: "entries_le a b \<Longrightarrow> entries_le b c \<Longrightarrow> entries_le a c"
  unfolding entries_le_def using stamp_le_trans by blast

lemma entries_le_update:
  "(\<And>old. map_of m ck = Some old \<Longrightarrow> ce_at old \<le> ce_at e) \<Longrightarrow> entries_le m (AList.update ck e m)"
  unfolding entries_le_def update_conv'
  by (auto split: if_splits) (metis stamp_le_Some stamp_le_None option.exhaust)

lemma entries_le_put_disk: "entries_le d (put_disk ck e d)"
  by (auto simp: put_disk_def split: option.split intro!: entries_le_update)

lemma put_disk_holds: "stamp_le (Some e) (map_of (put_disk ck e d) ck)"
  by (auto simp: put_disk_def update_conv' split: option.split)

lemma entries_le_fold_entry: "entries_le m (fold_entry wiped now kv m)"
  by (auto simp: fold_entry_def Let_def split: prod.split option.split intro!: entries_le_update)

lemma fold_read_simps [simp]:
  "fold_read wiped now [] m = m"
  "fold_read wiped now (kv # all) m = fold_read wiped now all (fold_entry wiped now kv m)"
  by (simp_all add: fold_read_def)

lemma entries_le_fold_read: "entries_le m (fold_read wiped now all m)"
  by (induction all arbitrary: m) (auto intro: entries_le_trans entries_le_fold_entry)

lemma entries_le_tab:
  assumes "entries_le (mirror t) m"
  shows "entries_le (mirror t) (mirror (t\<lparr>mirror := m\<rparr>))"
  using assms by simp

text \<open>What a tab does, short of deleting, only raises the stamps of its mirror.\<close>

fun deletes :: "'d cache_op \<Rightarrow> bool" where
  "deletes (CDelete _ _) = True"
| "deletes (Logout _) = True"
| "deletes Budget = True"
| "deletes QuotaHit = True"
| "deletes (Prune _) = True"
| "deletes _ = False"

lemma mirror_enqueue [simp]: "mirror (enqueue_request r t) = mirror t"
  by (simp add: enqueue_request_def)

lemma entries_le_cacheGet: "entries_le (mirror t) (mirror (snd (cacheGet now k scope t)))"
  by (auto simp: cacheGet_def Let_def split: option.split intro!: entries_le_update)

lemma entries_le_cacheSet: "entries_le (mirror t) (mirror (cacheSet now k d stamp scope g t))"
  by (auto simp: cacheSet_def Let_def split: option.split intro!: entries_le_update)

lemma entries_le_tab_step: "\<not> deletes p \<Longrightarrow> entries_le (mirror t) (mirror (tab_step jl p t))"
  by (cases p) (auto simp: setActiveCacheOwner_def hydrateAppCache_def fold_hydration_def
      entries_le_cacheGet entries_le_cacheSet entries_le_fold_read split: option.split)

fun removal :: "'d disk_request \<Rightarrow> bool" where
  "removal (DeleteKeys _) = True"
| "removal (DeleteByPrefix _) = True"
| "removal _ = False"

definition removes_nothing :: "'d tab \<Rightarrow> bool" where
  "removes_nothing t \<longleftrightarrow> (\<forall>r\<in>set (requests t). \<not> removal r)"

definition no_removals :: "'d profile \<Rightarrow> bool" where
  "no_removals w \<longleftrightarrow> (\<forall>i. removes_nothing (tabs w i))"

fun only_writes :: "'d profile_op \<Rightarrow> bool" where
  "only_writes (InTab _ p) = (\<not> deletes p)"
| "only_writes _ = True"

lemma removes_nothing_step: "removes_nothing t \<Longrightarrow> \<not> deletes p \<Longrightarrow> removes_nothing (tab_step jl p t)"
  by (cases p) (auto simp: removes_nothing_def setActiveCacheOwner_def hydrateAppCache_def
      fold_hydration_def cacheGet_def cacheSet_def enqueue_request_def Let_def split: option.splits)

lemma set_tab_simps [simp]:
  "tabs (set_tab i t w) j = (if j = i then t else tabs w j)" "disk (set_tab i t w) = disk w"
  by (simp_all add: set_tab_def)

lemma land_Nil: "requests (tabs w i) = [] \<Longrightarrow> land i w = w"
  by (simp add: land_def)

lemma land_tab:
  "tabs (land i w) j =
     (if j = i then
        (case requests (tabs w i) of
           [] \<Rightarrow> tabs w i
         | GetAll g # rs \<Rightarrow> tabs w i\<lparr>requests := rs, read_back := Some (g, disk w)\<rparr>
         | _ # rs \<Rightarrow> tabs w i\<lparr>requests := rs\<rparr>)
      else tabs w j)"
  by (auto simp: land_def Let_def split: list.split disk_request.split)

lemma land_disk:
  "disk (land i w) =
     (case requests (tabs w i) of
        PutEntry ck e # _ \<Rightarrow> put_disk ck e (disk w)
      | DeleteKeys ks # _ \<Rightarrow> drop_keys ks (disk w)
      | DeleteByPrefix owner # _ \<Rightarrow> prefix_delete owner (disk w)
      | _ \<Rightarrow> disk w)"
  by (auto simp: land_def Let_def split: list.split disk_request.split)

lemma land_mirror [simp]: "mirror (tabs (land i w) j) = mirror (tabs w j)"
  by (auto simp: land_tab split: list.split disk_request.split)

lemma land_requests: "requests (tabs (land i w) j)
    = (if j = i then tl (requests (tabs w i)) else requests (tabs w j))"
  by (auto simp: land_tab split: list.split disk_request.split)

lemma in_set_tlD: "x \<in> set (tl xs) \<Longrightarrow> x \<in> set xs"
  by (cases xs) auto

lemma only_writes_step:
  assumes "no_removals w" "only_writes p"
  shows "no_removals (profile_step jl p w)
    \<and> (\<forall>i. entries_le (mirror (tabs w i)) (mirror (tabs (profile_step jl p w) i)))
    \<and> entries_le (disk w) (disk (profile_step jl p w))"
proof (cases p)
  case (InTab i q)
  then show ?thesis using assms
    by (auto simp: no_removals_def removes_nothing_step entries_le_tab_step)
next
  case (Land i)
  have head: "requests (tabs w i) = r # rs \<Longrightarrow> \<not> removal r" for r rs
    using assms(1) unfolding no_removals_def removes_nothing_def by (metis list.set_intros(1))
  have "no_removals (land i w)"
    using assms(1) unfolding no_removals_def removes_nothing_def
    by (auto simp: land_requests dest: in_set_tlD)
  moreover have "entries_le (disk w) (disk (land i w))"
    using head by (auto simp: land_disk entries_le_put_disk split: list.split disk_request.split)
  ultimately show ?thesis using Land by simp
next
  case (LandFails i)
  then show ?thesis using assms
    by (auto simp: no_removals_def removes_nothing_def dest: in_set_tlD)
qed

text \<open>The writes that reach the disk in a run.\<close>

definition landing :: "'d profile_op \<Rightarrow> 'd profile \<Rightarrow> (string \<times> 'd cache_entry) list" where
  "landing p w =
     (case p of
        Land i \<Rightarrow> (case requests (tabs w i) of PutEntry ck e # _ \<Rightarrow> [(ck, e)] | _ \<Rightarrow> [])
      | _ \<Rightarrow> [])"

fun landed :: "('d \<Rightarrow> nat) \<Rightarrow> 'd profile_op list \<Rightarrow> 'd profile \<Rightarrow> (string \<times> 'd cache_entry) list" where
  "landed jl [] w = []"
| "landed jl (p # ops) w = landing p w @ landed jl ops (profile_step jl p w)"

lemma landing_holds:
  "(ck, e) \<in> set (landing p w) \<Longrightarrow> stamp_le (Some e) (map_of (disk (profile_step jl p w)) ck)"
  by (auto simp: landing_def land_disk put_disk_holds [unfolded stamp_le_Some]
      split: profile_op.splits list.splits disk_request.splits)

lemma only_writes_run:
  assumes "no_removals w" "list_all only_writes ops"
  shows "no_removals (run_profile jl ops w)
    \<and> (\<forall>i. entries_le (mirror (tabs w i)) (mirror (tabs (run_profile jl ops w) i)))
    \<and> entries_le (disk w) (disk (run_profile jl ops w))
    \<and> (\<forall>(ck, e)\<in>set (landed jl ops w). stamp_le (Some e) (map_of (disk (run_profile jl ops w)) ck))"
  using assms
proof (induction ops arbitrary: w)
  case (Cons p ops)
  let ?w = "profile_step jl p w"
  from Cons.prems have step: "no_removals ?w"
      "\<And>i. entries_le (mirror (tabs w i)) (mirror (tabs ?w i))" "entries_le (disk w) (disk ?w)"
    using only_writes_step [of w p jl] by auto
  have later: "no_removals (run_profile jl ops ?w)"
      "\<And>i. entries_le (mirror (tabs ?w i)) (mirror (tabs (run_profile jl ops ?w) i))"
      "entries_le (disk ?w) (disk (run_profile jl ops ?w))"
      "\<forall>(ck, e)\<in>set (landed jl ops ?w). stamp_le (Some e) (map_of (disk (run_profile jl ops ?w)) ck)"
    using Cons.IH [OF step(1)] Cons.prems(2) by auto
  have "stamp_le (Some e) (map_of (disk (run_profile jl ops ?w)) ck)" if "(ck, e) \<in> set (landing p w)" for ck e
    using landing_holds [OF that, of jl] later(3) unfolding entries_le_def by (meson stamp_le_trans)
  moreover have "entries_le (mirror (tabs w i)) (mirror (tabs (run_profile jl ops ?w) i))" for i
    using entries_le_trans [OF step(2) later(2)] .
  ultimately show ?case using later entries_le_trans [OF step(3) later(3)] by fastforce
qed simp

text \<open>
  (C24) The cache is latest-wins everywhere: whatever the tabs of a profile read, write, hydrate and
  land, in any interleaving and with any writes refused, no entry of any mirror or of the disk is
  replaced by an older one, and every write that reached the disk is still there or was
  superseded by one at least as new. Only a delete removes an entry.
\<close>

theorem cache_latest_wins:
  assumes "no_removals w" "list_all only_writes ops"
  shows "(\<forall>i ck x. map_of (mirror (tabs w i)) ck = Some x \<longrightarrow>
            (\<exists>y. map_of (mirror (tabs (run_profile jl ops w) i)) ck = Some y \<and> ce_at x \<le> ce_at y))
    \<and> (\<forall>ck x. map_of (disk w) ck = Some x \<or> (ck, x) \<in> set (landed jl ops w) \<longrightarrow>
            (\<exists>y. map_of (disk (run_profile jl ops w)) ck = Some y \<and> ce_at x \<le> ce_at y))"
proof -
  note run = only_writes_run [OF assms, of jl]
  have "map_of (mirror (tabs w i)) ck = Some x \<Longrightarrow>
      stamp_le (Some x) (map_of (mirror (tabs (run_profile jl ops w) i)) ck)" for i ck x
    using run unfolding entries_le_def by metis
  moreover have "map_of (disk w) ck = Some x \<Longrightarrow>
      stamp_le (Some x) (map_of (disk (run_profile jl ops w)) ck)" for ck x
    using run unfolding entries_le_def by metis
  ultimately show ?thesis using run by fastforce
qed

section \<open>Logout\<close>

definition clean :: "string \<Rightarrow> 'd entries \<Rightarrow> bool" where
  "clean owner es \<longleftrightarrow> (\<forall>kv\<in>set es. \<not> under_scope owner (fst kv))"

fun request_clean :: "string \<Rightarrow> 'd disk_request \<Rightarrow> bool" where
  "request_clean owner (PutEntry ck _) = (\<not> under_scope owner ck)"
| "request_clean owner _ = True"

definition away :: "string \<Rightarrow> string option \<Rightarrow> bool" where
  "away owner pk \<longleftrightarrow> pk \<noteq> Some owner \<and> (\<forall>s. pk = Some s \<longrightarrow> SEP \<notin> set s)"

text \<open>
  A step that files nothing under the owner: a write names another scope or none, or carries a
  guard captured before the logout; nobody logs in as the owner.
\<close>

fun fenced :: "string \<Rightarrow> nat option \<Rightarrow> 'd cache_op \<Rightarrow> bool" where
  "fenced owner stale (CSet _ _ _ _ scope g) =
     (away owner scope \<or> (\<exists>g' s. g = Some g' \<and> stale = Some s \<and> g' \<le> s))"
| "fenced owner stale (SetActive pk) = away owner pk"
| "fenced owner stale _ = True"

lemma clean_simps [simp]:
  "clean owner []" "clean owner (kv # es) \<longleftrightarrow> \<not> under_scope owner (fst kv) \<and> clean owner es"
  by (auto simp: clean_def)

lemma clean_filter: "clean owner es \<Longrightarrow> clean owner (filter P es)"
  by (auto simp: clean_def)

lemma clean_update: "clean owner es \<Longrightarrow> \<not> under_scope owner ck \<Longrightarrow> clean owner (AList.update ck e es)"
  by (induction es) auto

lemma clean_update_present: "clean owner es \<Longrightarrow> map_of es ck = Some e \<Longrightarrow> clean owner (AList.update ck e' es)"
  by (rule clean_update) (auto simp: clean_def dest!: map_of_SomeD)

lemma clean_drop_keys: "clean owner es \<Longrightarrow> clean owner (drop_keys ks es)"
  by (simp add: drop_keys_def clean_filter)

lemma clean_prefix_delete [simp]: "clean owner (prefix_delete owner es)"
  by (auto simp: clean_def prefix_delete_def)

lemma clean_put_disk: "clean owner es \<Longrightarrow> \<not> under_scope owner ck \<Longrightarrow> clean owner (put_disk ck e es)"
  by (simp add: put_disk_def clean_update split: option.split)

lemma clean_fold_entry:
  "clean owner m \<Longrightarrow> \<not> under_scope owner (fst kv) \<or> wiped \<and> \<not> under_scope ANON (fst kv) \<Longrightarrow>
     clean owner (fold_entry wiped now kv m)"
  by (auto simp: fold_entry_def Let_def clean_update split: prod.split option.split)

lemma clean_fold_read:
  "clean owner m \<Longrightarrow>
   \<forall>kv\<in>set all. \<not> under_scope owner (fst kv) \<or> wiped \<and> \<not> under_scope ANON (fst kv) \<Longrightarrow>
     clean owner (fold_read wiped now all m)"
  by (induction all arbitrary: m) (auto simp: clean_fold_entry)

lemma under_scope_unique:
  assumes "SEP \<notin> set a" "SEP \<notin> set b" "under_scope a k" "under_scope b k"
  shows "a = b"
proof -
  have "k = a @ SEP # drop (length a + 1) k" "k = b @ SEP # drop (length b + 1) k"
    using assms(3,4) unfolding under_scope_def
    by (metis append_take_drop_id append_Cons append_Nil append_assoc)+
  then have "a @ SEP # drop (length a + 1) k = b @ SEP # drop (length b + 1) k" by simp
  then show ?thesis using assms(1,2) by (simp add: append_sep_inject)
qed

lemma away_scope:
  "SEP \<notin> set owner \<Longrightarrow> away owner (Some s) \<Longrightarrow> \<not> under_scope owner (compositeKey s k)"
  by (auto simp: away_def under_scope_iff)

text \<open>A step of a tab appends its disk requests; a fenced one appends nothing of the owner's.\<close>

definition issued :: "'d tab \<Rightarrow> 'd tab \<Rightarrow> 'd disk_request list \<Rightarrow> bool" where
  "issued t t' new \<longleftrightarrow> requests t' = requests t @ new"

lemma away_resolve: "away owner scope \<Longrightarrow> away owner (activeOwner t) \<Longrightarrow> away owner (resolveScope scope t)"
  by (cases scope) (simp_all add: resolveScope_def)

definition shut :: "string \<Rightarrow> nat \<Rightarrow> 'd tab \<Rightarrow> bool" where
  "shut owner g0 t \<longleftrightarrow> clean owner (mirror t) \<and> g0 < generation t \<and> away owner (activeOwner t)
     \<and> (\<forall>g all. read_back t = Some (g, all) \<longrightarrow> g \<le> g0 \<or> clean owner all)"

lemma tab_unchanged [simp]:
  "activeOwner (enqueue_request r t) = activeOwner t" "generation (enqueue_request r t) = generation t"
  "read_back (enqueue_request r t) = read_back t" "requests (enqueue_request r t) = requests t @ [r]"
  by (simp_all add: enqueue_request_def)

lemma cacheSet_cases:
  obtains (nothing) "cacheSet now k d stamp scope g t = t"
  | (written) s e where "resolveScope scope t = Some s" "g = None \<or> g = Some (generation t)"
      "cacheSet now k d stamp scope g t
       = enqueue_request (PutEntry (compositeKey s k) e) (t\<lparr>mirror := AList.update (compositeKey s k) e (mirror t)\<rparr>)"
      "ce_data e = d" "\<forall>x. stamp = Some x \<longrightarrow> ce_at e = x"
proof (cases "(g = None \<or> g = Some (generation t)) \<and> resolveScope scope t \<noteq> None
    \<and> cacheSet now k d stamp scope g t \<noteq> t")
  case True
  then obtain s where s: "resolveScope scope t = Some s" by auto
  with True show ?thesis
    by (auto simp: cacheSet_def Let_def split: option.splits if_splits intro!: written [OF s])
next
  case False
  then have "cacheSet now k d stamp scope g t = t"
    by (auto simp: cacheSet_def)
  then show ?thesis by (rule nothing)
qed

lemma shut_cacheSet:
  assumes "SEP \<notin> set owner" "shut owner g0 t"
    and "away owner scope \<or> (\<exists>g'. g = Some g' \<and> g' \<le> g0)"
  shows "shut owner g0 (cacheSet now k d stamp scope g t)
    \<and> (\<exists>new. issued t (cacheSet now k d stamp scope g t) new \<and> list_all (request_clean owner) new)"
proof (cases rule: cacheSet_cases [of now k d stamp scope g t])
  case nothing
  then show ?thesis using assms(2) by (simp add: issued_def exI [of _ "[]"])
next
  case (written s e)
  from written(2) assms(2,3) have "away owner scope" by (auto simp: shut_def)
  then have "away owner (Some s)"
    using away_resolve [of owner scope t] assms(2) written(1) by (simp add: shut_def)
  from away_scope [OF assms(1) this] have "\<not> under_scope owner (compositeKey s k)" .
  then show ?thesis using assms(2) unfolding written(3)
    by (auto simp: shut_def clean_update issued_def)
qed

lemma evictions:
  "activeOwner (drop_and_mirror ks t) = activeOwner t" "generation (drop_and_mirror ks t) = generation t"
  "read_back (drop_and_mirror ks t) = read_back t"
  "mirror (drop_and_mirror ks t) = drop_keys ks (mirror t)"
  "requests (drop_and_mirror ks t) = requests t @ (if ks = [] then [] else [DeleteKeys ks])"
  by (simp_all add: drop_and_mirror_def Let_def)

lemma shut_evict:
  "shut owner g0 t \<Longrightarrow> shut owner g0 (drop_and_mirror ks t)
    \<and> (\<exists>new. issued t (drop_and_mirror ks t) new \<and> list_all (request_clean owner) new)"
  by (auto simp: shut_def evictions clean_drop_keys issued_def)

lemma shut_fold:
  assumes "SEP \<notin> set owner" "owner \<noteq> ANON" "shut owner g0 t"
  shows "shut owner g0 (fold_hydration now t)"
proof (cases "read_back t")
  case None
  then show ?thesis using assms(3) by (simp add: fold_hydration_def)
next
  case (Some r)
  obtain g all where r: "r = (g, all)" by force
  have anon: "SEP \<notin> set ANON" by (simp add: SEP_def ANON_def)
  have "\<forall>kv\<in>set all. \<not> under_scope owner (fst kv) \<or> generation t \<noteq> g \<and> \<not> under_scope ANON (fst kv)"
  proof (cases "g \<le> g0")
    case True
    with assms(3) have "generation t \<noteq> g" by (auto simp: shut_def)
    then show ?thesis using under_scope_unique [OF assms(1) anon] assms(2) by blast
  next
    case False
    then have "clean owner all" using assms(3) Some r by (auto simp: shut_def)
    then show ?thesis by (auto simp: clean_def)
  qed
  then show ?thesis using assms(3) Some r
    by (simp add: shut_def fold_hydration_def clean_fold_read)
qed

lemma issued_nothing [simp]: "\<exists>new. issued t t' new \<and> list_all P new" if "requests t' = requests t"
  by (rule exI [of _ "[]"]) (simp add: issued_def that)

lemma shut_step:
  assumes "SEP \<notin> set owner" "owner \<noteq> ANON" "shut owner g0 t" "fenced owner (Some g0) p"
  shows "shut owner g0 (tab_step jl p t)
    \<and> (\<exists>new. issued t (tab_step jl p t) new \<and> list_all (request_clean owner) new)"
proof (cases p)
  case (SetActive pk)
  then show ?thesis using assms(3,4) by (auto simp: shut_def setActiveCacheOwner_def)
next
  case (Get now k scope)
  then show ?thesis using assms(3)
    by (auto simp: shut_def cacheGet_def Let_def clean_update_present split: option.split)
next
  case (CSet now k d stamp scope g)
  then show ?thesis using shut_cacheSet [OF assms(1,3)] assms(4) by auto
next
  case (CDelete k scope)
  then show ?thesis using assms(3)
    by (auto simp: shut_def cacheDelete_def issued_def clean_drop_keys split: option.split)
next
  case (Logout o')
  then show ?thesis using assms(3)
    by (auto simp: shut_def clearOwnerCache_def issued_def clean_filter)
next
  case Hydrate
  then show ?thesis using assms(3) by (auto simp: shut_def hydrateAppCache_def issued_def)
next
  case (FoldHydration now)
  then show ?thesis using shut_fold [OF assms(1-3)]
    by (auto simp: fold_hydration_def split: option.split)
next
  case Budget
  then show ?thesis using shut_evict [OF assms(3)] by (simp add: enforceCacheBudget_def)
next
  case QuotaHit
  then show ?thesis using shut_evict [OF assms(3)]
    by (simp add: quota_eviction_def enforceCacheBudget_def)
next
  case (Prune now)
  then show ?thesis using assms(3)
    by (auto simp: shut_def pruneCache_def Let_def issued_def clean_drop_keys)
qed

text \<open>Another tab that is not logged in as the owner and has no write of the owner's pending.\<close>

definition bystander :: "string \<Rightarrow> 'd tab \<Rightarrow> bool" where
  "bystander owner t \<longleftrightarrow> away owner (activeOwner t) \<and> list_all (request_clean owner) (requests t)"

lemma bystander_step:
  assumes "SEP \<notin> set owner" "bystander owner t" "fenced owner None p"
  shows "bystander owner (tab_step jl p t)"
proof (cases p)
  case (CSet now k d stamp scope g)
  with assms(3) have scope: "away owner scope" by simp
  show ?thesis
  proof (cases rule: cacheSet_cases [of now k d stamp scope g t])
    case nothing
    then show ?thesis using assms(2) CSet by simp
  next
    case (written s e)
    then have "away owner (Some s)"
      using away_resolve [OF scope, of t] assms(2) by (simp add: bystander_def)
    then show ?thesis using assms(2) away_scope [OF assms(1)] CSet written(3)
      by (simp add: bystander_def)
  qed
qed (use assms in \<open>auto simp: bystander_def setActiveCacheOwner_def cacheGet_def cacheDelete_def
    clearOwnerCache_def hydrateAppCache_def fold_hydration_def enforceCacheBudget_def quota_eviction_def
    pruneCache_def evictions Let_def split: option.split\<close>)

text \<open>The wipe is still queued behind older requests, or it has reached the disk.\<close>

definition reads_before :: "nat \<Rightarrow> 'd disk_request list \<Rightarrow> bool" where
  "reads_before g0 rs \<longleftrightarrow> (\<forall>g. GetAll g \<in> set rs \<longrightarrow> g \<le> g0)"

definition wiping :: "string \<Rightarrow> nat \<Rightarrow> 'd disk_request list \<Rightarrow> 'd entries \<Rightarrow> bool" where
  "wiping owner g0 rs d \<longleftrightarrow>
     (\<exists>pre post. rs = pre @ DeleteByPrefix owner # post \<and> reads_before g0 pre
        \<and> list_all (request_clean owner) post)
     \<or> clean owner d \<and> list_all (request_clean owner) rs"

definition logged_out :: "string \<Rightarrow> nat \<Rightarrow> nat \<Rightarrow> 'd profile \<Rightarrow> bool" where
  "logged_out owner g0 i w \<longleftrightarrow> shut owner g0 (tabs w i)
     \<and> (\<forall>j. j \<noteq> i \<longrightarrow> bystander owner (tabs w j))
     \<and> wiping owner g0 (requests (tabs w i)) (disk w)"

fun fenced_op :: "string \<Rightarrow> nat \<Rightarrow> nat \<Rightarrow> 'd profile_op \<Rightarrow> bool" where
  "fenced_op owner g0 i (InTab j p) = fenced owner (if j = i then Some g0 else None) p"
| "fenced_op owner g0 i (Land j) = True"
| "fenced_op owner g0 i (LandFails j) = (j \<noteq> i)"

lemma wiping_issue:
  "wiping owner g0 rs d \<Longrightarrow> list_all (request_clean owner) new \<Longrightarrow> wiping owner g0 (rs @ new) d"
  unfolding wiping_def by fastforce

lemma wiping_disk:
  "wiping owner g0 rs d \<Longrightarrow> clean owner d \<Longrightarrow> clean owner d' \<Longrightarrow> wiping owner g0 rs d'"
  unfolding wiping_def by blast

lemma clean_land_disk:
  "clean owner (disk w) \<Longrightarrow> list_all (request_clean owner) (requests (tabs w i)) \<Longrightarrow>
     clean owner (disk (land i w))"
  by (auto simp: land_disk clean_put_disk clean_drop_keys prefix_delete_def clean_filter
      split: list.split disk_request.split)

lemma land_fields [simp]:
  "activeOwner (tabs (land i w) j) = activeOwner (tabs w j)"
  "generation (tabs (land i w) j) = generation (tabs w j)"
  by (auto simp: land_tab split: list.split disk_request.split)

lemma land_read_back:
  "read_back (tabs (land i w) j) =
     (case requests (tabs w i) of
        GetAll g # _ \<Rightarrow> if j = i then Some (g, disk w) else read_back (tabs w j)
      | _ \<Rightarrow> read_back (tabs w j))"
  by (auto simp: land_tab split: list.split disk_request.split)

lemma list_all_tl: "list_all P xs \<Longrightarrow> list_all P (tl xs)"
  by (cases xs) auto

lemma wiping_land:
  assumes "wiping owner g0 (requests (tabs w i)) (disk w)"
  shows "wiping owner g0 (tl (requests (tabs w i))) (disk (land i w))"
  using assms unfolding wiping_def
proof (elim disjE exE conjE)
  fix pre post
  assume rs: "requests (tabs w i) = pre @ DeleteByPrefix owner # post"
    and pre: "reads_before g0 pre" and post: "list_all (request_clean owner) post"
  show "(\<exists>pre post. tl (requests (tabs w i)) = pre @ DeleteByPrefix owner # post \<and> reads_before g0 pre
        \<and> list_all (request_clean owner) post)
     \<or> clean owner (disk (land i w)) \<and> list_all (request_clean owner) (tl (requests (tabs w i)))"
  proof (cases pre)
    case Nil
    then show ?thesis using rs post by (simp add: land_disk)
  next
    case (Cons r pre')
    then have "reads_before g0 pre'" using pre by (auto simp: reads_before_def)
    then show ?thesis using rs Cons post by auto
  qed
next
  assume "clean owner (disk w)" "list_all (request_clean owner) (requests (tabs w i))"
  then show "(\<exists>pre post. tl (requests (tabs w i)) = pre @ DeleteByPrefix owner # post \<and> reads_before g0 pre
        \<and> list_all (request_clean owner) post)
     \<or> clean owner (disk (land i w)) \<and> list_all (request_clean owner) (tl (requests (tabs w i)))"
    by (simp add: clean_land_disk list_all_tl)
qed

lemma wiping_read:
  assumes "wiping owner g0 (GetAll g # rs) d"
  shows "g \<le> g0 \<or> clean owner d"
  using assms unfolding wiping_def reads_before_def by (auto simp: Cons_eq_append_conv)

lemma logged_out_step:
  assumes "SEP \<notin> set owner" "owner \<noteq> ANON" "logged_out owner g0 i w" "fenced_op owner g0 i p"
  shows "logged_out owner g0 i (profile_step jl p w)"
proof (cases p)
  case (InTab j q)
  show ?thesis
  proof (cases "j = i")
    case True
    then show ?thesis
      using assms(3,4) InTab shut_step [OF assms(1,2), of g0 "tabs w i" q jl]
      by (auto simp: logged_out_def issued_def wiping_issue)
  next
    case False
    then show ?thesis
      using assms(3,4) InTab bystander_step [OF assms(1), of "tabs w j" q jl]
      by (auto simp: logged_out_def)
  qed
next
  case (Land j)
  have others: "bystander owner (tabs (land j w) k)" if "k \<noteq> i" for k
    using assms(3) that by (auto simp: logged_out_def bystander_def land_requests list_all_tl)
  show ?thesis
  proof (cases "j = i")
    case True
    have "wiping owner g0 (requests (tabs (land i w) i)) (disk (land i w))"
      using wiping_land [of owner g0 w i] assms(3) by (simp add: logged_out_def land_requests)
    moreover have "shut owner g0 (tabs (land i w) i)"
      using assms(3) wiping_read [of owner g0 _ _ "disk w"]
      by (auto simp: logged_out_def shut_def land_read_back split: list.splits disk_request.splits)
    ultimately show ?thesis using Land True others by (simp add: logged_out_def)
  next
    case False
    then have "list_all (request_clean owner) (requests (tabs w j))"
      using assms(3) by (simp add: logged_out_def bystander_def)
    then have "wiping owner g0 (requests (tabs w i)) (disk (land j w))"
      using assms(3) clean_land_disk [of owner w j] unfolding logged_out_def wiping_def by blast
    moreover have "tabs (land j w) i = tabs w i" using False by (simp add: land_tab)
    ultimately show ?thesis using Land others assms(3) by (simp add: logged_out_def)
  qed
next
  case (LandFails j)
  then show ?thesis using assms(3,4) by (auto simp: logged_out_def bystander_def list_all_tl)
qed

text \<open>Every read in flight was issued under a generation no newer than the tab's.\<close>

definition reads_ok :: "'d tab \<Rightarrow> bool" where
  "reads_ok t \<longleftrightarrow> reads_before (generation t) (requests t)
     \<and> (\<forall>g all. read_back t = Some (g, all) \<longrightarrow> g \<le> generation t)"

lemma reads_before_simps [simp]:
  "reads_before g []"
  "reads_before g (r # rs) \<longleftrightarrow> (\<forall>h. r = GetAll h \<longrightarrow> h \<le> g) \<and> reads_before g rs"
  "reads_before g (rs @ rs') \<longleftrightarrow> reads_before g rs \<and> reads_before g rs'"
  by (auto simp: reads_before_def)

lemma reads_before_mono: "reads_before g rs \<Longrightarrow> g \<le> g' \<Longrightarrow> reads_before g' rs"
  unfolding reads_before_def by (meson le_trans)

lemma reads_ok_step: "reads_ok t \<Longrightarrow> reads_ok (tab_step jl p t)"
proof (cases p)
  case (CSet now k d stamp scope g)
  assume "reads_ok t"
  then show ?thesis unfolding CSet
    by (cases rule: cacheSet_cases [of now k d stamp scope g t]) (auto simp: reads_ok_def)
qed (auto simp: reads_ok_def setActiveCacheOwner_def cacheGet_def cacheDelete_def clearOwnerCache_def
    hydrateAppCache_def fold_hydration_def enforceCacheBudget_def quota_eviction_def pruneCache_def
    evictions Let_def le_SucI elim: reads_before_mono split: option.split)

lemma reads_ok_land: "reads_ok (tabs w j) \<Longrightarrow> reads_ok (tabs (land i w) j)"
  by (auto simp: reads_ok_def land_tab split: list.split disk_request.split)

lemma reads_before_tl: "reads_before g rs \<Longrightarrow> reads_before g (tl rs)"
  by (cases rs) auto

lemma reads_ok_run: "(\<And>j. reads_ok (tabs w j)) \<Longrightarrow> reads_ok (tabs (run_profile jl ops w) j)"
proof (induction ops arbitrary: w)
  case (Cons p ops)
  have "reads_ok (tabs (profile_step jl p w) j)" for j
    using Cons.prems by (cases p) (auto simp: reads_ok_step reads_ok_land, auto simp: reads_ok_def reads_before_tl)
  then show ?case using Cons.IH by simp
qed simp

lemma reads_ok_fresh [simp]: "reads_ok fresh_tab"
  by (simp add: reads_ok_def fresh_tab_def)

definition booted :: "'d entries \<Rightarrow> 'd profile" where
  "booted d = \<lparr>disk = d, tabs = \<lambda>_. fresh_tab\<rparr>"

lemma logged_out_run:
  assumes "SEP \<notin> set owner" "owner \<noteq> ANON" "logged_out owner g0 i w" "list_all (fenced_op owner g0 i) ops"
  shows "logged_out owner g0 i (run_profile jl ops w)"
  using assms(3,4) by (induction ops arbitrary: w) (auto simp: logged_out_step [OF assms(1,2)])

text \<open>The cache part of a logout: wipe, then unscope, in one synchronous block (\<open>session.logout\<close>).\<close>

definition logout_tab :: "string \<Rightarrow> 'd tab \<Rightarrow> 'd tab" where
  "logout_tab owner t = setActiveCacheOwner None (clearOwnerCache owner t)"

lemma logged_out_start:
  assumes "reads_ok (tabs w i)" "\<forall>j. j \<noteq> i \<longrightarrow> bystander owner (tabs w j)"
  shows "logged_out owner (generation (tabs w i)) i (set_tab i (logout_tab owner (tabs w i)) w)"
proof -
  have "wiping owner (generation (tabs w i)) (requests (tabs w i) @ [DeleteByPrefix owner]) (disk w)"
    using assms(1) unfolding wiping_def reads_ok_def by fastforce
  then show ?thesis using assms
    by (auto simp: logged_out_def shut_def logout_tab_def setActiveCacheOwner_def clearOwnerCache_def
        reads_ok_def clean_def away_def)
qed


section \<open>The budget\<close>

lemma recount_Cons [simp]:
  "recountMirrorBytes jl [] = 0"
  "recountMirrorBytes jl (kv # es) = approxBytes jl (snd kv) + recountMirrorBytes jl es"
  by (simp_all add: recountMirrorBytes_def split: prod.split)

lemma recount_mset: "mset es = mset es' \<Longrightarrow> recountMirrorBytes jl es = recountMirrorBytes jl es'"
  unfolding recountMirrorBytes_def by (metis mset_map sum_mset_sum_list)

text \<open>The loop takes a prefix of the entries by age, the shortest that brings both budgets down.\<close>

lemma evict_loop_take:
  "\<exists>n\<le>length es. evict_loop jl me mb (length es) (recountMirrorBytes jl es) es = map fst (take n es)
     \<and> length (drop n es) \<le> me \<and> recountMirrorBytes jl (drop n es) \<le> mb
     \<and> (\<forall>m<n. \<not> (length (drop m es) \<le> me \<and> recountMirrorBytes jl (drop m es) \<le> mb))"
proof (induction es)
  case (Cons kv es)
  obtain k e where kv: "kv = (k, e)" by force
  show ?case
  proof (cases "length (kv # es) \<le> me \<and> recountMirrorBytes jl (kv # es) \<le> mb")
    case True
    then show ?thesis unfolding kv by (intro exI [of _ 0]) simp
  next
    case False
    from Cons.IH obtain n where n: "n \<le> length es"
        "evict_loop jl me mb (length es) (recountMirrorBytes jl es) es = map fst (take n es)"
        "length (drop n es) \<le> me" "recountMirrorBytes jl (drop n es) \<le> mb"
        "\<forall>m<n. \<not> (length (drop m es) \<le> me \<and> recountMirrorBytes jl (drop m es) \<le> mb)" by blast
    show ?thesis
      using n False by (intro exI [of _ "Suc n"]) (auto simp: kv less_Suc_eq_0_disj)
  qed
qed simp

lemma sorted_byAge:
  "sorted_wrt (\<lambda>a b. touched_or_zero (snd a) \<le> touched_or_zero (snd b)) (byAge es)"
  unfolding byAge_def by (rule sorted_sort_by) (auto simp: total_preorder_def)

lemma byAge_simps [simp]: "mset (byAge es) = mset es" "length (byAge es) = length es" "set (byAge es) = set es"
  by (simp_all add: byAge_def)

lemma distinct_fst_byAge: "distinct (map fst es) \<Longrightarrow> distinct (map fst (byAge es))"
  by (metis byAge_simps(1) mset_map mset_eq_imp_distinct_iff)

lemma mset_drop_taken:
  assumes "distinct (map fst es)"
  shows "mset (drop_keys (map fst (take n (byAge es))) es) = mset (drop n (byAge es))"
proof -
  let ?es = "byAge es" let ?K = "map fst (take n ?es)"
  have d: "distinct (map fst (take n ?es @ drop n ?es))"
    using distinct_fst_byAge [OF assms] by simp
  have kept: "filter (\<lambda>(k, _). k \<notin> set ?K) (drop n ?es) = drop n ?es"
    using d unfolding map_append distinct_append by (force simp: filter_id_conv)
  have gone: "filter (\<lambda>(k, _). k \<notin> set ?K) (take n ?es) = []"
    by (force simp: filter_empty_conv)
  have "mset (drop_keys ?K es) = mset (filter (\<lambda>(k, _). k \<notin> set ?K) ?es)"
    unfolding drop_keys_def mset_filter byAge_simps ..
  also have "filter (\<lambda>(k, _). k \<notin> set ?K) ?es
      = filter (\<lambda>(k, _). k \<notin> set ?K) (take n ?es) @ filter (\<lambda>(k, _). k \<notin> set ?K) (drop n ?es)"
    by (simp only: filter_append [symmetric] append_take_drop_id)
  also have "\<dots> = drop n ?es" unfolding kept gone by simp
  finally show ?thesis .
qed

lemma evicted_take:
  "\<exists>n\<le>length es. evicted_keys jl me mb es = map fst (take n (byAge es))
     \<and> length (drop n (byAge es)) \<le> me \<and> recountMirrorBytes jl (drop n (byAge es)) \<le> mb
     \<and> (\<forall>m<n. \<not> (length (drop m (byAge es)) \<le> me \<and> recountMirrorBytes jl (drop m (byAge es)) \<le> mb))"
proof (cases "length es \<le> me \<and> recountMirrorBytes jl es \<le> mb")
  case True
  then show ?thesis
    by (intro exI [of _ 0]) (simp add: evicted_keys_def recount_mset [of "byAge es" es])
next
  case False
  then have "evicted_keys jl me mb es
      = evict_loop jl me mb (length (byAge es)) (recountMirrorBytes jl (byAge es)) (byAge es)"
    by (auto simp: evicted_keys_def Let_def recount_mset [of "byAge es" es])
  then show ?thesis using evict_loop_take [of "byAge es" jl me mb] by simp
qed

lemma take_before_drop:
  assumes "sorted_wrt P xs" "x \<in> set (take n xs)" "y \<in> set (drop n xs)"
  shows "P x y"
  using assms(1) sorted_wrt_append [of P "take n xs" "drop n xs"] assms(2,3) by simp

lemma taken_entry:
  assumes "distinct (map fst es)" "(k, e) \<in> set es" "k \<in> set (map fst (take n (byAge es)))"
  shows "(k, e) \<in> set (take n (byAge es))"
proof -
  from assms(3) obtain e' where e': "(k, e') \<in> set (take n (byAge es))" by auto
  then have "(k, e') \<in> set es" by (metis byAge_simps(3) in_set_takeD)
  with assms(1,2) have "e = e'" by (meson eq_key_imp_eq_value)
  with e' show ?thesis by simp
qed

text \<open>
  The size budget holds after every pass: at most the allowed entries and bytes remain,
  nothing that was used more recently than a kept entry is evicted before it, and no entry is
  evicted needlessly: with the last of the evicted entries kept, the budget would still be exceeded.
\<close>

theorem budget_enforced:
  assumes distinct: "distinct (map fst (mirror t))"
    and t': "t' = enforceCacheBudget jl max_entries max_bytes t"
    and gone: "gone = evicted_keys jl max_entries max_bytes (mirror t)"
  shows "length (mirror t') \<le> max_entries \<and> recountMirrorBytes jl (mirror t') \<le> max_bytes
    \<and> mirror t' = drop_keys gone (mirror t)
    \<and> (\<forall>(k, e)\<in>set (mirror t). \<forall>(k', e')\<in>set (mirror t').
          k \<in> set gone \<longrightarrow> touched_or_zero e \<le> touched_or_zero e')
    \<and> (gone \<noteq> [] \<longrightarrow> \<not> (length (drop_keys (butlast gone) (mirror t)) \<le> max_entries
          \<and> recountMirrorBytes jl (drop_keys (butlast gone) (mirror t)) \<le> max_bytes))"
proof -
  let ?es = "byAge (mirror t)"
  have m': "mirror t' = drop_keys gone (mirror t)"
    unfolding t' gone by (simp add: enforceCacheBudget_def evictions)
  obtain n where n: "n \<le> length (mirror t)" "gone = map fst (take n ?es)"
      "length (drop n ?es) \<le> max_entries" "recountMirrorBytes jl (drop n ?es) \<le> max_bytes"
      "\<forall>m<n. \<not> (length (drop m ?es) \<le> max_entries \<and> recountMirrorBytes jl (drop m ?es) \<le> max_bytes)"
    unfolding gone using evicted_take [of "mirror t" jl max_entries max_bytes] by blast
  note left = mset_drop_taken [OF distinct]
  have kept: "mset (mirror t') = mset (drop n ?es)" unfolding m' n(2) by (rule left)
  then have sizes: "length (mirror t') \<le> max_entries" "recountMirrorBytes jl (mirror t') \<le> max_bytes"
    using n(3,4) mset_eq_length recount_mset by metis+
  have "touched_or_zero e \<le> touched_or_zero e'"
    if "(k, e) \<in> set (mirror t)" "(k', e') \<in> set (mirror t')" "k \<in> set gone" for k e k' e'
    using take_before_drop [OF sorted_byAge taken_entry [OF distinct that(1)]] that(2,3)
      mset_eq_setD [OF kept] n(2) by fastforce
  moreover have "\<not> (length (drop_keys (butlast gone) (mirror t)) \<le> max_entries
          \<and> recountMirrorBytes jl (drop_keys (butlast gone) (mirror t)) \<le> max_bytes)" if "gone \<noteq> []"
  proof -
    from that n(1,2) have pos: "0 < n" by (cases n) auto
    then have "butlast gone = map fst (take (n - 1) ?es)"
      using n(1,2) by (simp add: map_butlast [symmetric] butlast_take)
    then have "mset (drop_keys (butlast gone) (mirror t)) = mset (drop (n - 1) ?es)" using left by simp
    then show ?thesis using n(5) pos mset_eq_length recount_mset by (metis diff_less zero_less_one)
  qed
  ultimately show ?thesis using sizes m' by blast
qed

section \<open>Concrete runs\<close>

definition sample_owner :: string where
  "sample_owner = ''a11ce''"

text \<open>A boot read, a write and a logout of the account, all in flight at once.\<close>

definition sample_busy :: "nat profile" where
  "sample_busy = run_profile id
     [InTab 0 (SetActive (Some sample_owner)), InTab 0 (CSet 5 ''k'' 7 (Some 3) None None),
      Land 0, InTab 0 Hydrate, Land 0, InTab 0 (CSet 6 ''dm'' 8 None None None)] (booted [])"

lemmas cache_eval = tab_step.simps profile_step.simps run_profile_simps cacheSet_def cacheGet_def
  setActiveCacheOwner_def hydrateAppCache_def fold_hydration_def fold_entry_def clearOwnerCache_def
  enqueue_request_def land_def put_disk_def set_tab_def resolveScope_def compositeKey_def
  booted_def fresh_tab_def Let_def

lemma sample_busy_tabs:
  "j \<noteq> 0 \<Longrightarrow> tabs sample_busy j = fresh_tab" "generation (tabs sample_busy 0) = 0"
  by (simp_all add: sample_busy_def cache_eval)

lemma sample_after:
  "away sample_owner None" "SEP \<notin> set sample_owner" "sample_owner \<noteq> ANON"
  by (simp_all add: away_def sample_owner_def SEP_def ANON_def)


lemma cache_latest_wins_witness:
  "let w = booted [(''k'', \<lparr>ce_at = 4, ce_touched = None, ce_data = 1 :: nat\<rparr>)];
       ops = [InTab 0 Hydrate, InTab 1 (CSet 9 ''k'' 2 (Some 3) (Some ANON) None), Land 0, Land 1,
              InTab 0 (FoldHydration 9)]
   in map_of (mirror (tabs (run_profile id ops w) 0)) ''k'' \<noteq> None
    \<and> (\<exists>y. map_of (disk (run_profile id ops w)) ''k'' = Some y \<and> 4 \<le> ce_at y)"
proof -
  define w where "w = booted [(''k'', \<lparr>ce_at = 4, ce_touched = None, ce_data = 1 :: nat\<rparr>)]"
  define ops where "ops = [InTab 0 Hydrate, InTab 1 (CSet 9 ''k'' (2::nat) (Some 3) (Some ANON) None), Land 0,
    Land 1, InTab 0 (FoldHydration 9)]"
  have "no_removals w" by (simp add: w_def no_removals_def removes_nothing_def booted_def fresh_tab_def)
  moreover have "list_all only_writes ops" by (simp add: ops_def)
  ultimately have "\<exists>y. map_of (disk (run_profile id ops w)) ''k'' = Some y \<and> 4 \<le> ce_at y"
    using cache_latest_wins [of w ops id] by (force simp: w_def booted_def)
  moreover have "map_of (mirror (tabs (run_profile id ops w) 0)) ''k'' \<noteq> None"
    by (simp add: ops_def w_def cache_eval)
  ultimately show ?thesis unfolding Let_def w_def [symmetric] ops_def [symmetric] by blast
qed

definition sample_full :: "nat tab" where
  "sample_full = fresh_tab\<lparr>mirror :=
     [(''old'', \<lparr>ce_at = 9, ce_touched = Some 1, ce_data = 0\<rparr>),
      (''new'', \<lparr>ce_at = 1, ce_touched = Some 9, ce_data = 0\<rparr>)]\<rparr>"

lemma budget_enforced_witness:
  "let t' = enforceCacheBudget id 1 1000 sample_full
   in length (mirror t') \<le> 1 \<and> map fst (mirror t') = [''new'']"
proof -
  have "distinct (map fst (mirror sample_full))" by (simp add: sample_full_def)
  from budget_enforced [OF this refl refl, of id 1 1000, THEN conjunct1]
  show ?thesis
    by (simp add: sample_full_def enforceCacheBudget_def evicted_keys_def drop_and_mirror_def byAge_def
        touched_or_zero_def approxBytes_def drop_keys_def enqueue_request_def Let_def)
qed

end
