(* ===== verification/Monotonic.thy ===== *)
theory Monotonic
  imports Cache Ordering Stamps
begin

text \<open>
  The created-at stamps of the app's replaceable events
  (\<open>packages/app/src/lib/nostr/monotonic.ts\<close> and \<open>accepted-watermark.ts\<close>), kept as watermarks in
  the persistent cache of \<open>Cache\<close>, here over integers: the newest stamp this client signed for an
  address, and the newest one a relay accepted.

  A publish holds the lock of its owner and address from the read of the floor until the bump of
  the watermark. The signature between the two is asynchronous, so the section is two steps here,
  the reservation and its end, and anything else may happen between them; a second publish of the
  address waits for the first to end. A publish whose signer throws reserves nothing.
\<close>

section \<open>Addresses and watermarks\<close>

definition eventAddress :: "int \<Rightarrow> string \<Rightarrow> string option \<Rightarrow> string" where
  "eventAddress kind author identifier =
     (case identifier of
        Some d \<Rightarrow> show_int kind @ '':'' @ author @ '':'' @ d
      | None \<Rightarrow> show_int kind @ '':'' @ author)"

definition watermarkKey :: "string \<Rightarrow> string" where
  "watermarkKey address = ''mono:'' @ address"

definition acceptedKey :: "string \<Rightarrow> string" where
  "acceptedKey address = ''mono-accepted:'' @ address"

definition owner_scope :: "string option \<Rightarrow> 'd tab \<Rightarrow> string" where
  "owner_scope owner t =
     (case owner of Some s \<Rightarrow> s | None \<Rightarrow> (case activeOwner t of Some s \<Rightarrow> s | None \<Rightarrow> ANON))"

definition cached_or_zero :: "int \<Rightarrow> string \<Rightarrow> string \<Rightarrow> int tab \<Rightarrow> int \<times> int tab" where
  "cached_or_zero now k scope t =
     (let (e, t') = cacheGet now k (Some scope) t
      in (case e of Some e \<Rightarrow> ce_data e | None \<Rightarrow> 0, t'))"

definition publishWatermark :: "int \<Rightarrow> string \<Rightarrow> string option \<Rightarrow> int tab \<Rightarrow> int \<times> int tab" where
  "publishWatermark now address owner t = cached_or_zero now (watermarkKey address) (owner_scope owner t) t"

definition bumpWatermark :: "int \<Rightarrow> string \<Rightarrow> int \<Rightarrow> string option \<Rightarrow> int tab \<Rightarrow> int tab" where
  "bumpWatermark now address createdAt owner t =
     cacheSet now (watermarkKey address) createdAt (Some createdAt) (Some (owner_scope owner t)) None t"

definition acceptedWatermark :: "int \<Rightarrow> string \<Rightarrow> string option \<Rightarrow> int tab \<Rightarrow> int \<times> int tab" where
  "acceptedWatermark now address owner t = cached_or_zero now (acceptedKey address) (owner_scope owner t) t"

definition noteAccepted :: "int \<Rightarrow> string \<Rightarrow> int \<Rightarrow> string option \<Rightarrow> int tab \<Rightarrow> int tab" where
  "noteAccepted now address createdAt owner t =
     cacheSet now (acceptedKey address) createdAt (Some createdAt) (Some (owner_scope owner t)) None t"

definition replaceable_kind :: "int \<Rightarrow> bool" where
  "replaceable_kind k \<longleftrightarrow> k = 0 \<or> k = 3 \<or> (10000 \<le> k \<and> k < 20000)"

definition addressable_kind :: "int \<Rightarrow> bool" where
  "addressable_kind k \<longleftrightarrow> 30000 \<le> k \<and> k < 40000"

definition noteAcceptedEvent :: "int \<Rightarrow> 'r minimal_event_scheme \<Rightarrow> string option \<Rightarrow> int tab \<Rightarrow> int tab" where
  "noteAcceptedEvent now event owner t =
     (if \<not> replaceable_kind (me_kind event) \<and> \<not> addressable_kind (me_kind event) then t
      else let d = (if addressable_kind (me_kind event)
                    then Some (case tag_value ''d'' (me_tags event) of Some v \<Rightarrow> v | None \<Rightarrow> '''')
                    else None)
           in noteAccepted now (eventAddress (me_kind event) (me_pubkey event) d)
                (created_or_0 event) owner t)"

section \<open>The critical section\<close>

text \<open>
  The stamp of the newest event the relays hold for the address: \<open>None\<close> when the read is skipped
  offline or fails, otherwise what it returned.
\<close>

definition relay_floor :: "bool \<Rightarrow> 'r orderable_scheme list option \<Rightarrow> int" where
  "relay_floor offline fetched =
     (if offline then 0
      else case fetched of
        None \<Rightarrow> 0
      | Some events \<Rightarrow> (case pickLatest events of Some w \<Rightarrow> created_or_0 w | None \<Rightarrow> 0))"

text \<open>The watermarks a tab is publishing at, by owner and address, with the profile's cache.\<close>

type_synonym lock_name = "string \<times> string"

record mono_state =
  ms_profile :: "int profile"
  ms_pending :: "lock_name \<Rightarrow> int option"

definition end_section :: "nat \<Rightarrow> int \<Rightarrow> lock_name \<Rightarrow> mono_state \<Rightarrow> mono_state" where
  "end_section i now name s =
     (case ms_pending s name of
        None \<Rightarrow> s
      | Some createdAt \<Rightarrow>
          (let w = ms_profile s; (owner, address) = name
           in s\<lparr>ms_profile := set_tab i (bumpWatermark now address createdAt (Some owner) (tabs w i)) w,
                ms_pending := (ms_pending s)(name := None)\<rparr>))"

definition reserve :: "nat \<Rightarrow> lock_name \<Rightarrow> int \<times> int \<Rightarrow> mono_state \<Rightarrow> int \<times> mono_state" where
  "reserve i name clock s =
     (let (now, relayAt) = clock; (owner, address) = name;
          s1 = end_section i now name s; w = ms_profile s1;
          (watermark, t) = publishWatermark now address (Some owner) (tabs w i);
          floor = max watermark relayAt;
          createdAt = max now (floor + 1)
      in (createdAt, s1\<lparr>ms_profile := set_tab i t w, ms_pending := (ms_pending s1)(name := Some createdAt)\<rparr>))"

datatype mono_other = EndSection int lock_name | CacheOp "int profile_op"

fun mono_step :: "(int \<Rightarrow> nat) \<Rightarrow> nat \<Rightarrow> mono_other \<Rightarrow> mono_state \<Rightarrow> mono_state" where
  "mono_step jl i (EndSection now name) s = end_section i now name s"
| "mono_step jl i (CacheOp p) s = s\<lparr>ms_profile := profile_step jl p (ms_profile s)\<rparr>"

text \<open>The stamps reserved in a run of one tab, with the address each is for.\<close>

fun mono_run ::
  "(int \<Rightarrow> nat) \<Rightarrow> nat \<Rightarrow> (lock_name \<times> int \<times> int + mono_other) list \<Rightarrow> mono_state \<Rightarrow> (lock_name \<times> int) list" where
  "mono_run jl i [] s = []"
| "mono_run jl i (Inl (name, clock) # rs) s =
     (let (createdAt, s') = reserve i name clock s in (name, createdAt) # mono_run jl i rs s')"
| "mono_run jl i (Inr p # rs) s = mono_run jl i rs (mono_step jl i p s)"

section \<open>Watermark entries\<close>

text \<open>A key that could be a watermark's; of such an entry the stamp and the value agree.\<close>

fun is_watermark :: "string \<Rightarrow> bool" where
  "is_watermark [] = False"
| "is_watermark (c # cs) = (take 6 (c # cs) = SEP # ''mono:'' \<or> is_watermark cs)"

lemma is_watermark_append: "is_watermark k \<Longrightarrow> is_watermark (s @ k)"
  by (induction s) auto

lemma is_watermark_key: "is_watermark (compositeKey scope (watermarkKey address))"
  by (simp add: compositeKey_def watermarkKey_def is_watermark_append)

lemma is_watermark_plain: "SEP \<notin> set s \<Longrightarrow> is_watermark (s @ SEP # k) = is_watermark (SEP # k)"
  by (induction s) auto

definition entry_ok :: "string \<Rightarrow> int cache_entry \<Rightarrow> bool" where
  "entry_ok ck e \<longleftrightarrow> (is_watermark ck \<longrightarrow> ce_at e = ce_data e)"

definition entries_ok :: "int entries \<Rightarrow> bool" where
  "entries_ok es \<longleftrightarrow> (\<forall>(ck, e)\<in>set es. entry_ok ck e)"

fun request_ok :: "int disk_request \<Rightarrow> bool" where
  "request_ok (PutEntry ck e) = entry_ok ck e"
| "request_ok _ = True"

definition plain :: "string option \<Rightarrow> bool" where
  "plain pk \<longleftrightarrow> (\<forall>s. pk = Some s \<longrightarrow> SEP \<notin> set s)"

definition tab_ok :: "int tab \<Rightarrow> bool" where
  "tab_ok t \<longleftrightarrow> entries_ok (mirror t) \<and> list_all request_ok (requests t) \<and> plain (activeOwner t)
     \<and> (\<forall>g all. read_back t = Some (g, all) \<longrightarrow> entries_ok all)"

definition mono_ok :: "mono_state \<Rightarrow> bool" where
  "mono_ok s \<longleftrightarrow> (\<forall>j. tab_ok (tabs (ms_profile s) j)) \<and> entries_ok (disk (ms_profile s))"

text \<open>
  What else may happen: anything but a delete, where other writes of the cache do not touch a
  watermark unless they set it as a publisher does, and account names are free of the separator.
\<close>

fun keeps_watermarks :: "int cache_op \<Rightarrow> bool" where
  "keeps_watermarks (CSet _ k d stamp scope _) =
     (stamp = Some d \<or> plain scope \<and> \<not> is_watermark (SEP # k))"
| "keeps_watermarks (SetActive pk) = plain pk"
| "keeps_watermarks p = (\<not> deletes p)"

fun mono_harmless :: "mono_other \<Rightarrow> bool" where
  "mono_harmless (CacheOp (InTab _ p)) = keeps_watermarks p"
| "mono_harmless _ = True"

lemma keeps_watermarks_deletes: "keeps_watermarks p \<Longrightarrow> \<not> deletes p"
  by (cases p) auto

lemma entries_ok_simps [simp]:
  "entries_ok []" "entries_ok ((ck, e) # es) \<longleftrightarrow> entry_ok ck e \<and> entries_ok es"
  by (auto simp: entries_ok_def)

lemma entries_ok_update: "entries_ok es \<Longrightarrow> entry_ok ck e \<Longrightarrow> entries_ok (AList.update ck e es)"
  by (induction es) (auto split: prod.splits)

lemma entries_ok_lookup: "entries_ok es \<Longrightarrow> map_of es ck = Some e \<Longrightarrow> entry_ok ck e"
  by (auto simp: entries_ok_def dest: map_of_SomeD)

lemma entries_ok_put_disk: "entries_ok es \<Longrightarrow> entry_ok ck e \<Longrightarrow> entries_ok (put_disk ck e es)"
  by (simp add: put_disk_def entries_ok_update split: option.split)

lemma entries_ok_filter: "entries_ok es \<Longrightarrow> entries_ok (filter P es)"
  by (auto simp: entries_ok_def)

lemma entry_ok_touch [simp]: "entry_ok ck (e\<lparr>ce_touched := x\<rparr>) = entry_ok ck e"
  by (simp add: entry_ok_def)

lemma entries_ok_touch:
  "entries_ok es \<Longrightarrow> map_of es ck = Some e \<Longrightarrow> entries_ok (AList.update ck (e\<lparr>ce_touched := x\<rparr>) es)"
  by (rule entries_ok_update) (simp_all add: entries_ok_lookup)

lemma entries_ok_fold_entry: "entries_ok m \<Longrightarrow> entry_ok (fst kv) (snd kv) \<Longrightarrow> entries_ok (fold_entry wiped now kv m)"
  by (auto simp: fold_entry_def Let_def entries_ok_update split: prod.split option.split)

lemma entries_ok_fold_read: "entries_ok all \<Longrightarrow> entries_ok m \<Longrightarrow> entries_ok (fold_read wiped now all m)"
  by (induction all arbitrary: m) (auto simp: entries_ok_fold_entry)

lemma tab_ok_cacheSet:
  assumes "tab_ok t" "stamp = Some d \<or> plain scope \<and> \<not> is_watermark (SEP # k)"
  shows "tab_ok (cacheSet now k d stamp scope g t)"
proof (cases rule: cacheSet_cases [of now k d stamp scope g t])
  case nothing
  then show ?thesis using assms(1) by simp
next
  case (written s e)
  have "entry_ok (compositeKey s k) e"
  proof (cases "stamp = Some d")
    case True
    then show ?thesis using written(4,5) by (simp add: entry_ok_def)
  next
    case False
    then have "plain (Some s)" using assms written(1)
      by (auto simp: resolveScope_def tab_ok_def split: option.splits)
    then have "\<not> is_watermark (compositeKey s k)"
      using assms(2) False by (simp add: compositeKey_def is_watermark_plain plain_def)
    then show ?thesis by (simp add: entry_ok_def)
  qed
  then show ?thesis using assms(1) written(3) by (simp add: tab_ok_def entries_ok_update)
qed

lemma tab_ok_step: "tab_ok t \<Longrightarrow> keeps_watermarks p \<Longrightarrow> tab_ok (tab_step jl p t)"
proof (cases p)
  case (Get now k scope)
  assume "tab_ok t"
  then show ?thesis using Get
    by (auto simp: tab_ok_def cacheGet_def Let_def entries_ok_touch split: option.split)
qed (auto simp: tab_ok_cacheSet, auto simp: tab_ok_def setActiveCacheOwner_def hydrateAppCache_def
      fold_hydration_def entries_ok_fold_read split: option.split)

lemma profile_ok_step:
  assumes "mono_ok s" "mono_harmless (CacheOp p)"
  shows "mono_ok (s\<lparr>ms_profile := profile_step jl p (ms_profile s)\<rparr>)"
proof (cases p)
  case (InTab j q)
  then show ?thesis using assms by (auto simp: mono_ok_def tab_ok_step)
next
  case (Land j)
  have head: "requests (tabs (ms_profile s) j) = r # rs \<Longrightarrow> request_ok r" for r rs
    using assms(1) unfolding mono_ok_def tab_ok_def by (metis list.pred_inject(2))
  have disk: "entries_ok (disk (ms_profile s))" using assms(1) by (simp add: mono_ok_def)
  have "entries_ok (disk (land j (ms_profile s)))"
    using head disk
    by (auto simp: land_disk entries_ok_put_disk drop_keys_def prefix_delete_def entries_ok_filter
        split: list.split disk_request.split)
  moreover have "tab_ok (tabs (land j (ms_profile s)) k)" for k
    using assms(1) disk unfolding mono_ok_def tab_ok_def
    by (auto simp: land_requests land_read_back list_all_tl split: list.split disk_request.split)
  ultimately show ?thesis using Land by (simp add: mono_ok_def)
next
  case (LandFails j)
  then show ?thesis using assms by (auto simp: mono_ok_def tab_ok_def list_all_tl)
qed

text \<open>What the client has committed itself to at an address: the watermark and a reservation.\<close>

definition watermark_of :: "nat \<Rightarrow> lock_name \<Rightarrow> mono_state \<Rightarrow> int option" where
  "watermark_of i name s = map_option ce_data
     (map_of (mirror (tabs (ms_profile s) i)) (compositeKey (fst name) (watermarkKey (snd name))))"

definition committed :: "nat \<Rightarrow> mono_state \<Rightarrow> lock_name \<Rightarrow> int option" where
  "committed i s name =
     (case watermark_of i name s of
        None \<Rightarrow> ms_pending s name
      | Some w \<Rightarrow> Some (case ms_pending s name of None \<Rightarrow> w | Some c \<Rightarrow> max w c))"

lemma entries_le_watermark:
  assumes "entries_ok m" "entries_ok m'" "entries_le m m'" "is_watermark ck"
    and "map_option ce_data (map_of m ck) = Some w"
  shows "\<exists>w'\<ge>w. map_option ce_data (map_of m' ck) = Some w'"
proof -
  from assms(5) obtain e where e: "map_of m ck = Some e" "ce_data e = w" by auto
  with assms(3) obtain e' where e': "map_of m' ck = Some e'" "ce_at e \<le> ce_at e'"
    unfolding entries_le_def by (metis stamp_le_Some)
  then show ?thesis
    using e assms(4) entries_ok_lookup [OF assms(1) e(1)] entries_ok_lookup [OF assms(2) e'(1)]
    by (simp add: entry_ok_def)
qed

lemma committed_mono:
  assumes "mono_ok s" "mono_ok s'" "ms_pending s' name = ms_pending s name"
    and "entries_le (mirror (tabs (ms_profile s) i)) (mirror (tabs (ms_profile s') i))"
    and "committed i s name = Some l"
  shows "\<exists>l'\<ge>l. committed i s' name = Some l'"
proof (cases "watermark_of i name s")
  case None
  then show ?thesis using assms(3,5) by (auto simp: committed_def split: option.split)
next
  case (Some w)
  have "\<exists>w'\<ge>w. watermark_of i name s' = Some w'"
    using entries_le_watermark [OF _ _ assms(4) is_watermark_key] Some assms(1,2)
    by (simp add: watermark_of_def mono_ok_def tab_ok_def)
  then obtain w' where "w \<le> w'" "watermark_of i name s' = Some w'" by blast
  then show ?thesis using Some assms(3,5) by (auto simp: committed_def split: option.splits)
qed

section \<open>The stamps of one tab increase\<close>

lemma bump_entries_le:
  "entries_le (mirror t) (mirror (bumpWatermark now address c owner t))"
  by (simp add: bumpWatermark_def entries_le_cacheSet)

lemma bump_ok: "tab_ok t \<Longrightarrow> tab_ok (bumpWatermark now address c owner t)"
  by (simp add: bumpWatermark_def tab_ok_cacheSet)

lemma bump_watermark:
  assumes "entries_ok (mirror t)"
  shows "\<exists>e. map_of (mirror (bumpWatermark now address c (Some owner) t))
           (compositeKey owner (watermarkKey address)) = Some e \<and> c \<le> ce_data e"
  using entries_ok_lookup [OF assms, of "compositeKey owner (watermarkKey address)"]
  by (auto simp: bumpWatermark_def cacheSet_def Let_def owner_scope_def resolveScope_def update_conv'
      entry_ok_def is_watermark_key split: option.split)

lemma end_section_pending [simp]:
  "ms_pending (end_section i now name s) = (ms_pending s)(name := None)"
  by (cases name) (auto simp: end_section_def Let_def split: option.split)

lemma end_section_ok: "mono_ok s \<Longrightarrow> mono_ok (end_section i now name s)"
  by (auto simp: end_section_def Let_def mono_ok_def bump_ok split: option.split prod.split)

lemma end_section_entries:
  "entries_le (mirror (tabs (ms_profile s) j)) (mirror (tabs (ms_profile (end_section i now name s)) j))"
  by (auto simp: end_section_def Let_def bump_entries_le split: option.split prod.split)

lemma end_section_covers:
  assumes "mono_ok s" "committed i s name = Some l"
  shows "\<exists>w\<ge>l. watermark_of i name (end_section i now name s) = Some w"
proof (cases "ms_pending s name")
  case None
  then show ?thesis using assms(2)
    by (auto simp: end_section_def committed_def watermark_of_def split: option.splits)
next
  case (Some c)
  obtain owner address where name: "name = (owner, address)" by force
  let ?t = "tabs (ms_profile s) i"
  let ?ck = "compositeKey owner (watermarkKey address)"
  have ok: "tab_ok ?t" using assms(1) by (simp add: mono_ok_def)
  have ms: "mirror (tabs (ms_profile (end_section i now name s)) i)
      = mirror (bumpWatermark now address c (Some owner) ?t)"
    using Some by (simp add: end_section_def name Let_def)
  obtain e where e: "map_of (mirror (bumpWatermark now address c (Some owner) ?t)) ?ck = Some e"
      "c \<le> ce_data e"
    using bump_watermark [of ?t now address c owner] ok unfolding tab_ok_def by blast
  have now: "watermark_of i name (end_section i now name s) = Some (ce_data e)"
    using e(1) ms by (simp add: watermark_of_def name)
  have "w \<le> ce_data e" if "watermark_of i name s = Some w" for w
    using that entries_le_watermark [OF _ _ bump_entries_le [of ?t now address c "Some owner"] is_watermark_key, of owner address w]
      ok bump_ok [OF ok] e(1) by (auto simp: watermark_of_def name tab_ok_def)
  then show ?thesis using assms(2) e(2) Some now by (auto simp: committed_def split: option.splits)
qed

lemma publishWatermark_entries:
  "entries_le (mirror t) (mirror (snd (publishWatermark now address owner t)))"
  using entries_le_cacheGet [of t now "watermarkKey address" "Some (owner_scope owner t)"]
  by (simp add: publishWatermark_def cached_or_zero_def case_prod_beta)

lemma publishWatermark_ok: "tab_ok t \<Longrightarrow> tab_ok (snd (publishWatermark now address owner t))"
  using tab_ok_step [of t "Get now (watermarkKey address) (Some (owner_scope owner t))"]
  by (simp add: publishWatermark_def cached_or_zero_def case_prod_beta)

lemma publishWatermark_reads:
  "watermark_of i (owner, address) s = Some w \<Longrightarrow>
     fst (publishWatermark now address (Some owner) (tabs (ms_profile s) i)) = w"
  by (auto simp: watermark_of_def publishWatermark_def cached_or_zero_def cacheGet_def owner_scope_def
      resolveScope_def Let_def)

lemma reserve_eq:
  "reserve i (owner, address) (now, relayAt) s =
     (let s1 = end_section i now (owner, address) s;
          t = tabs (ms_profile s1) i;
          c = max now (max (fst (publishWatermark now address (Some owner) t)) relayAt + 1)
      in (c, s1\<lparr>ms_profile := set_tab i (snd (publishWatermark now address (Some owner) t)) (ms_profile s1),
               ms_pending := (ms_pending s1)((owner, address) := Some c)\<rparr>))"
  by (simp add: reserve_def Let_def split: prod.split)

lemma reserve_ok:
  assumes "mono_ok s"
  shows "mono_ok (snd (reserve i name clock s))"
proof -
  obtain owner address where name: "name = (owner, address)" by force
  obtain now relayAt where clock: "clock = (now, relayAt)" by force
  show ?thesis
    using end_section_ok [OF assms, of i now name]
    by (auto simp: name clock reserve_eq Let_def mono_ok_def publishWatermark_ok)
qed

lemma reserve_entries:
  "entries_le (mirror (tabs (ms_profile s) i)) (mirror (tabs (ms_profile (snd (reserve i name clock s))) i))"
proof -
  obtain owner address where name: "name = (owner, address)" by force
  obtain now relayAt where clock: "clock = (now, relayAt)" by force
  show ?thesis
    using entries_le_trans [OF end_section_entries [of s i i now name] publishWatermark_entries]
    by (simp add: name clock reserve_eq Let_def)
qed

lemma committed_reserve:
  assumes "mono_ok s"
  shows "committed i s name = Some l \<Longrightarrow> l < fst (reserve i name clock s)"
    and "committed i (snd (reserve i name clock s)) name = Some (fst (reserve i name clock s))"
    and "max (fst clock) (snd clock + 1) \<le> fst (reserve i name clock s)"
proof -
  obtain owner address where name: "name = (owner, address)" by force
  obtain now relayAt where clock: "clock = (now, relayAt)" by force
  let ?s1 = "end_section i now name s"
  have reads: "watermark_of i name ?s1 = Some w \<Longrightarrow> w < fst (reserve i name clock s)" for w
    using publishWatermark_reads [of i owner address ?s1 w now]
    by (auto simp: name clock reserve_eq Let_def)
  show "committed i s name = Some l \<Longrightarrow> l < fst (reserve i name clock s)"
    using end_section_covers [OF assms, of i name l now] reads by fastforce
  show "max (fst clock) (snd clock + 1) \<le> fst (reserve i name clock s)"
    by (auto simp: name clock reserve_eq Let_def)
  have pending: "ms_pending (snd (reserve i name clock s)) name = Some (fst (reserve i name clock s))"
    by (simp add: name clock reserve_eq Let_def)
  have same: "watermark_of i name (snd (reserve i name clock s)) = watermark_of i name ?s1"
    by (auto simp: name clock reserve_eq Let_def watermark_of_def publishWatermark_def cached_or_zero_def
        case_prod_beta cacheGet_def resolveScope_def owner_scope_def update_conv' split: option.split)
  show "committed i (snd (reserve i name clock s)) name = Some (fst (reserve i name clock s))"
    using reads by (fastforce simp: committed_def same pending split: option.split)
qed

lemma reserve_pending_other:
  "k' \<noteq> name \<Longrightarrow> ms_pending (snd (reserve i name clock s)) k' = ms_pending s k'"
  by (cases name; cases clock) (auto simp: reserve_eq Let_def)

lemma committed_reserve_any:
  assumes "mono_ok s" "committed i s k' = Some l"
  shows "\<exists>l'\<ge>l. committed i (snd (reserve i name clock s)) k' = Some l'"
proof (cases "k' = name")
  case True
  then show ?thesis using committed_reserve(1,2) [OF assms(1)] assms(2) by (metis less_imp_le)
next
  case False
  then show ?thesis
    using committed_mono [OF assms(1) reserve_ok [OF assms(1)] reserve_pending_other reserve_entries assms(2)]
    by blast
qed

lemma committed_end_section:
  assumes "mono_ok s" "committed i s k' = Some l"
  shows "\<exists>l'\<ge>l. committed i (end_section i now name s) k' = Some l'"
proof (cases "k' = name")
  case True
  then show ?thesis using end_section_covers [OF assms(1), of i k' l now] assms(2)
    by (fastforce simp: committed_def)
next
  case False
  then have "ms_pending (end_section i now name s) k' = ms_pending s k'" by simp
  from committed_mono [OF assms(1) end_section_ok [OF assms(1)] this end_section_entries assms(2)]
  show ?thesis .
qed

lemma profile_entries_le:
  "mono_harmless (CacheOp p) \<Longrightarrow> entries_le (mirror (tabs w i)) (mirror (tabs (profile_step jl p w) i))"
  by (cases p) (auto simp: entries_le_tab_step keeps_watermarks_deletes)

lemma committed_other:
  assumes "mono_ok s" "mono_harmless p" "committed i s k = Some l"
  shows "\<exists>l'\<ge>l. committed i (mono_step jl i p s) k = Some l'"
proof (cases p)
  case (EndSection now name)
  then show ?thesis using committed_end_section [OF assms(1,3)] by simp
next
  case (CacheOp q)
  with assms(2) have q: "mono_harmless (CacheOp q)" by simp
  have "mono_ok (mono_step jl i p s)" using profile_ok_step [OF assms(1) q] CacheOp by simp
  from committed_mono [OF assms(1) this _ _ assms(3)] show ?thesis
    using profile_entries_le [OF q] CacheOp by simp
qed

lemma mono_step_ok: "mono_ok s \<Longrightarrow> mono_harmless p \<Longrightarrow> mono_ok (mono_step jl i p s)"
  by (cases p) (auto simp: end_section_ok simp del: mono_harmless.simps intro!: profile_ok_step)

interpretation tab_publish: stamper
  "committed i" "reserve i" "\<lambda>(now, relayAt). max now (relayAt + 1)" "mono_step jl i" mono_ok mono_harmless
  for i jl
proof unfold_locales
  fix s k k' l p and clock :: "int \<times> int"
  assume ok: "mono_ok s"
  show "committed i s k = Some l \<Longrightarrow> l < fst (reserve i k clock s)" by (rule committed_reserve(1) [OF ok])
  show "(case clock of (now, relayAt) \<Rightarrow> max now (relayAt + 1)) \<le> fst (reserve i k clock s)"
    using committed_reserve(3) [OF ok, of clock i k] by (simp add: case_prod_beta)
  show "committed i (snd (reserve i k clock s)) k = Some (fst (reserve i k clock s))"
    by (rule committed_reserve(2) [OF ok])
  show "committed i s k' = Some l \<Longrightarrow> \<exists>l'\<ge>l. committed i (snd (reserve i k clock s)) k' = Some l'"
    by (rule committed_reserve_any [OF ok])
  show "mono_ok (snd (reserve i k clock s))" by (rule reserve_ok [OF ok])
  show "mono_harmless p \<Longrightarrow> committed i s k = Some l \<Longrightarrow> \<exists>l'\<ge>l. committed i (mono_step jl i p s) k = Some l'"
    by (rule committed_other [OF ok])
  show "mono_harmless p \<Longrightarrow> mono_ok (mono_step jl i p s)" by (rule mono_step_ok [OF ok])
qed

lemma mono_run_stamp_all: "mono_run jl i rs s = tab_publish.stamp_all i jl rs s"
proof (induction jl i rs s rule: mono_run.induct)
  case (2 jl i name clock rs s)
  then show ?case by (cases "reserve i name clock s") simp
qed simp_all

fun run_harmless :: "(lock_name \<times> int \<times> int + mono_other) list \<Rightarrow> bool" where
  "run_harmless [] = True"
| "run_harmless (Inl _ # rs) = run_harmless rs"
| "run_harmless (Inr p # rs) = (mono_harmless p \<and> run_harmless rs)"

lemma run_harmless_iff: "tab_publish.all_harmless rs = run_harmless rs"
  by (induction rs rule: run_harmless.induct) simp_all


lemma reserve_none_pending:
  "ms_pending s (owner, address) = None \<Longrightarrow>
   fst (reserve i (owner, address) (now, relayAt) s)
   = max now (max (case watermark_of i (owner, address) s of Some w \<Rightarrow> w | None \<Rightarrow> 0) relayAt + 1)"
  by (auto simp: reserve_eq end_section_def Let_def publishWatermark_def cached_or_zero_def cacheGet_def
      resolveScope_def owner_scope_def watermark_of_def split: option.split)

lemma land_all_mirror: "mirror (tabs (run_profile jl (map Land is) w) j) = mirror (tabs w j)"
  by (induction "is" arbitrary: w) simp_all

text \<open>
  (C37) Two tabs do reserve the same stamp. The watermark is read from a tab's own mirror, which
  learns of another tab's writes only at boot, so a second tab that takes the lock after the first
  has released it, with every disk write of the first landed, computes the very stamp the first one
  signed, when the relays do not show the first event yet and the clock reads the same second.
\<close>

theorem tabs_reserve_same_stamp:
  assumes "i \<noteq> j" "ms_pending s (owner, address) = None"
    and same: "watermark_of j (owner, address) s = watermark_of i (owner, address) s"
    and s1: "s1 = end_section i now (owner, address) (snd (reserve i (owner, address) (now, relayAt) s))"
    and s2: "s2 = s1\<lparr>ms_profile := run_profile jl (map Land is) (ms_profile s1)\<rparr>"
  shows "fst (reserve j (owner, address) (now, relayAt) s2) = fst (reserve i (owner, address) (now, relayAt) s)"
proof -
  have none: "ms_pending s2 (owner, address) = None" unfolding s2 s1 by simp
  have "mirror (tabs (ms_profile s1) j) = mirror (tabs (ms_profile s) j)"
    using assms(1,2) unfolding s1
    by (simp add: end_section_def reserve_eq Let_def)
  then have "watermark_of j (owner, address) s2 = watermark_of i (owner, address) s"
    using same unfolding s2 by (simp add: watermark_of_def land_all_mirror)
  then show ?thesis using none assms(2) by (simp add: reserve_none_pending)
qed

section \<open>Concrete runs\<close>

definition sample_mono :: mono_state where
  "sample_mono = \<lparr>ms_profile = booted [], ms_pending = \<lambda>_. None\<rparr>"

lemma sample_mono_ok: "mono_ok sample_mono"
  by (simp add: sample_mono_def mono_ok_def booted_def fresh_tab_def tab_ok_def plain_def)


lemma tabs_reserve_same_stamp_witness:
  "let name = (''a'', ''31600:a:x'');
       s1 = end_section 0 100 name (snd (reserve 0 name (100, 0) sample_mono));
       s2 = s1\<lparr>ms_profile := run_profile nat (map Land [0]) (ms_profile s1)\<rparr>
   in fst (reserve 1 name (100, 0) s2) = fst (reserve 0 name (100, 0) sample_mono)"
  unfolding Let_def
  by (rule tabs_reserve_same_stamp [OF _ _ _ refl refl])
    (simp_all add: sample_mono_def watermark_of_def booted_def)

end
