(* ===== verification/Outbox.thy ===== *)
theory Outbox
  imports Monotonic Json "HOL-Library.Sublist"
begin

text \<open>
  The durable outbox of the app (\<open>packages/app/src/lib/nostr/publish-queue.ts\<close>) with the publish
  fan-out it reads (\<open>publishSigned\<close> in \<open>nostr/ndk.ts\<close>) and the classification of relay refusals
  (\<open>nostr/errors.ts\<close>).

  The store is the list of its rows in key order, one per event id, as IndexedDB returns them. The
  relays and NDK's choice of a relay set are arguments (\<open>network\<close>). A flush works from one snapshot
  of the store while other calls of the app run: the environment of a flush says, for every row,
  what happens before it is looked at, while it is being published, and between the check that it is
  still queued and the write that follows, and which accesses to the storage are refused.
  Timers, the Web Lock and the optimistic local echo are not modelled, except that a flush that does
  not get the lock does nothing.
\<close>

section \<open>Relay refusals\<close>

definition lower_ascii :: "char \<Rightarrow> char" where
  "lower_ascii c = (if 65 \<le> (of_char c :: nat) \<and> (of_char c :: nat) \<le> 90
                    then char_of ((of_char c :: nat) + 32) else c)"

definition word_char :: "char \<Rightarrow> bool" where
  "word_char c \<longleftrightarrow> is_digit c \<or> c = CHR ''_'' \<or> c \<in> set ''abcdefghijklmnopqrstuvwxyz''
     \<or> c \<in> set ''ABCDEFGHIJKLMNOPQRSTUVWXYZ''"

text \<open>\<open>/p/i.test(s)\<close> and \<open>/\bp\b/i.test(s)\<close> for a literal \<open>p\<close> in lower case.\<close>

definition occurs_at :: "string \<Rightarrow> nat \<Rightarrow> string \<Rightarrow> bool" where
  "occurs_at p i s \<longleftrightarrow> take (length p) (drop i (map lower_ascii s)) = p"

definition re_literal :: "string \<Rightarrow> string \<Rightarrow> bool" where
  "re_literal p s \<longleftrightarrow> list_ex (\<lambda>i. occurs_at p i s) [0..<Suc (length s)]"

definition re_word :: "string \<Rightarrow> string \<Rightarrow> bool" where
  "re_word p s \<longleftrightarrow> list_ex (\<lambda>i. occurs_at p i s
       \<and> (i = 0 \<or> \<not> word_char (s ! (i - 1)))
       \<and> (i + length p = length s \<or> \<not> word_char (s ! (i + length p)))) [0..<Suc (length s)]"

definition PERMANENT_RELAY_REFUSALS :: "(string \<Rightarrow> bool) list" where
  "PERMANENT_RELAY_REFUSALS =
     [re_word ''blocked'', re_word ''invalid'', re_word ''restricted'', re_word ''pow'',
      \<lambda>s. re_literal ''auth-required'' s \<or> re_literal ''authrequired'' s,
      \<lambda>s. re_word ''mute'' s \<or> re_word ''muted'' s, re_word ''shunned'', re_word ''duplicate'']"

definition isRetryableRelayFailure :: "string option \<Rightarrow> bool" where
  "isRetryableRelayFailure reason =
     (case reason of
        None \<Rightarrow> True
      | Some r \<Rightarrow> r = '''' \<or> \<not> list_ex (\<lambda>re. re r) PERMANENT_RELAY_REFUSALS)"

section \<open>Publishing to relays\<close>

record relay_outcome =
  ro_url :: string
  ro_ok :: bool
  ro_reason :: "string option"

record network =
  from_urls :: "string list \<Rightarrow> string list"
  pool_for :: "minimal_event \<Rightarrow> string list"
  answer :: "minimal_event \<Rightarrow> string \<Rightarrow> bool \<times> string option"

definition relaySet :: "network \<Rightarrow> string list option \<Rightarrow> string list option" where
  "relaySet net urls = (case urls of
      None \<Rightarrow> None
    | Some us \<Rightarrow> if us = [] then None else Some (from_urls net us))"

definition ask_relay :: "network \<Rightarrow> minimal_event \<Rightarrow> string \<Rightarrow> relay_outcome" where
  "ask_relay net event u =
     (let (yes, reason) = answer net event u in \<lparr>ro_url = u, ro_ok = yes, ro_reason = reason\<rparr>)"

definition declined_text :: "relay_outcome \<Rightarrow> string" where
  "declined_text r = ro_url r @ '': '' @ (case ro_reason r of Some t \<Rightarrow> t | None \<Rightarrow> ''declined'')"

definition publishSigned :: "network \<Rightarrow> minimal_event \<Rightarrow> string list option \<Rightarrow> string + relay_outcome list" where
  "publishSigned net event relays =
     (let targets = (case relaySet net relays of Some us \<Rightarrow> us | None \<Rightarrow> pool_for net event)
      in if targets = [] then Inl ''Not enough relays received the event (no relays)''
         else let outcomes = map (ask_relay net event) targets
              in if list_ex ro_ok outcomes then Inr outcomes
                 else Inl (''Not enough relays received the event (0 published, 1 required): ''
                           @ js_join ''; '' (map declined_text outcomes)))"

definition stillMissing :: "relay_outcome list \<Rightarrow> string list" where
  "stillMissing outcomes =
     map ro_url (filter (\<lambda>r. \<not> ro_ok r \<and> isRetryableRelayFailure (ro_reason r)) outcomes)"

section \<open>The store\<close>

record queued_item =
  qi_event :: minimal_event
  qi_relays :: "string list option"
  qi_queuedAt :: int
  qi_attempts :: "nat option"
  qi_lastAttemptAt :: "int option"
  qi_failed :: bool
  qi_lastError :: "string option"
  qi_owner :: "string option"
  qi_partial :: bool

definition MAX_FLUSH_ATTEMPTS :: nat where
  "MAX_FLUSH_ATTEMPTS = 5"

abbreviation row_id :: "queued_item \<Rightarrow> string" where
  "row_id r \<equiv> ev_id (qi_event r)"

fun put_row :: "queued_item \<Rightarrow> queued_item list \<Rightarrow> queued_item list" where
  "put_row r [] = [r]"
| "put_row r (x # xs) =
     (if row_id r = row_id x then r # xs
      else if row_id r < row_id x then r # x # xs
      else x # put_row r xs)"

definition delete_row :: "string \<Rightarrow> queued_item list \<Rightarrow> queued_item list" where
  "delete_row i rs = filter (\<lambda>r. row_id r \<noteq> i) rs"

definition get_row :: "string \<Rightarrow> queued_item list \<Rightarrow> queued_item option" where
  "get_row i rs = List.find (\<lambda>r. row_id r = i) rs"

text \<open>
  The tab that runs the outbox: its rows, the ids discarded while a flush runs, its cache, and a
  log of what left it: the rows handed to the relays, and the events a relay accepted.
\<close>

record outbox =
  ob_rows :: "queued_item list"
  ob_discarded :: "string list option"
  ob_tab :: "int tab"
  ob_sends :: "queued_item list"
  ob_accepted :: "string list"

definition activeCacheOwner :: "outbox \<Rightarrow> string option" where
  "activeCacheOwner st = activeOwner (ob_tab st)"

definition ownedBy :: "queued_item \<Rightarrow> string option \<Rightarrow> bool" where
  "ownedBy r active \<longleftrightarrow> qi_owner r \<noteq> None \<and> qi_owner r = active"

definition set_rows :: "queued_item list \<Rightarrow> outbox \<Rightarrow> outbox" where
  "set_rows rs st = st\<lparr>ob_rows := rs\<rparr>"

section \<open>The outbox interface of the user\<close>

definition noteDiscarded :: "string \<Rightarrow> outbox \<Rightarrow> outbox" where
  "noteDiscarded i st = st\<lparr>ob_discarded := map_option (\<lambda>ds. i # ds) (ob_discarded st)\<rparr>"

definition discardQueued :: "string \<Rightarrow> outbox \<Rightarrow> outbox" where
  "discardQueued i st = set_rows (delete_row i (ob_rows st)) (noteDiscarded i st)"

definition discardQueuedForOwner :: "string \<Rightarrow> outbox \<Rightarrow> nat \<times> outbox" where
  "discardQueuedForOwner owner st =
     (let mine = filter (\<lambda>r. qi_owner r = Some owner) (ob_rows st);
          ids = map row_id mine
      in (length mine,
          fold (\<lambda>i st. set_rows (delete_row i (ob_rows st)) st) ids (fold noteDiscarded ids st)))"

definition retry_row :: "string \<Rightarrow> outbox \<Rightarrow> outbox" where
  "retry_row i st =
     (case get_row i (ob_rows st) of
        Some r \<Rightarrow> (if qi_failed r
          then set_rows (put_row (r\<lparr>qi_failed := False, qi_attempts := Some 0, qi_lastAttemptAt := None\<rparr>)
                           (ob_rows st)) st
          else st)
      | None \<Rightarrow> st)"

definition listQueued :: "outbox \<Rightarrow> queued_item list" where
  "listQueued st = sort_by (\<lambda>a b. qi_queuedAt a \<le> qi_queuedAt b)
     (filter (\<lambda>r. ownedBy r (activeCacheOwner st) \<and> \<not> qi_partial r) (ob_rows st))"

definition countQueuedForOwner :: "string \<Rightarrow> outbox \<Rightarrow> nat" where
  "countQueuedForOwner owner st =
     length (filter (\<lambda>r. qi_owner r = Some owner \<and> \<not> qi_partial r) (ob_rows st))"

definition hasPendingPublishFor :: "int \<Rightarrow> string \<Rightarrow> string \<Rightarrow> outbox \<Rightarrow> bool" where
  "hasPendingPublishFor kind author d st =
     list_ex (\<lambda>r. ownedBy r (activeCacheOwner st) \<and> \<not> qi_failed r
        \<and> me_kind (qi_event r) = kind \<and> me_pubkey (qi_event r) = author
        \<and> list_ex (\<lambda>t. t \<noteq> [] \<and> hd t = ''d'' \<and> 2 \<le> length t \<and> t ! 1 = d) (me_tags (qi_event r)))
       (ob_rows st)"

text \<open>What else may touch the store while a flush or a publish is waiting.\<close>

datatype user_op =
    Discard string
  | DiscardOwner string
  | Retry string
  | PutRow queued_item
  | ElsewhereDeletes string
  | SwitchAccount "string option"

fun user_step :: "user_op \<Rightarrow> outbox \<Rightarrow> outbox" where
  "user_step (Discard i) st = discardQueued i st"
| "user_step (DiscardOwner owner) st = snd (discardQueuedForOwner owner st)"
| "user_step (Retry i) st = retry_row i st"
| "user_step (PutRow r) st = set_rows (put_row r (ob_rows st)) st"
| "user_step (ElsewhereDeletes i) st = set_rows (delete_row i (ob_rows st)) st"
| "user_step (SwitchAccount pk) st = st\<lparr>ob_tab := setActiveCacheOwner pk (ob_tab st)\<rparr>"

definition user_run :: "user_op list \<Rightarrow> outbox \<Rightarrow> outbox" where
  "user_run ops st = fold user_step ops st"

section \<open>Publishing, or queueing\<close>

definition PUBLISH_BACKOFFS_MS :: "int list" where
  "PUBLISH_BACKOFFS_MS = [500, 2000]"

text \<open>
  The stragglers of a publish that reached a relay. A storage error is swallowed: the event is out.
\<close>

definition queueUndelivered ::
  "int \<Rightarrow> bool \<Rightarrow> minimal_event \<Rightarrow> relay_outcome list \<Rightarrow> string \<Rightarrow> outbox \<Rightarrow> outbox" where
  "queueUndelivered now storage_fails event outcomes owner st =
     (let missing = stillMissing outcomes;
          existing = get_row (ev_id event) (ob_rows st)
      in if missing = [] \<or> storage_fails then st
         else case existing of
           Some r \<Rightarrow>
             (if \<not> qi_partial r then st
              else set_rows (put_row (r\<lparr>qi_event := event,
                       qi_relays := Some (js_distinct ((case qi_relays r of Some us \<Rightarrow> us | None \<Rightarrow> []) @ missing)),
                       qi_attempts := Some (case qi_attempts r of Some n \<Rightarrow> n | None \<Rightarrow> 0),
                       qi_partial := True, qi_owner := Some owner\<rparr>) (ob_rows st)) st)
         | None \<Rightarrow>
             set_rows (put_row \<lparr>qi_event = event, qi_relays = Some (js_distinct missing), qi_queuedAt = now,
                 qi_attempts = Some 0, qi_lastAttemptAt = None, qi_failed = False, qi_lastError = None,
                 qi_owner = Some owner, qi_partial = True\<rparr> (ob_rows st)) st)"

text \<open>One entry per attempt: what happens before it resolves, and how the relays answer.\<close>

fun publish_loop ::
  "int \<Rightarrow> bool \<Rightarrow> minimal_event \<Rightarrow> string list option \<Rightarrow> string \<Rightarrow> (user_op list \<times> network) list
     \<Rightarrow> outbox \<Rightarrow> bool \<times> outbox" where
  "publish_loop now storage_fails event relays owner [] st = (False, st)"
| "publish_loop now storage_fails event relays owner ((meanwhile, net) # attempts) st =
     (let st1 = user_run meanwhile st
      in case publishSigned net event relays of
           Inr outcomes \<Rightarrow> (True, queueUndelivered now storage_fails event outcomes owner
             (st1\<lparr>ob_accepted := ob_accepted st1 @ [ev_id event]\<rparr>))
         | Inl _ \<Rightarrow> publish_loop now storage_fails event relays owner attempts st1)"

text \<open>The last put is not guarded: a storage that refuses it makes the call reject.\<close>

definition publishOrQueue ::
  "int \<Rightarrow> bool \<Rightarrow> bool \<Rightarrow> (nat \<Rightarrow> user_op list \<times> network) \<Rightarrow> minimal_event \<Rightarrow> string list option
     \<Rightarrow> outbox \<Rightarrow> (string + bool) \<times> outbox" where
  "publishOrQueue now online storage_fails attempt event relays st =
     (let owner = (case activeCacheOwner st of Some a \<Rightarrow> a | None \<Rightarrow> me_pubkey event);
          (sent, st1) = (if online
             then publish_loop now storage_fails event relays owner
                    (map attempt [0..<Suc (length PUBLISH_BACKOFFS_MS)]) st
             else (False, st))
      in if sent then (Inr True, st1)
         else if storage_fails then (Inl ''storage'', st1)
         else (Inr False, set_rows (put_row \<lparr>qi_event = event, qi_relays = relays, qi_queuedAt = now,
                 qi_attempts = Some 0, qi_lastAttemptAt = None, qi_failed = False, qi_lastError = None,
                 qi_owner = Some owner, qi_partial = False\<rparr> (ob_rows st1)) st1))"

section \<open>Flushing\<close>

definition FLUSH_BACKOFF_MS :: "int list" where
  "FLUSH_BACKOFF_MS = [0, 15000, 60000, 5 * 60000, 15 * 60000]"

definition attempts_of :: "queued_item \<Rightarrow> nat" where
  "attempts_of r = (case qi_attempts r of Some n \<Rightarrow> n | None \<Rightarrow> 0)"

definition flush_wait :: "nat \<Rightarrow> int" where
  "flush_wait attempts = FLUSH_BACKOFF_MS ! min attempts (length FLUSH_BACKOFF_MS - 1)"

definition readyToFlush :: "queued_item \<Rightarrow> int \<Rightarrow> bool" where
  "readyToFlush r now \<longleftrightarrow>
     (case qi_lastAttemptAt r of Some t \<Rightarrow> t | None \<Rightarrow> qi_queuedAt r) + flush_wait (attempts_of r) \<le> now"

record flush_env =
  fe_net :: network
  fe_before :: "string \<Rightarrow> user_op list"
  fe_during :: "string \<Rightarrow> user_op list"
  fe_late :: "string \<Rightarrow> user_op list"
  fe_read_fails :: "string \<Rightarrow> bool"
  fe_write_fails :: "string \<Rightarrow> bool"
  fe_storage_error :: string

record flush_result =
  fr_sent :: nat
  fr_remaining :: nat
  fr_failed :: nat

definition stillQueued :: "flush_env \<Rightarrow> string \<Rightarrow> outbox \<Rightarrow> bool" where
  "stillQueued env i st \<longleftrightarrow>
     (case ob_discarded st of Some ds \<Rightarrow> i \<notin> set ds | None \<Rightarrow> True)
     \<and> \<not> fe_read_fails env i \<and> get_row i (ob_rows st) \<noteq> None"

definition tally :: "queued_item \<Rightarrow> bool \<Rightarrow> flush_result \<Rightarrow> flush_result" where
  "tally r isFailed res =
     (if qi_partial r then res
      else if isFailed then res\<lparr>fr_failed := Suc (fr_failed res)\<rparr>
      else res\<lparr>fr_remaining := Suc (fr_remaining res)\<rparr>)"

text \<open>The writes of a flush: refused ones leave the store as it is.\<close>

definition flush_delete :: "flush_env \<Rightarrow> string \<Rightarrow> outbox \<Rightarrow> outbox" where
  "flush_delete env i st = (if fe_write_fails env i then st else set_rows (delete_row i (ob_rows st)) st)"

definition flush_put :: "flush_env \<Rightarrow> queued_item \<Rightarrow> outbox \<Rightarrow> outbox" where
  "flush_put env r st =
     (let st1 = user_run (fe_late env (row_id r)) st
      in if fe_write_fails env (row_id r) then st1 else set_rows (put_row r (ob_rows st1)) st1)"

text \<open>The \<open>catch\<close> branch: another attempt is spent.\<close>

definition flush_failure ::
  "flush_env \<Rightarrow> int \<Rightarrow> string \<Rightarrow> queued_item \<Rightarrow> outbox \<times> flush_result \<Rightarrow> outbox \<times> flush_result" where
  "flush_failure env now err r = (\<lambda>(st, res).
     (let attempts = Suc (attempts_of r); failed = (MAX_FLUSH_ATTEMPTS \<le> attempts)
      in if failed \<and> qi_partial r then (flush_delete env (row_id r) st, res)
         else if \<not> stillQueued env (row_id r) st then (st, res)
         else (flush_put env (r\<lparr>qi_attempts := Some attempts, qi_lastAttemptAt := Some now,
                 qi_failed := failed, qi_lastError := Some err\<rparr>) st,
               tally r failed res)))"

definition note_accepted :: "int \<Rightarrow> queued_item \<Rightarrow> outbox \<Rightarrow> outbox" where
  "note_accepted now r st =
     st\<lparr>ob_tab := noteAcceptedEvent now (qi_event r) (qi_owner r) (ob_tab st),
        ob_accepted := ob_accepted st @ [row_id r]\<rparr>"

text \<open>The \<open>try\<close> branch once a relay has taken the event.\<close>

definition flush_success ::
  "flush_env \<Rightarrow> int \<Rightarrow> relay_outcome list \<Rightarrow> queued_item \<Rightarrow> outbox \<times> flush_result \<Rightarrow> outbox \<times> flush_result" where
  "flush_success env now outcomes r = (\<lambda>(st, res).
     (let missing = stillMissing outcomes;
          st1 = note_accepted now r st;
          counted = res\<lparr>fr_sent := Suc (fr_sent res)\<rparr>
      in if missing = [] then
           (if fe_write_fails env (row_id r) then flush_failure env now (fe_storage_error env) r (st1, res)
            else (flush_delete env (row_id r) st1, counted))
         else if \<not> stillQueued env (row_id r) st1 then (st1, counted)
         else if MAX_FLUSH_ATTEMPTS \<le> Suc (attempts_of r)
           then (flush_delete env (row_id r) (user_run (fe_late env (row_id r)) st1), counted)
         else (flush_put env (r\<lparr>qi_relays := Some missing, qi_attempts := Some (Suc (attempts_of r)),
                 qi_lastAttemptAt := Some now, qi_failed := False, qi_partial := True\<rparr>) st1, counted)))"

definition flush_item ::
  "flush_env \<Rightarrow> int \<Rightarrow> string option \<Rightarrow> queued_item \<Rightarrow> outbox \<times> flush_result \<Rightarrow> outbox \<times> flush_result" where
  "flush_item env now active r = (\<lambda>(st, res).
     (if qi_owner r = None then (flush_delete env (row_id r) st, res)
      else if \<not> ownedBy r active then (st, res)
      else if qi_failed r then (st, tally r True res)
      else if \<not> readyToFlush r now then (st, tally r False res)
      else let st1 = user_run (fe_before env (row_id r)) st
           in if \<not> stillQueued env (row_id r) st1 then (st1, res)
              else let st2 = user_run (fe_during env (row_id r)) (st1\<lparr>ob_sends := ob_sends st1 @ [r]\<rparr>)
                   in case publishSigned (fe_net env) (qi_event r) (qi_relays r) of
                        Inr outcomes \<Rightarrow> flush_success env now outcomes r (st2, res)
                      | Inl err \<Rightarrow> flush_failure env now err r (st2, res)))"

definition no_result :: flush_result where
  "no_result = \<lparr>fr_sent = 0, fr_remaining = 0, fr_failed = 0\<rparr>"

definition flushQueueSnapshot :: "flush_env \<Rightarrow> int \<Rightarrow> outbox \<Rightarrow> outbox \<times> flush_result" where
  "flushQueueSnapshot env now st =
     (let active = activeCacheOwner st;
          items = sort_by (\<lambda>a b. qi_queuedAt a \<le> qi_queuedAt b) (ob_rows st)
      in fold (flush_item env now active) items (st, no_result))"

definition flushQueueCore :: "flush_env \<Rightarrow> int \<Rightarrow> outbox \<Rightarrow> outbox \<times> flush_result" where
  "flushQueueCore env now st =
     (let (st', res) = flushQueueSnapshot env now (st\<lparr>ob_discarded := Some []\<rparr>)
      in (st'\<lparr>ob_discarded := None\<rparr>, res))"

definition flushQueue :: "bool \<Rightarrow> flush_env \<Rightarrow> int \<Rightarrow> outbox \<Rightarrow> outbox \<times> flush_result \<times> bool" where
  "flushQueue lock_free env now st =
     (if lock_free then let (st', res) = flushQueueCore env now st in (st', res, False)
      else (st, no_result, True))"

definition retryFailed :: "bool \<Rightarrow> flush_env \<Rightarrow> int \<Rightarrow> string \<Rightarrow> outbox \<Rightarrow> outbox \<times> flush_result \<times> bool" where
  "retryFailed lock_free env now i st = flushQueue lock_free env now (retry_row i st)"

text \<open>The periodic sweep flushes only when the active account has something due.\<close>

definition sweep_due :: "int \<Rightarrow> outbox \<Rightarrow> bool" where
  "sweep_due now st \<longleftrightarrow>
     list_ex (\<lambda>r. \<not> qi_failed r \<and> ownedBy r (activeCacheOwner st) \<and> readyToFlush r now) (ob_rows st)"

section \<open>Rows\<close>

lemma get_row_simps [simp]:
  "get_row i [] = None"
  "get_row i (r # rs) = (if row_id r = i then Some r else get_row i rs)"
  by (simp_all add: get_row_def)

lemma get_row_put [simp]: "get_row i (put_row r rs) = (if i = row_id r then Some r else get_row i rs)"
  by (induction rs) auto

lemma get_row_delete [simp]: "get_row i (delete_row j rs) = (if i = j then None else get_row i rs)"
  by (induction rs) (auto simp: delete_row_def)

lemma get_row_None: "get_row i rs = None \<longleftrightarrow> i \<notin> row_id ` set rs"
  by (induction rs) auto

lemma get_row_Some: "get_row i rs = Some r \<Longrightarrow> r \<in> set rs \<and> row_id r = i"
  by (auto simp: get_row_def dest: find_Some_in)

lemma get_row_in: "distinct (map row_id rs) \<Longrightarrow> r \<in> set rs \<Longrightarrow> get_row (row_id r) rs = Some r"
  by (induction rs) (auto simp: image_iff)

lemma set_put_row: "set (put_row r rs) \<subseteq> insert r (set rs)"
  by (induction rs) auto

lemma set_rows_simps [simp]:
  "ob_rows (set_rows rs st) = rs" "ob_discarded (set_rows rs st) = ob_discarded st"
  "ob_tab (set_rows rs st) = ob_tab st" "ob_sends (set_rows rs st) = ob_sends st"
  "ob_accepted (set_rows rs st) = ob_accepted st"
  by (simp_all add: set_rows_def)

lemma note_simps [simp]:
  "ob_rows (noteDiscarded i st) = ob_rows st" "ob_tab (noteDiscarded i st) = ob_tab st"
  "ob_sends (noteDiscarded i st) = ob_sends st" "ob_accepted (noteDiscarded i st) = ob_accepted st"
  "ob_discarded (noteDiscarded i st) = map_option (\<lambda>ds. i # ds) (ob_discarded st)"
  by (simp_all add: noteDiscarded_def)

lemma note_fold_simps [simp]:
  "ob_rows (fold noteDiscarded ids st) = ob_rows st" "ob_tab (fold noteDiscarded ids st) = ob_tab st"
  "ob_sends (fold noteDiscarded ids st) = ob_sends st" "ob_accepted (fold noteDiscarded ids st) = ob_accepted st"
  "ob_discarded (fold noteDiscarded ids st) = map_option (\<lambda>ds. rev ids @ ds) (ob_discarded st)"
  by (induction ids arbitrary: st) (auto simp: map_option_case split: option.split)

definition delete_all :: "string list \<Rightarrow> outbox \<Rightarrow> outbox" where
  "delete_all ids st = fold (\<lambda>i st. set_rows (delete_row i (ob_rows st)) st) ids st"

lemma delete_all_simps [simp]:
  "ob_discarded (delete_all ids st) = ob_discarded st" "ob_tab (delete_all ids st) = ob_tab st"
  "ob_sends (delete_all ids st) = ob_sends st" "ob_accepted (delete_all ids st) = ob_accepted st"
  "get_row i (ob_rows (delete_all ids st)) = (if i \<in> set ids then None else get_row i (ob_rows st))"
  unfolding delete_all_def by (induction ids arbitrary: st) simp_all

lemma discardQueuedForOwner_eq:
  "snd (discardQueuedForOwner owner st) =
     (let ids = map row_id (filter (\<lambda>r. qi_owner r = Some owner) (ob_rows st))
      in delete_all ids (fold noteDiscarded ids st))"
  by (simp add: discardQueuedForOwner_def delete_all_def Let_def)

text \<open>The operations leave the log alone; a step spares a row when it does not remove it.\<close>

lemma user_step_log [simp]:
  "ob_sends (user_step p st) = ob_sends st" "ob_accepted (user_step p st) = ob_accepted st"
  by (cases p; simp add: discardQueued_def retry_row_def discardQueuedForOwner_eq Let_def
      split: option.split)+

lemma user_run_simps [simp]:
  "user_run [] st = st" "user_run (p # ops) st = user_run ops (user_step p st)"
  by (simp_all add: user_run_def)

lemma user_run_log [simp]:
  "ob_sends (user_run ops st) = ob_sends st" "ob_accepted (user_run ops st) = ob_accepted st"
  by (induction ops arbitrary: st) simp_all

fun spares :: "string \<Rightarrow> user_op \<Rightarrow> bool" where
  "spares i (Discard j) = (j \<noteq> i)"
| "spares i (DiscardOwner _) = False"
| "spares i (ElsewhereDeletes j) = (j \<noteq> i)"
| "spares i _ = True"

fun leaves :: "string \<Rightarrow> user_op \<Rightarrow> bool" where
  "leaves i (Retry j) = (j \<noteq> i)"
| "leaves i (PutRow r) = (row_id r \<noteq> i)"
| "leaves i p = spares i p"

lemma retry_row_get:
  "get_row j (ob_rows (retry_row i st)) =
     (case get_row i (ob_rows st) of
        Some r \<Rightarrow> if j = i \<and> qi_failed r
          then Some (r\<lparr>qi_failed := False, qi_attempts := Some 0, qi_lastAttemptAt := None\<rparr>)
          else get_row j (ob_rows st)
      | None \<Rightarrow> get_row j (ob_rows st))"
  by (auto simp: retry_row_def split: option.split dest: get_row_Some)

lemma spares_step: "spares i p \<Longrightarrow> get_row i (ob_rows st) \<noteq> None \<Longrightarrow> get_row i (ob_rows (user_step p st)) \<noteq> None"
  by (cases p) (auto simp: discardQueued_def retry_row_get split: option.split)

lemma spares_run:
  "list_all (spares i) ops \<Longrightarrow> get_row i (ob_rows st) \<noteq> None \<Longrightarrow> get_row i (ob_rows (user_run ops st)) \<noteq> None"
  by (induction ops arbitrary: st) (simp_all add: spares_step del: not_None_eq)

lemma leaves_step: "leaves i p \<Longrightarrow> get_row i (ob_rows (user_step p st)) = get_row i (ob_rows st)"
  by (cases p) (auto simp: discardQueued_def retry_row_get split: option.split)

lemma leaves_run: "list_all (leaves i) ops \<Longrightarrow> get_row i (ob_rows (user_run ops st)) = get_row i (ob_rows st)"
  by (induction ops arbitrary: st) (simp_all add: leaves_step)

definition env_all :: "(user_op \<Rightarrow> bool) \<Rightarrow> flush_env \<Rightarrow> bool" where
  "env_all P env \<longleftrightarrow> (\<forall>j. list_all P (fe_before env j) \<and> list_all P (fe_during env j) \<and> list_all P (fe_late env j))"

section \<open>A flush loses nothing\<close>

lemma flush_delete_simps [simp]:
  "ob_sends (flush_delete env j st) = ob_sends st" "ob_accepted (flush_delete env j st) = ob_accepted st"
  "ob_discarded (flush_delete env j st) = ob_discarded st" "ob_tab (flush_delete env j st) = ob_tab st"
  "get_row i (ob_rows (flush_delete env j st)) =
     (if i = j \<and> \<not> fe_write_fails env j then None else get_row i (ob_rows st))"
  by (simp_all add: flush_delete_def)

lemma flush_put_simps [simp]:
  "ob_sends (flush_put env r st) = ob_sends st" "ob_accepted (flush_put env r st) = ob_accepted st"
  "get_row i (ob_rows (flush_put env r st)) =
     (if i = row_id r \<and> \<not> fe_write_fails env (row_id r) then Some r
      else get_row i (ob_rows (user_run (fe_late env (row_id r)) st)))"
  by (simp_all add: flush_put_def Let_def)

lemma note_accepted_simps [simp]:
  "ob_rows (note_accepted now r st) = ob_rows st" "ob_sends (note_accepted now r st) = ob_sends st"
  "ob_accepted (note_accepted now r st) = ob_accepted st @ [row_id r]"
  "ob_discarded (note_accepted now r st) = ob_discarded st"
  by (simp_all add: note_accepted_def)

definition kept :: "string \<Rightarrow> outbox \<Rightarrow> bool" where
  "kept i st \<longleftrightarrow> get_row i (ob_rows st) \<noteq> None \<or> i \<in> set (ob_accepted st)"

lemma kept_run: "list_all (spares i) ops \<Longrightarrow> kept i st \<Longrightarrow> kept i (user_run ops st)"
  unfolding kept_def using spares_run [of i ops st] by (auto simp del: not_None_eq)

lemma kept_put: "env_all (spares i) env \<Longrightarrow> kept i st \<Longrightarrow> kept i (flush_put env r st)"
  using kept_run [of i "fe_late env (row_id r)" st] by (auto simp: kept_def env_all_def)

lemma kept_delete: "kept i st \<Longrightarrow> i \<noteq> j \<or> i \<in> set (ob_accepted st) \<Longrightarrow> kept i (flush_delete env j st)"
  by (auto simp: kept_def)

lemma kept_failure:
  assumes "env_all (spares i) env" "kept i st" "row_id r = i \<Longrightarrow> \<not> qi_partial r \<or> i \<in> set (ob_accepted st)"
  shows "kept i (fst (flush_failure env now err r (st, res)))"
  using assms kept_delete [OF assms(2), of "row_id r" env]
  by (auto simp: flush_failure_def Let_def kept_put)

lemma flush_failure_log [simp]:
  "ob_accepted (fst (flush_failure env now err r (st, res))) = ob_accepted st"
  "ob_sends (fst (flush_failure env now err r (st, res))) = ob_sends st"
  by (simp_all add: flush_failure_def Let_def)

lemma flush_success_log [simp]:
  "ob_accepted (fst (flush_success env now outcomes r (st, res))) = ob_accepted st @ [row_id r]"
  "ob_sends (fst (flush_success env now outcomes r (st, res))) = ob_sends st"
  by (simp_all add: flush_success_def Let_def)

lemma kept_success:
  assumes "env_all (spares i) env" "kept i st"
  shows "kept i (fst (flush_success env now outcomes r (st, res)))"
proof (cases "row_id r = i")
  case True
  then show ?thesis by (simp add: kept_def)
next
  case False
  let ?st1 = "note_accepted now r st"
  have st1: "kept i ?st1" using assms(2) by (auto simp: kept_def)
  have late: "kept i (user_run (fe_late env (row_id r)) ?st1)"
    using kept_run [OF _ st1] assms(1) by (simp add: env_all_def)
  show ?thesis
    using False st1 late kept_failure [OF assms(1) st1, of r]
    by (auto simp: flush_success_def Let_def kept_put [OF assms(1)] intro!: kept_delete)
qed

lemma kept_item:
  assumes "env_all (spares i) env" "kept i st"
    and "row_id r = i \<Longrightarrow> qi_owner r \<noteq> None \<and> \<not> qi_partial r"
  shows "kept i (fst (flush_item env now active r (st, res)))"
proof -
  define st1 where "st1 = user_run (fe_before env (row_id r)) st"
  define st2 where "st2 = user_run (fe_during env (row_id r)) (st1\<lparr>ob_sends := ob_sends st1 @ [r]\<rparr>)"
  have st1: "kept i st1" using assms(1,2) by (simp add: st1_def env_all_def kept_run)
  then have "kept i (st1\<lparr>ob_sends := ob_sends st1 @ [r]\<rparr>)" by (simp add: kept_def)
  then have st2: "kept i st2" using assms(1) by (simp add: st2_def env_all_def kept_run)
  have own: "qi_owner r = None \<Longrightarrow> i \<noteq> row_id r" using assms(3) by auto
  show ?thesis
    unfolding flush_item_def st1_def [symmetric] st2_def [symmetric] prod.case Let_def
    using assms(2) st1 own kept_success [OF assms(1) st2] kept_failure [OF assms(1) st2, of r] assms(3)
    by (auto simp: kept_delete split: sum.split)
qed

lemma kept_fold:
  assumes "env_all (spares i) env" "kept i (fst p)"
    and "\<forall>r\<in>set rs. row_id r = i \<longrightarrow> qi_owner r \<noteq> None \<and> \<not> qi_partial r"
  shows "kept i (fst (fold (flush_item env now active) rs p))"
  using assms(2,3)
proof (induction rs arbitrary: p)
  case (Cons r rs)
  have "kept i (fst (flush_item env now active r p))"
    using kept_item [OF assms(1), of "fst p" r now active "snd p"] Cons.prems by simp
  then show ?case using Cons by simp
qed simp

lemma flush_core_eq:
  "fst (flushQueueCore env now st) =
     (fst (fold (flush_item env now (activeCacheOwner st))
        (sort_by (\<lambda>a b. qi_queuedAt a \<le> qi_queuedAt b) (ob_rows st))
        (st\<lparr>ob_discarded := Some []\<rparr>, no_result)))\<lparr>ob_discarded := None\<rparr>"
  by (simp add: flushQueueCore_def flushQueueSnapshot_def activeCacheOwner_def Let_def case_prod_beta)

lemma same_row: "distinct (map row_id rs) \<Longrightarrow> r \<in> set rs \<Longrightarrow> r' \<in> set rs \<Longrightarrow> row_id r' = row_id r \<Longrightarrow> r' = r"
  by (meson distinct_map inj_onD)

text \<open>
  (C14) A flush never loses a user's action. Whatever the relays answer, whichever accesses to the
  storage are refused, and whatever the app does meanwhile short of discarding it, an event queued
  with an owner is afterwards still in the store or a relay has accepted it.
\<close>

theorem flush_never_loses:
  assumes "distinct (map row_id (ob_rows st))" "r \<in> set (ob_rows st)"
    and "qi_owner r \<noteq> None" "\<not> qi_partial r"
    and "env_all (spares (row_id r)) env"
  shows "(\<exists>x. get_row (row_id r) (ob_rows (fst (flushQueueCore env now st))) = Some x)
    \<or> row_id r \<in> set (ob_accepted (fst (flushQueueCore env now st)))"
proof -
  have "kept (row_id r) (st\<lparr>ob_discarded := Some []\<rparr>)"
    using get_row_in [OF assms(1,2)] by (simp add: kept_def)
  moreover have "\<forall>x\<in>set (sort_by (\<lambda>a b. qi_queuedAt a \<le> qi_queuedAt b) (ob_rows st)).
      row_id x = row_id r \<longrightarrow> qi_owner x \<noteq> None \<and> \<not> qi_partial x"
    using same_row [OF assms(1,2)] assms(3,4) by auto
  ultimately have "kept (row_id r) (fst (flushQueueCore env now st))"
    using kept_fold [OF assms(5), of "(st\<lparr>ob_discarded := Some []\<rparr>, no_result)"]
    unfolding flush_core_eq by (simp add: kept_def)
  then show ?thesis by (auto simp: kept_def)
qed

section \<open>Only the active account's rows go out\<close>

lemma flush_item_sends:
  "ob_sends (fst (flush_item env now active r (st, res))) = ob_sends st
   \<or> ob_sends (fst (flush_item env now active r (st, res))) = ob_sends st @ [r]
     \<and> ownedBy r active \<and> \<not> qi_failed r \<and> readyToFlush r now"
  by (simp add: flush_item_def Let_def split: sum.split)

lemma set_subseq: "subseq xs ys \<Longrightarrow> set xs \<subseteq> set ys"
  by (induction rule: list_emb.induct) auto

lemma distinct_subseq: "subseq xs ys \<Longrightarrow> distinct ys \<Longrightarrow> distinct xs"
  by (induction rule: list_emb.induct) (auto dest: set_subseq)

lemma flush_fold_sends:
  "\<exists>xs. ob_sends (fst (fold (flush_item env now active) rs p)) = ob_sends (fst p) @ xs \<and> subseq xs rs
     \<and> (\<forall>x\<in>set xs. ownedBy x active \<and> \<not> qi_failed x \<and> readyToFlush x now)"
proof (induction rs arbitrary: p)
  case (Cons r rs)
  obtain st res where p: "p = (st, res)" by force
  let ?q = "flush_item env now active r (st, res)"
  from Cons.IH [of ?q] obtain xs where xs:
      "ob_sends (fst (fold (flush_item env now active) rs ?q)) = ob_sends (fst ?q) @ xs"
      "subseq xs rs" "\<forall>x\<in>set xs. ownedBy x active \<and> \<not> qi_failed x \<and> readyToFlush x now" by blast
  from flush_item_sends [of env now active r st res] show ?case
  proof
    assume "ob_sends (fst ?q) = ob_sends st"
    then show ?thesis using xs unfolding p
      by (intro exI [of _ xs]) (simp add: list_emb_Cons)
  next
    assume "ob_sends (fst ?q) = ob_sends st @ [r] \<and> ownedBy r active \<and> \<not> qi_failed r \<and> readyToFlush r now"
    then show ?thesis using xs unfolding p by (intro exI [of _ "r # xs"]) simp
  qed
qed simp

text \<open>A row nobody touches keeps its place while the others are flushed.\<close>

definition untouched :: "flush_env \<Rightarrow> string \<Rightarrow> bool" where
  "untouched env i \<longleftrightarrow> env_all (leaves i) env"

lemma untouched_runs:
  assumes "untouched env i"
  shows "get_row i (ob_rows (user_run (fe_before env j) st)) = get_row i (ob_rows st)"
    and "get_row i (ob_rows (user_run (fe_during env j) st)) = get_row i (ob_rows st)"
    and "get_row i (ob_rows (user_run (fe_late env j) st)) = get_row i (ob_rows st)"
  using assms leaves_run unfolding untouched_def env_all_def by metis+

lemma flush_failure_other:
  "untouched env i \<Longrightarrow> row_id r \<noteq> i \<Longrightarrow>
     get_row i (ob_rows (fst (flush_failure env now err r (st, res)))) = get_row i (ob_rows st)"
  by (auto simp: flush_failure_def Let_def untouched_runs)

lemma flush_item_other:
  "untouched env i \<Longrightarrow> row_id r \<noteq> i \<Longrightarrow>
     get_row i (ob_rows (fst (flush_item env now active r (st, res)))) = get_row i (ob_rows st)"
  by (auto simp: flush_item_def flush_success_def Let_def untouched_runs flush_failure_other split: sum.split)

lemma flush_fold_other:
  "untouched env i \<Longrightarrow> i \<notin> row_id ` set rs \<Longrightarrow>
     get_row i (ob_rows (fst (fold (flush_item env now active) rs p))) = get_row i (ob_rows (fst p))"
proof (induction rs arbitrary: p)
  case (Cons r rs)
  then have "get_row i (ob_rows (fst (flush_item env now active r p))) = get_row i (ob_rows (fst p))"
    using flush_item_other [of env i r now active "fst p" "snd p"] by auto
  then show ?case using Cons by simp
qed simp

lemma flush_fold_foreign:
  assumes "untouched env i" "\<forall>r\<in>set rs. row_id r = i \<longrightarrow> qi_owner r \<noteq> None \<and> \<not> ownedBy r active"
  shows "get_row i (ob_rows (fst (fold (flush_item env now active) rs p))) = get_row i (ob_rows (fst p))"
  using assms(2)
proof (induction rs arbitrary: p)
  case (Cons r rs)
  have "get_row i (ob_rows (fst (flush_item env now active r p))) = get_row i (ob_rows (fst p))"
  proof (cases "row_id r = i")
    case True
    then show ?thesis using Cons.prems by (auto simp: flush_item_def split: prod.split)
  next
    case False
    then show ?thesis
      using flush_item_other [OF assms(1), of r now active "fst p" "snd p"] by simp
  qed
  then show ?case using Cons by simp
qed simp

text \<open>
  On a shared device a flush never publishes another account's actions: everything it hands to
  the relays is a row of the store queued by the account that is active when it starts, still
  alive and due, each at most once; and a row of any other account is left exactly as it is, unless
  the app itself touches it meanwhile.
\<close>

theorem flush_only_own:
  assumes "distinct (map row_id (ob_rows st))"
  shows "(\<exists>xs. ob_sends (fst (flushQueueCore env now st)) = ob_sends st @ xs \<and> distinct xs
        \<and> (\<forall>x\<in>set xs. x \<in> set (ob_rows st) \<and> qi_owner x \<noteq> None \<and> qi_owner x = activeCacheOwner st
              \<and> \<not> qi_failed x \<and> readyToFlush x now))
    \<and> (\<forall>r\<in>set (ob_rows st). qi_owner r \<noteq> None \<and> qi_owner r \<noteq> activeCacheOwner st
          \<and> untouched env (row_id r) \<longrightarrow>
          get_row (row_id r) (ob_rows (fst (flushQueueCore env now st))) = Some r)"
proof
  let ?items = "sort_by (\<lambda>a b. qi_queuedAt a \<le> qi_queuedAt b) (ob_rows st)"
  obtain xs where xs: "ob_sends (fst (flushQueueCore env now st)) = ob_sends st @ xs" "subseq xs ?items"
      "\<forall>x\<in>set xs. ownedBy x (activeCacheOwner st) \<and> \<not> qi_failed x \<and> readyToFlush x now"
    using flush_fold_sends [of env now "activeCacheOwner st" ?items "(st\<lparr>ob_discarded := Some []\<rparr>, no_result)"]
    unfolding flush_core_eq by auto
  have "distinct ?items" using assms by (simp add: distinct_map)
  then have "distinct xs" using xs(2) by (rule distinct_subseq [rotated])
  moreover have "set xs \<subseteq> set (ob_rows st)" using set_subseq [OF xs(2)] by simp
  ultimately show "\<exists>xs. ob_sends (fst (flushQueueCore env now st)) = ob_sends st @ xs \<and> distinct xs
        \<and> (\<forall>x\<in>set xs. x \<in> set (ob_rows st) \<and> qi_owner x \<noteq> None \<and> qi_owner x = activeCacheOwner st
              \<and> \<not> qi_failed x \<and> readyToFlush x now)"
    using xs by (auto simp: ownedBy_def)
next
  let ?items = "sort_by (\<lambda>a b. qi_queuedAt a \<le> qi_queuedAt b) (ob_rows st)"
  show "\<forall>r\<in>set (ob_rows st). qi_owner r \<noteq> None \<and> qi_owner r \<noteq> activeCacheOwner st
          \<and> untouched env (row_id r) \<longrightarrow>
          get_row (row_id r) (ob_rows (fst (flushQueueCore env now st))) = Some r"
  proof (intro ballI impI)
    fix r assume r: "r \<in> set (ob_rows st)"
      and other: "qi_owner r \<noteq> None \<and> qi_owner r \<noteq> activeCacheOwner st \<and> untouched env (row_id r)"
    have "\<forall>x\<in>set ?items. row_id x = row_id r \<longrightarrow> qi_owner x \<noteq> None \<and> \<not> ownedBy x (activeCacheOwner st)"
      using same_row [OF assms r] other by (auto simp: ownedBy_def)
    then show "get_row (row_id r) (ob_rows (fst (flushQueueCore env now st))) = Some r"
      using flush_fold_foreign [of env "row_id r" ?items "activeCacheOwner st"] other get_row_in [OF assms r]
      unfolding flush_core_eq by simp
  qed
qed

section \<open>A discard during a flush\<close>

definition gone :: "string \<Rightarrow> outbox \<Rightarrow> bool" where
  "gone i st \<longleftrightarrow> get_row i (ob_rows st) = None \<and> (\<exists>ds. ob_discarded st = Some ds \<and> i \<in> set ds)"

fun requeues :: "string \<Rightarrow> user_op \<Rightarrow> bool" where
  "requeues i (PutRow r) = (row_id r = i)"
| "requeues i _ = False"

lemma user_step_discarded:
  "\<exists>xs. ob_discarded (user_step p st) = map_option (\<lambda>ds. xs @ ds) (ob_discarded st)"
proof (cases p)
  case (Discard i)
  then show ?thesis by (intro exI [of _ "[i]"]) (simp add: discardQueued_def)
next
  case (DiscardOwner owner)
  then show ?thesis by (auto simp: discardQueuedForOwner_eq Let_def)
qed (rule exI [of _ "[]"]; simp add: retry_row_def option.map_ident split: option.split)+

lemma user_run_flushing: "ob_discarded st = Some ds \<Longrightarrow> \<exists>xs. ob_discarded (user_run ops st) = Some (xs @ ds)"
proof (induction ops arbitrary: st ds)
  case (Cons p ops)
  obtain xs where "ob_discarded (user_step p st) = Some (xs @ ds)"
    using user_step_discarded [of p st] Cons.prems by auto
  then obtain ys where "ob_discarded (user_run ops (user_step p st)) = Some (ys @ xs @ ds)"
    using Cons.IH by blast
  then show ?case by (intro exI [of _ "ys @ xs"]) simp
qed simp

lemma gone_step: "\<not> requeues i p \<Longrightarrow> gone i st \<Longrightarrow> gone i (user_step p st)"
proof -
  assume p: "\<not> requeues i p" and st: "gone i st"
  have "get_row i (ob_rows (user_step p st)) = None"
    using p st by (cases p) (auto simp: gone_def discardQueued_def retry_row_get discardQueuedForOwner_eq
        Let_def split: option.split)
  then show ?thesis using st user_step_discarded [of p st] by (auto simp: gone_def)
qed

lemma gone_run: "list_all (\<lambda>p. \<not> requeues i p) ops \<Longrightarrow> gone i st \<Longrightarrow> gone i (user_run ops st)"
  by (induction ops arbitrary: st) (simp_all add: gone_step)

lemma discard_makes_gone:
  assumes "Discard i \<in> set ops" "list_all (\<lambda>p. \<not> requeues i p) ops" "ob_discarded st = Some ds"
  shows "gone i (user_run ops st)"
proof -
  obtain xs ys where ops: "ops = xs @ Discard i # ys" using assms(1) by (meson split_list)
  let ?st = "user_run xs st"
  obtain ds' where ds': "ob_discarded ?st = Some ds'" using user_run_flushing [OF assms(3)] by blast
  have "gone i (user_step (Discard i) ?st)" by (simp add: gone_def discardQueued_def ds')
  then have "gone i (user_run ys (user_step (Discard i) ?st))"
    using assms(2) by (intro gone_run) (simp_all add: ops)
  then show ?thesis by (simp add: ops user_run_def)
qed

lemma gone_not_queued: "gone i st \<Longrightarrow> \<not> stillQueued env i st"
  by (auto simp: gone_def stillQueued_def)

definition env_never_requeues :: "string \<Rightarrow> flush_env \<Rightarrow> bool" where
  "env_never_requeues i env \<longleftrightarrow> env_all (\<lambda>p. \<not> requeues i p) env"

lemma gone_delete: "gone i st \<Longrightarrow> gone i (flush_delete env j st)"
  by (auto simp: gone_def)

lemma flush_put_discarded:
  "ob_discarded (flush_put env r st) = ob_discarded (user_run (fe_late env (row_id r)) st)"
  by (simp add: flush_put_def Let_def)

lemma gone_put:
  "env_never_requeues i env \<Longrightarrow> row_id r \<noteq> i \<Longrightarrow> gone i st \<Longrightarrow> gone i (flush_put env r st)"
  using gone_run [of i "fe_late env (row_id r)" st]
  by (auto simp: gone_def flush_put_discarded env_never_requeues_def env_all_def)

lemma gone_failure:
  "env_never_requeues i env \<Longrightarrow> gone i st \<Longrightarrow> gone i (fst (flush_failure env now err r (st, res)))"
  using gone_not_queued [of i st env]
  by (cases "row_id r = i") (auto simp: flush_failure_def Let_def gone_put gone_delete)

lemma gone_success:
  assumes "env_never_requeues i env" "gone i st"
  shows "gone i (fst (flush_success env now outcomes r (st, res)))"
proof -
  let ?st1 = "note_accepted now r st"
  have st1: "gone i ?st1" using assms(2) by (simp add: gone_def)
  have late: "gone i (user_run (fe_late env (row_id r)) ?st1)"
    using gone_run [OF _ st1] assms(1) by (simp add: env_never_requeues_def env_all_def)
  show ?thesis
    using gone_not_queued [OF st1, of env] st1 late gone_failure [OF assms(1) st1]
    by (cases "row_id r = i") (auto simp: flush_success_def Let_def gone_put [OF assms(1)] gone_delete)
qed

lemma gone_published:
  assumes "env_never_requeues i env" "gone i st"
  shows "gone i (fst (case publishSigned (fe_net env) (qi_event r) (qi_relays r) of
      Inr outcomes \<Rightarrow> flush_success env now outcomes r (st, res)
    | Inl err \<Rightarrow> flush_failure env now err r (st, res)))"
  using gone_success [OF assms] gone_failure [OF assms] by (simp split: sum.split)

lemma gone_item:
  assumes "env_never_requeues i env" "gone i st"
  shows "gone i (fst (flush_item env now active r (st, res)))"
proof -
  define st1 where "st1 = user_run (fe_before env (row_id r)) st"
  define st2 where "st2 = user_run (fe_during env (row_id r)) (st1\<lparr>ob_sends := ob_sends st1 @ [r]\<rparr>)"
  have st1: "gone i st1" using assms by (simp add: st1_def env_never_requeues_def env_all_def gone_run)
  then have "gone i (st1\<lparr>ob_sends := ob_sends st1 @ [r]\<rparr>)" by (simp add: gone_def)
  then have "gone i st2" using assms(1) by (simp add: st2_def env_never_requeues_def env_all_def gone_run)
  then show ?thesis
    unfolding flush_item_def st1_def [symmetric] st2_def [symmetric] prod.case Let_def
    using assms(2) st1 gone_published [OF assms(1)] by (simp add: gone_delete)
qed

lemma gone_fold:
  "env_never_requeues i env \<Longrightarrow> gone i (fst p) \<Longrightarrow> gone i (fst (fold (flush_item env now active) rs p))"
proof (induction rs arbitrary: p)
  case (Cons r rs)
  then have "gone i (fst (flush_item env now active r p))"
    using gone_item [of i env "fst p" now active r "snd p"] by simp
  then show ?case using Cons by simp
qed simp

lemma flush_failure_discarded:
  "\<exists>ds. ob_discarded st = Some ds \<Longrightarrow> \<exists>ds. ob_discarded (fst (flush_failure env now err r (st, res))) = Some ds"
  using user_run_flushing by (fastforce simp: flush_failure_def Let_def flush_put_discarded)

lemma flush_success_discarded:
  assumes "\<exists>ds. ob_discarded st = Some ds"
  shows "\<exists>ds. ob_discarded (fst (flush_success env now outcomes r (st, res))) = Some ds"
proof -
  have "\<exists>ds. ob_discarded (note_accepted now r st) = Some ds" using assms by simp
  then show ?thesis
    using user_run_flushing [of "note_accepted now r st"] flush_failure_discarded
    by (fastforce simp: flush_success_def Let_def flush_put_discarded)
qed

definition due :: "queued_item \<Rightarrow> string option \<Rightarrow> int \<Rightarrow> bool" where
  "due r active now \<longleftrightarrow> ownedBy r active \<and> \<not> qi_failed r \<and> readyToFlush r now"

lemma flush_item_due:
  assumes "due r active now"
  shows "flush_item env now active r (st, res) =
     (let st1 = user_run (fe_before env (row_id r)) st
      in if \<not> stillQueued env (row_id r) st1 then (st1, res)
         else let st2 = user_run (fe_during env (row_id r)) (st1\<lparr>ob_sends := ob_sends st1 @ [r]\<rparr>)
              in case publishSigned (fe_net env) (qi_event r) (qi_relays r) of
                   Inr outcomes \<Rightarrow> flush_success env now outcomes r (st2, res)
                 | Inl err \<Rightarrow> flush_failure env now err r (st2, res))"
  using assms by (auto simp: flush_item_def due_def ownedBy_def)

lemma flush_item_discarded:
  assumes "\<exists>ds. ob_discarded st = Some ds"
  shows "\<exists>ds. ob_discarded (fst (flush_item env now active r (st, res))) = Some ds"
proof -
  define st1 where "st1 = user_run (fe_before env (row_id r)) st"
  define st2 where "st2 = user_run (fe_during env (row_id r)) (st1\<lparr>ob_sends := ob_sends st1 @ [r]\<rparr>)"
  have st1: "\<exists>ds. ob_discarded st1 = Some ds" using assms user_run_flushing by (force simp: st1_def)
  then have "\<exists>ds. ob_discarded (st1\<lparr>ob_sends := ob_sends st1 @ [r]\<rparr>) = Some ds" by simp
  then have "\<exists>ds. ob_discarded st2 = Some ds" using user_run_flushing unfolding st2_def by blast
  then show ?thesis
    unfolding flush_item_def st1_def [symmetric] st2_def [symmetric] prod.case Let_def
    using assms st1 flush_success_discarded [of st2] flush_failure_discarded [of st2]
    by (simp split: sum.split)
qed

lemma flush_fold_discarded:
  "\<exists>ds. ob_discarded (fst p) = Some ds \<Longrightarrow>
     \<exists>ds. ob_discarded (fst (fold (flush_item env now active) rs p)) = Some ds"
proof (induction rs arbitrary: p)
  case (Cons r rs)
  then show ?case using flush_item_discarded [of "fst p" env now active r "snd p"] by simp
qed simp

lemma discarded_item:
  assumes "due r active now" "env_never_requeues (row_id r) env" "\<exists>ds. ob_discarded st = Some ds"
  shows "Discard (row_id r) \<in> set (fe_before env (row_id r)) \<Longrightarrow>
      gone (row_id r) (fst (flush_item env now active r (st, res)))
      \<and> ob_sends (fst (flush_item env now active r (st, res))) = ob_sends st"
    and "Discard (row_id r) \<in> set (fe_during env (row_id r)) \<Longrightarrow>
      gone (row_id r) (fst (flush_item env now active r (st, res)))
      \<or> ob_sends (fst (flush_item env now active r (st, res))) = ob_sends st"
proof -
  define st1 where "st1 = user_run (fe_before env (row_id r)) st"
  define st2 where "st2 = user_run (fe_during env (row_id r)) (st1\<lparr>ob_sends := ob_sends st1 @ [r]\<rparr>)"
  have item: "flush_item env now active r (st, res) =
      (if \<not> stillQueued env (row_id r) st1 then (st1, res)
       else case publishSigned (fe_net env) (qi_event r) (qi_relays r) of
              Inr outcomes \<Rightarrow> flush_success env now outcomes r (st2, res)
            | Inl err \<Rightarrow> flush_failure env now err r (st2, res))"
    unfolding flush_item_due [OF assms(1)] Let_def st1_def st2_def ..
  have quiet: "list_all (\<lambda>p. \<not> requeues (row_id r) p) (fe_before env (row_id r))"
      "list_all (\<lambda>p. \<not> requeues (row_id r) p) (fe_during env (row_id r))"
    using assms(2) by (auto simp: env_never_requeues_def env_all_def)
  obtain ds where ds: "ob_discarded st = Some ds" using assms(3) by blast
  have sends: "ob_sends st1 = ob_sends st" by (simp add: st1_def)
  {
    assume "Discard (row_id r) \<in> set (fe_before env (row_id r))"
    from discard_makes_gone [OF this quiet(1) ds] have "gone (row_id r) st1" by (simp add: st1_def)
    then show "gone (row_id r) (fst (flush_item env now active r (st, res)))
      \<and> ob_sends (fst (flush_item env now active r (st, res))) = ob_sends st"
      using gone_not_queued [of "row_id r" st1 env] sends by (simp add: item)
  }
  assume during: "Discard (row_id r) \<in> set (fe_during env (row_id r))"
  obtain ds1 where "ob_discarded (st1\<lparr>ob_sends := ob_sends st1 @ [r]\<rparr>) = Some ds1"
    using user_run_flushing [OF ds] by (force simp: st1_def)
  from discard_makes_gone [OF during quiet(2) this] have "gone (row_id r) st2" by (simp add: st2_def)
  from gone_published [OF assms(2) this]
  show "gone (row_id r) (fst (flush_item env now active r (st, res)))
      \<or> ob_sends (fst (flush_item env now active r (st, res))) = ob_sends st"
    using sends unfolding item by auto
qed

text \<open>
  (C34) A discard wins over a flush in progress. A row the user discards before the flush comes to
  it is not published, and one discarded while it is being published is not written back, whatever
  the relays answer and whatever happens to the other rows, unless the app queues it anew.
\<close>

theorem discard_wins:
  assumes distinct: "distinct (map row_id (ob_rows st))" and r: "r \<in> set (ob_rows st)"
    and due: "due r (activeCacheOwner st) now" and never: "env_never_requeues (row_id r) env"
    and new: "r \<notin> set (ob_sends st)"
    and discard: "Discard (row_id r) \<in> set (fe_before env (row_id r))
      \<or> Discard (row_id r) \<in> set (fe_during env (row_id r))
        \<and> r \<in> set (ob_sends (fst (flushQueueCore env now st)))"
  shows "get_row (row_id r) (ob_rows (fst (flushQueueCore env now st))) = None
    \<and> (Discard (row_id r) \<in> set (fe_before env (row_id r)) \<longrightarrow>
         r \<notin> set (ob_sends (fst (flushQueueCore env now st))))"
proof -
  let ?a = "activeCacheOwner st"
  let ?items = "sort_by (\<lambda>a b. qi_queuedAt a \<le> qi_queuedAt b) (ob_rows st)"
  let ?F = "\<lambda>rs p. fold (flush_item env now ?a) rs p"
  have "r \<in> set ?items" using r by simp
  then obtain xs ys where items: "?items = xs @ r # ys" by (meson split_list)
  have "distinct ?items" using distinct by (simp add: distinct_map)
  with items have nin: "r \<notin> set xs" "r \<notin> set ys" by auto
  define p where "p = ?F xs (st\<lparr>ob_discarded := Some []\<rparr>, no_result)"
  define q where "q = flush_item env now ?a r p"
  have final: "fst (flushQueueCore env now st) = (fst (?F ys q))\<lparr>ob_discarded := None\<rparr>"
    unfolding flush_core_eq items by (simp add: p_def q_def)
  have sends_p: "r \<notin> set (ob_sends (fst p))"
    using flush_fold_sends [of env now ?a xs "(st\<lparr>ob_discarded := Some []\<rparr>, no_result)"] new nin(1)
      set_subseq unfolding p_def by fastforce
  have sends_q: "r \<notin> set (ob_sends (fst q)) \<Longrightarrow> r \<notin> set (ob_sends (fst (?F ys q)))"
    using flush_fold_sends [of env now ?a ys q] nin(2) set_subseq by fastforce
  have "\<exists>ds. ob_discarded (fst p) = Some ds" unfolding p_def by (rule flush_fold_discarded) simp
  note item = discarded_item [OF due never this, of "snd p", unfolded prod.collapse, folded q_def]
  have sends: "ob_sends (fst (flushQueueCore env now st)) = ob_sends (fst (?F ys q))"
    by (simp add: final)
  have gone: "gone (row_id r) (fst q)"
    using discard
  proof
    assume "Discard (row_id r) \<in> set (fe_before env (row_id r))"
    then show ?thesis using item(1) by blast
  next
    assume d: "Discard (row_id r) \<in> set (fe_during env (row_id r))
      \<and> r \<in> set (ob_sends (fst (flushQueueCore env now st)))"
    then have "r \<in> set (ob_sends (fst q))" using sends_q unfolding sends by blast
    then show ?thesis using item(2) d sends_p by metis
  qed
  then have "gone (row_id r) (fst (?F ys q))" by (rule gone_fold [OF never])
  moreover have "r \<notin> set (ob_sends (fst (?F ys q)))" if "Discard (row_id r) \<in> set (fe_before env (row_id r))"
    using item(1) [OF that] sends_p sends_q by simp
  ultimately show ?thesis unfolding sends by (simp add: final gone_def)
qed

section \<open>What a flush does to one row\<close>

text \<open>The reference: a row of the store after a flush during which nobody touches it.\<close>

definition row_after :: "network \<Rightarrow> string option \<Rightarrow> int \<Rightarrow> queued_item \<Rightarrow> queued_item option" where
  "row_after net active now r =
     (if qi_owner r = None then None
      else if \<not> due r active now then Some r
      else let attempts = Suc (attempts_of r); last = (MAX_FLUSH_ATTEMPTS \<le> attempts)
           in case publishSigned net (qi_event r) (qi_relays r) of
                Inl err \<Rightarrow>
                  if last \<and> qi_partial r then None
                  else Some (r\<lparr>qi_attempts := Some attempts, qi_lastAttemptAt := Some now,
                         qi_failed := last, qi_lastError := Some err\<rparr>)
              | Inr outcomes \<Rightarrow>
                  if stillMissing outcomes = [] \<or> last then None
                  else Some (r\<lparr>qi_relays := Some (stillMissing outcomes), qi_attempts := Some attempts,
                         qi_lastAttemptAt := Some now, qi_failed := False, qi_partial := True\<rparr>))"

definition live :: "string \<Rightarrow> outbox \<Rightarrow> bool" where
  "live i st \<longleftrightarrow> (case ob_discarded st of Some ds \<Rightarrow> i \<notin> set ds | None \<Rightarrow> True)"

definition quiet_for :: "flush_env \<Rightarrow> string \<Rightarrow> bool" where
  "quiet_for env i \<longleftrightarrow> untouched env i \<and> \<not> fe_read_fails env i \<and> \<not> fe_write_fails env i"

lemma live_step: "leaves i p \<Longrightarrow> live i st \<Longrightarrow> live i (user_step p st)"
  by (cases p) (auto simp: live_def discardQueued_def retry_row_def split: option.splits)

lemma live_run: "list_all (leaves i) ops \<Longrightarrow> live i st \<Longrightarrow> live i (user_run ops st)"
  by (induction ops arbitrary: st) (simp_all add: live_step)

lemma quiet_runs:
  assumes "quiet_for env i" "live i st"
  shows "live i (user_run (fe_before env j) st)" "live i (user_run (fe_during env j) st)"
    "live i (user_run (fe_late env j) st)"
  using assms by (simp_all add: quiet_for_def untouched_def env_all_def live_run)

lemma live_simps [simp]:
  "live i (st\<lparr>ob_sends := xs\<rparr>) = live i st" "live i (note_accepted now r st) = live i st"
  "live i (flush_delete env j st) = live i st" "live i (set_rows rs st) = live i st"
  by (simp_all add: live_def)

lemma live_put: "quiet_for env i \<Longrightarrow> live i st \<Longrightarrow> live i (flush_put env r st)"
  by (simp add: flush_put_def Let_def quiet_runs)

lemma live_failure: "quiet_for env i \<Longrightarrow> live i st \<Longrightarrow> live i (fst (flush_failure env now err r (st, res)))"
  by (simp add: flush_failure_def Let_def live_put)

lemma live_success: "quiet_for env i \<Longrightarrow> live i st \<Longrightarrow> live i (fst (flush_success env now outcomes r (st, res)))"
  by (simp add: flush_success_def Let_def live_put live_failure quiet_runs)

lemma live_item:
  assumes "quiet_for env i" "live i st"
  shows "live i (fst (flush_item env now active r (st, res)))"
proof -
  define st1 where "st1 = user_run (fe_before env (row_id r)) st"
  define st2 where "st2 = user_run (fe_during env (row_id r)) (st1\<lparr>ob_sends := ob_sends st1 @ [r]\<rparr>)"
  have "live i st1" "live i st2" using assms by (simp_all add: st1_def st2_def quiet_runs)
  then show ?thesis
    unfolding flush_item_def st1_def [symmetric] st2_def [symmetric] prod.case Let_def
    using assms by (simp add: live_success live_failure split: sum.split)
qed

lemma live_fold:
  "quiet_for env i \<Longrightarrow> live i (fst p) \<Longrightarrow> live i (fst (fold (flush_item env now active) rs p))"
proof (induction rs arbitrary: p)
  case (Cons r rs)
  then show ?case using live_item [of env i "fst p" now active r "snd p"] by simp
qed simp

lemma flush_item_own:
  assumes "quiet_for env (row_id r)" "live (row_id r) st" "get_row (row_id r) (ob_rows st) = Some r"
  shows "get_row (row_id r) (ob_rows (fst (flush_item env now active r (st, res))))
    = row_after (fe_net env) active now r"
proof (cases "due r active now")
  case True
  define st1 where "st1 = user_run (fe_before env (row_id r)) st"
  define st2 where "st2 = user_run (fe_during env (row_id r)) (st1\<lparr>ob_sends := ob_sends st1 @ [r]\<rparr>)"
  have item: "flush_item env now active r (st, res) =
      (if \<not> stillQueued env (row_id r) st1 then (st1, res)
       else case publishSigned (fe_net env) (qi_event r) (qi_relays r) of
              Inr outcomes \<Rightarrow> flush_success env now outcomes r (st2, res)
            | Inl err \<Rightarrow> flush_failure env now err r (st2, res))"
    unfolding flush_item_due [OF True] Let_def st1_def st2_def ..
  have env: "untouched env (row_id r)" "\<not> fe_read_fails env (row_id r)" "\<not> fe_write_fails env (row_id r)"
    using assms(1) by (simp_all add: quiet_for_def)
  have rows: "get_row (row_id r) (ob_rows st1) = Some r" "get_row (row_id r) (ob_rows st2) = Some r"
    using assms(3) untouched_runs [OF env(1)] by (simp_all add: st1_def st2_def)
  have live: "live (row_id r) st1" "live (row_id r) st2"
    using assms(1,2) by (simp_all add: st1_def st2_def quiet_runs)
  have queued: "stillQueued env (row_id r) st1" "stillQueued env (row_id r) st2"
      "stillQueued env (row_id r) (note_accepted now r st2)"
    using rows live env(2) by (simp_all add: stillQueued_def live_def)
  have own: "qi_owner r \<noteq> None" using True by (auto simp: due_def ownedBy_def)
  show ?thesis
    using True queued rows env(3) own untouched_runs [OF env(1)]
    by (auto simp: item row_after_def flush_failure_def flush_success_def Let_def split: sum.split)
next
  case False
  then show ?thesis
    using assms by (auto simp: flush_item_def row_after_def due_def quiet_for_def)
qed

text \<open>
  (C20) A flush of the whole store is the row-by-row reference: each row nobody touches meanwhile ends
  as \<open>row_after\<close> says of it alone, whatever order the rows are taken in and whatever happens to the
  others; in particular no other row of the store, and no failure of one, affects it.
\<close>

theorem flush_row_by_row:
  assumes "distinct (map row_id (ob_rows st))" "quiet_for env i"
  shows "get_row i (ob_rows (fst (flushQueueCore env now st))) =
    (case get_row i (ob_rows st) of
       None \<Rightarrow> None
     | Some r \<Rightarrow> row_after (fe_net env) (activeCacheOwner st) now r)"
proof -
  let ?a = "activeCacheOwner st"
  let ?items = "sort_by (\<lambda>a b. qi_queuedAt a \<le> qi_queuedAt b) (ob_rows st)"
  let ?F = "\<lambda>rs p. fold (flush_item env now ?a) rs p"
  let ?p0 = "(st\<lparr>ob_discarded := Some []\<rparr>, no_result)"
  have un: "untouched env i" using assms(2) by (simp add: quiet_for_def)
  show ?thesis
  proof (cases "get_row i (ob_rows st)")
    case None
    then have "i \<notin> row_id ` set ?items" by (simp add: get_row_None)
    from flush_fold_other [OF un this, of now ?a ?p0] None show ?thesis
      unfolding flush_core_eq by simp
  next
    case (Some r)
    then have r: "r \<in> set ?items" "row_id r = i" using get_row_Some by auto
    then obtain xs ys where items: "?items = xs @ r # ys" by (meson split_list)
    have "distinct (map row_id ?items)"
      using assms(1) by (simp add: distinct_map)
    then have nin: "i \<notin> row_id ` set xs" "i \<notin> row_id ` set ys" using items r(2) by auto
    define p where "p = ?F xs ?p0"
    have "get_row i (ob_rows (fst p)) = Some r"
      using flush_fold_other [OF un nin(1), of now ?a ?p0] Some by (simp add: p_def)
    moreover have "live i (fst p)"
      unfolding p_def by (rule live_fold [OF assms(2)]) (simp add: live_def)
    ultimately have "get_row i (ob_rows (fst (flush_item env now ?a r p))) = row_after (fe_net env) ?a now r"
      using flush_item_own [of env r "fst p" now ?a "snd p"] assms(2) r(2) by simp
    then show ?thesis
      using flush_fold_other [OF un nin(2), of now ?a "flush_item env now ?a r p"] Some
      unfolding flush_core_eq items by (simp add: p_def)
  qed
qed

section \<open>Repeated flushes\<close>

definition store_ok :: "queued_item list \<Rightarrow> bool" where
  "store_ok rs \<longleftrightarrow> sorted_wrt (<) (map row_id rs)"

lemma store_ok_distinct: "store_ok rs \<Longrightarrow> distinct (map row_id rs)"
  unfolding store_ok_def by (metis strict_sorted_iff)

lemma store_ok_Cons: "store_ok (x # xs) \<longleftrightarrow> (\<forall>y\<in>set xs. row_id x < row_id y) \<and> store_ok xs"
  by (simp add: store_ok_def)

lemma store_ok_put: "store_ok rs \<Longrightarrow> store_ok (put_row r rs)"
proof (induction rs)
  case (Cons x xs)
  then have x: "\<forall>y\<in>set xs. row_id x < row_id y" and xs: "store_ok xs" "store_ok (put_row r xs)"
    by (simp_all add: store_ok_Cons)
  consider "row_id r = row_id x" | "row_id r < row_id x" | "row_id x < row_id r"
    by (rule linorder_cases)
  then show ?case
  proof cases
    case 2
    then have "\<forall>y\<in>set xs. row_id r < row_id y" using x by (meson order.strict_trans)
    with 2 x xs show ?thesis by (simp add: store_ok_Cons)
  next
    case 3
    then have "\<forall>y\<in>set (put_row r xs). row_id x < row_id y" using x set_put_row [of r xs] by blast
    moreover have "\<not> row_id r < row_id x" "row_id r \<noteq> row_id x" using 3 by (simp_all add: less_not_sym)
    ultimately show ?thesis using xs(2) by (simp add: store_ok_Cons)
  qed (use x xs in \<open>simp add: store_ok_Cons\<close>)
qed (simp add: store_ok_def)

lemma store_ok_delete: "store_ok rs \<Longrightarrow> store_ok (delete_row i rs)"
  unfolding store_ok_def delete_row_def by (induction rs) auto

lemma store_ok_delete_all: "store_ok (ob_rows st) \<Longrightarrow> store_ok (ob_rows (delete_all ids st))"
  unfolding delete_all_def by (induction ids arbitrary: st) (simp_all add: store_ok_delete)

lemma store_ok_step: "store_ok (ob_rows st) \<Longrightarrow> store_ok (ob_rows (user_step p st))"
  by (cases p) (auto simp: discardQueued_def retry_row_def discardQueuedForOwner_eq Let_def store_ok_put
      store_ok_delete store_ok_delete_all split: option.split)

lemma store_ok_run: "store_ok (ob_rows st) \<Longrightarrow> store_ok (ob_rows (user_run ops st))"
  by (induction ops arbitrary: st) (simp_all add: store_ok_step)

text \<open>The account stays the same while no step switches it.\<close>

fun steady :: "user_op \<Rightarrow> bool" where
  "steady (SwitchAccount _) = False"
| "steady _ = True"

lemma cacheSet_owner [simp]: "activeOwner (cacheSet now k d stamp scope g t) = activeOwner t"
  by (cases rule: cacheSet_cases [of now k d stamp scope g t]) simp_all

lemma noteAcceptedEvent_owner [simp]: "activeOwner (noteAcceptedEvent now event owner t) = activeOwner t"
  by (simp add: noteAcceptedEvent_def noteAccepted_def Let_def)

definition settled :: "string option \<Rightarrow> outbox \<Rightarrow> bool" where
  "settled active st \<longleftrightarrow> store_ok (ob_rows st) \<and> activeCacheOwner st = active"

lemma steady_step: "steady p \<Longrightarrow> settled active st \<Longrightarrow> settled active (user_step p st)"
  using store_ok_step [of st p]
  by (cases p) (auto simp: settled_def activeCacheOwner_def discardQueued_def retry_row_def
      discardQueuedForOwner_eq Let_def split: option.split)

lemma steady_run: "list_all steady ops \<Longrightarrow> settled active st \<Longrightarrow> settled active (user_run ops st)"
  by (induction ops arbitrary: st) (simp_all add: steady_step)

lemma settled_writes:
  assumes "env_all steady env" "settled active st"
  shows "settled active (flush_delete env i st)" "settled active (flush_put env r st)"
    "settled active (note_accepted now r st)" "settled active (st\<lparr>ob_sends := xs\<rparr>)"
    "settled active (user_run (fe_before env i) st)" "settled active (user_run (fe_during env i) st)"
    "settled active (user_run (fe_late env i) st)"
proof -
  show late: "settled active (user_run (fe_late env i) st)"
    and "settled active (user_run (fe_before env i) st)" "settled active (user_run (fe_during env i) st)"
    for i using assms by (simp_all add: env_all_def steady_run)
  show "settled active (flush_put env r st)"
    using late [of "row_id r"] by (auto simp: flush_put_def Let_def settled_def activeCacheOwner_def store_ok_put)
qed (use assms(2) in \<open>auto simp: settled_def activeCacheOwner_def flush_delete_def
      store_ok_delete note_accepted_def\<close>)

lemma settled_failure:
  "env_all steady env \<Longrightarrow> settled active st \<Longrightarrow> settled active (fst (flush_failure env now err r (st, res)))"
  by (simp add: flush_failure_def Let_def settled_writes)

lemma settled_success:
  "env_all steady env \<Longrightarrow> settled active st \<Longrightarrow> settled active (fst (flush_success env now outcomes r (st, res)))"
  by (simp add: flush_success_def Let_def settled_writes settled_failure)

lemma settled_item:
  assumes "env_all steady env" "settled active st"
  shows "settled active (fst (flush_item env now a r (st, res)))"
proof -
  define st1 where "st1 = user_run (fe_before env (row_id r)) st"
  define st2 where "st2 = user_run (fe_during env (row_id r)) (st1\<lparr>ob_sends := ob_sends st1 @ [r]\<rparr>)"
  have "settled active st1" "settled active st2"
    using assms by (simp_all add: st1_def st2_def settled_writes)
  then show ?thesis
    unfolding flush_item_def st1_def [symmetric] st2_def [symmetric] prod.case Let_def
    using assms by (simp add: settled_success settled_failure settled_writes split: sum.split)
qed

lemma settled_fold:
  "env_all steady env \<Longrightarrow> settled active (fst p) \<Longrightarrow> settled active (fst (fold (flush_item env now a) rs p))"
proof (induction rs arbitrary: p)
  case (Cons r rs)
  then show ?case using settled_item [of env active "fst p" now a r "snd p"] by simp
qed simp

lemma settled_flush:
  assumes "env_all steady env" "settled active st"
  shows "settled active (fst (flushQueueCore env now st))"
proof -
  have "settled active (st\<lparr>ob_discarded := Some []\<rparr>)"
    using assms(2) by (simp add: settled_def activeCacheOwner_def)
  from settled_fold [OF assms(1), of active "(st\<lparr>ob_discarded := Some []\<rparr>, no_result)"] this
  show ?thesis unfolding flush_core_eq by (simp add: settled_def activeCacheOwner_def)
qed

definition flush_run :: "(flush_env \<times> int) list \<Rightarrow> outbox \<Rightarrow> outbox" where
  "flush_run fs st = fold (\<lambda>(env, now) st. fst (flushQueueCore env now st)) fs st"

lemma flush_run_simps [simp]:
  "flush_run [] st = st" "flush_run ((env, now) # fs) st = flush_run fs (fst (flushQueueCore env now st))"
  by (simp_all add: flush_run_def)

fun row_run :: "string option \<Rightarrow> (network \<times> int) list \<Rightarrow> queued_item \<Rightarrow> queued_item option" where
  "row_run active [] r = Some r"
| "row_run active ((net, now) # fs) r =
     (case row_after net active now r of None \<Rightarrow> None | Some r' \<Rightarrow> row_run active fs r')"

definition calm_for :: "string \<Rightarrow> flush_env \<Rightarrow> bool" where
  "calm_for i env \<longleftrightarrow> quiet_for env i \<and> env_all steady env"

lemma flush_run_row:
  assumes "settled active st" "\<forall>(env, now)\<in>set fs. calm_for i env"
  shows "get_row i (ob_rows (flush_run fs st)) =
    (case get_row i (ob_rows st) of
       None \<Rightarrow> None
     | Some r \<Rightarrow> row_run active (map (\<lambda>(env, now). (fe_net env, now)) fs) r)"
  using assms
proof (induction fs arbitrary: st)
  case Nil
  then show ?case by (simp split: option.split)
next
  case (Cons f fs)
  obtain env now where f: "f = (env, now)" by force
  let ?st = "fst (flushQueueCore env now st)"
  have env: "quiet_for env i" "env_all steady env" using Cons.prems(2) f by (auto simp: calm_for_def)
  have "settled active ?st" by (rule settled_flush [OF env(2) Cons.prems(1)])
  moreover have "get_row i (ob_rows ?st) =
      (case get_row i (ob_rows st) of None \<Rightarrow> None | Some r \<Rightarrow> row_after (fe_net env) active now r)"
    using flush_row_by_row [OF _ env(1), of st now] Cons.prems(1) store_ok_distinct
    by (auto simp: settled_def)
  ultimately show ?case using Cons f by (auto split: option.split)
qed

definition last_try :: "queued_item \<Rightarrow> int" where
  "last_try r = (case qi_lastAttemptAt r of Some t \<Rightarrow> t | None \<Rightarrow> qi_queuedAt r)"

lemma ready_iff: "readyToFlush r now \<longleftrightarrow> last_try r + flush_wait (attempts_of r) \<le> now"
  by (simp add: readyToFlush_def last_try_def)

lemma flush_wait_simps [simp]:
  "flush_wait 0 = 0" "flush_wait (Suc 0) = 15000" "flush_wait 2 = 60000" "flush_wait 3 = 300000"
  "flush_wait 4 = 900000"
  by (simp_all add: flush_wait_def FLUSH_BACKOFF_MS_def eval_nat_numeral)

lemma flush_wait_le: "flush_wait n \<le> 900000"
proof (cases "n < 4")
  case True
  then have "n \<in> {0, 1, 2, 3}" by auto
  then show ?thesis by auto
next
  case False
  then show ?thesis by (simp add: flush_wait_def FLUSH_BACKOFF_MS_def min_def eval_nat_numeral)
qed

text \<open>One round on a due row ends it or spends one attempt at this time.\<close>

lemma row_after_due:
  assumes "due r active now" "row_after net active now r = Some r'"
  shows "attempts_of r' = Suc (attempts_of r) \<and> last_try r' = now \<and> qi_owner r' = qi_owner r
    \<and> qi_queuedAt r' = qi_queuedAt r \<and> (qi_failed r' \<longleftrightarrow> MAX_FLUSH_ATTEMPTS \<le> Suc (attempts_of r))"
  using assms
  by (auto simp: row_after_def due_def ownedBy_def Let_def attempts_of_def last_try_def
      split: sum.splits if_splits)

lemma row_after_idle: "qi_owner r \<noteq> None \<Longrightarrow> \<not> due r active now \<Longrightarrow> row_after net active now r = Some r"
  by (auto simp: row_after_def)

lemma row_run_failed: "qi_owner r \<noteq> None \<Longrightarrow> qi_failed r \<Longrightarrow> row_run active fs r = Some r"
  by (induction fs) (auto simp: row_after_idle due_def)

definition spaced :: "int \<Rightarrow> ('e \<times> int) list \<Rightarrow> bool" where
  "spaced start fs \<longleftrightarrow> successively (\<lambda>a b. a + 900000 \<le> b) (start # map snd fs)"

lemma row_run_settles:
  assumes "ownedBy r active" "\<not> qi_failed r" "attempts_of r < MAX_FLUSH_ATTEMPTS"
    and "spaced (last_try r) fs" "MAX_FLUSH_ATTEMPTS \<le> attempts_of r + length fs"
    and "row_run active fs r = Some r'"
  shows "qi_failed r'"
  using assms
proof (induction fs arbitrary: r)
  case (Cons f fs)
  obtain net now where f: "f = (net, now)" by force
  have "last_try r + 900000 \<le> now" using Cons.prems(4) f by (simp add: spaced_def)
  then have due: "due r active now"
    using Cons.prems(1,2) flush_wait_le [of "attempts_of r"] by (simp add: due_def ready_iff)
  from Cons.prems(6) f obtain r1 where r1: "row_after net active now r = Some r1" "row_run active fs r1 = Some r'"
    by (auto split: option.splits)
  note after = row_after_due [OF due r1(1)]
  show ?case
  proof (cases "qi_failed r1")
    case True
    moreover have "qi_owner r1 \<noteq> None" using after Cons.prems(1) by (auto simp: ownedBy_def)
    ultimately show ?thesis using row_run_failed [of r1 active fs] r1(2) by simp
  next
    case False
    have "spaced (last_try r1) fs" using Cons.prems(4) f after by (cases fs) (auto simp: spaced_def)
    then show ?thesis
      using Cons.IH [of r1] False after Cons.prems(1,5) r1(2) by (auto simp: ownedBy_def)
  qed
qed simp

text \<open>
  (C22) Nothing is retried forever. After five flushes of the account's tab that are each at least a
  quarter of an hour after the previous one, a row of the account is settled, whatever the relays
  do: it has left the store, or it is parked as failed for the user to decide.
\<close>

theorem five_flushes_settle:
  assumes "settled active st" "get_row i (ob_rows st) = Some r"
    and "ownedBy r active" "\<not> qi_failed r \<longrightarrow> attempts_of r < MAX_FLUSH_ATTEMPTS"
    and "\<forall>(env, now)\<in>set fs. calm_for i env" "spaced (last_try r) fs" "MAX_FLUSH_ATTEMPTS \<le> length fs"
  shows "case get_row i (ob_rows (flush_run fs st)) of None \<Rightarrow> True | Some r' \<Rightarrow> qi_failed r'"
proof -
  let ?fs = "map (\<lambda>(env, now). (fe_net env, now)) fs"
  have run: "get_row i (ob_rows (flush_run fs st)) = row_run active ?fs r"
    using flush_run_row [OF assms(1,5)] assms(2) by simp
  have times: "map snd ?fs = map snd fs" by (induction fs) auto
  show ?thesis
  proof (cases "qi_failed r")
    case True
    then show ?thesis using run row_run_failed [of r active ?fs] assms(3) by (auto simp: ownedBy_def)
  next
    case False
    have "spaced (last_try r) ?fs" using assms(6) unfolding spaced_def times .
    then show ?thesis
      using run row_run_settles [OF assms(3) False, of ?fs] assms(4,7) False by (auto split: option.split)
  qed
qed

text \<open>The time a row has lived through by its \<open>n\<close>th attempt.\<close>

definition waited :: "nat \<Rightarrow> int" where
  "waited n = sum_list (map flush_wait [0..<n])"

lemma waited_Suc: "waited (Suc n) = waited n + flush_wait n"
  by (simp add: waited_def)

lemma waited_5: "waited MAX_FLUSH_ATTEMPTS = 1275000"
  by (simp add: waited_def MAX_FLUSH_ATTEMPTS_def flush_wait_def FLUSH_BACKOFF_MS_def eval_nat_numeral)

definition paced :: "queued_item \<Rightarrow> bool" where
  "paced r \<longleftrightarrow> qi_queuedAt r + waited (attempts_of r) \<le> last_try r
     \<and> (qi_failed r \<longleftrightarrow> attempts_of r = MAX_FLUSH_ATTEMPTS) \<and> attempts_of r \<le> MAX_FLUSH_ATTEMPTS"

lemma paced_after:
  assumes "paced r" "qi_owner r \<noteq> None" "row_after net active now r = Some r'"
  shows "paced r' \<and> qi_owner r' \<noteq> None \<and> qi_queuedAt r' = qi_queuedAt r"
proof (cases "due r active now")
  case True
  note after = row_after_due [OF True assms(3)]
  have "\<not> qi_failed r" and ready: "last_try r + flush_wait (attempts_of r) \<le> now"
    using True by (simp_all add: due_def ready_iff)
  then show ?thesis using after assms(1,2) by (auto simp: paced_def waited_Suc)
next
  case False
  then show ?thesis using row_after_idle [OF assms(2)] assms by auto
qed

lemma paced_run:
  "paced r \<Longrightarrow> qi_owner r \<noteq> None \<Longrightarrow> row_run active fs r = Some r' \<Longrightarrow>
     paced r' \<and> qi_queuedAt r' = qi_queuedAt r"
proof (induction fs arbitrary: r)
  case (Cons f fs)
  obtain net now where f: "f = (net, now)" by force
  from Cons.prems(3) f obtain r1 where "row_after net active now r = Some r1" "row_run active fs r1 = Some r'"
    by (auto split: option.splits)
  then show ?case using paced_after [OF Cons.prems(1,2)] Cons.IH [of r1] by metis
qed simp

text \<open>
  (C35) A flapping network cannot burn an event's attempts. However often the browser fires a flush,
  a row freshly queued is parked as failed no sooner than 21 minutes and 15 seconds after it was
  queued, and then only after exactly five attempts.
\<close>

theorem parked_after_waiting:
  assumes "settled active st" "get_row i (ob_rows st) = Some r" "qi_owner r \<noteq> None"
    and "attempts_of r = 0" "qi_lastAttemptAt r = None" "\<not> qi_failed r"
    and "\<forall>(env, now)\<in>set fs. calm_for i env"
    and "get_row i (ob_rows (flush_run fs st)) = Some r'" "qi_failed r'"
  shows "attempts_of r' = 5 \<and> qi_queuedAt r + 1275000 \<le> last_try r'"
proof -
  have "paced r" using assms(4-6)
    by (simp add: paced_def waited_def last_try_def MAX_FLUSH_ATTEMPTS_def)
  moreover have "row_run active (map (\<lambda>(env, now). (fe_net env, now)) fs) r = Some r'"
    using flush_run_row [OF assms(1,7)] assms(2,8) by simp
  ultimately have "paced r'" "qi_queuedAt r' = qi_queuedAt r" using paced_run assms(3) by blast+
  then show ?thesis using assms(9) waited_5 by (auto simp: paced_def MAX_FLUSH_ATTEMPTS_def)
qed

section \<open>Publishing or queueing\<close>

lemma publish_loop_result:
  "publish_loop now sf event relays owner attempts st = (sent, st') \<Longrightarrow>
     (sent \<longrightarrow> ev_id event \<in> set (ob_accepted st')) \<and> ob_sends st' = ob_sends st"
proof (induction now sf event relays owner attempts st rule: publish_loop.induct)
  case (2 now sf event relays owner meanwhile net attempts st)
  then show ?case by (auto simp: queueUndelivered_def Let_def split: sum.splits option.splits if_splits)
qed simp

lemma publish_loop_missing:
  assumes "publish_loop now False event relays owner attempts st = (True, st')"
  shows "\<exists>net outcomes. publishSigned net event relays = Inr outcomes \<and> net \<in> snd ` set attempts
    \<and> (stillMissing outcomes \<noteq> [] \<longrightarrow>
        (\<exists>r. get_row (ev_id event) (ob_rows st') = Some r
           \<and> (qi_partial r \<longrightarrow> (\<exists>us. qi_relays r = Some us \<and> set (stillMissing outcomes) \<subseteq> set us))))"
  using assms
proof (induction attempts arbitrary: st)
  case (Cons a attempts)
  obtain meanwhile net where a: "a = (meanwhile, net)" by force
  show ?case
  proof (cases "publishSigned net event relays")
    case (Inl e)
    then have "publish_loop now False event relays owner attempts (user_run meanwhile st) = (True, st')"
      using Cons.prems a by (simp add: Let_def)
    from Cons.IH [OF this] show ?thesis by (auto simp: a)
  next
    case (Inr outcomes)
    then have st': "st' = queueUndelivered now False event outcomes owner
        ((user_run meanwhile st)\<lparr>ob_accepted := ob_accepted (user_run meanwhile st) @ [ev_id event]\<rparr>)"
      using Cons.prems a by (simp add: Let_def)
    show ?thesis
      by (intro exI [of _ net] exI [of _ outcomes])
        (auto simp: Inr a st' queueUndelivered_def Let_def dest: get_row_Some split: option.splits)
  qed
qed simp


section \<open>Two windows the code leaves open\<close>

text \<open>
  A discard can be undone. \<open>stillQueued\<close> looks at the discarded ids first and then awaits the
  read of the row; a discard that lands between that read and the write that follows is lost: the
  flush puts the row back, and the next flush publishes what the user was told is cancelled.
\<close>

theorem late_discard_is_undone:
  assumes "ob_rows st = [r]" "due r (activeCacheOwner st) now"
    and "publishSigned (fe_net env) (qi_event r) (qi_relays r) = Inl err"
    and "\<not> (MAX_FLUSH_ATTEMPTS \<le> Suc (attempts_of r) \<and> qi_partial r)"
    and "fe_before env (row_id r) = []" "fe_during env (row_id r) = []"
    and "fe_late env (row_id r) = [Discard (row_id r)]"
    and "\<not> fe_read_fails env (row_id r)" "\<not> fe_write_fails env (row_id r)"
  shows "get_row (row_id r) (ob_rows (user_step (Discard (row_id r)) st)) = None
    \<and> get_row (row_id r) (ob_rows (fst (flushQueueCore env now st))) \<noteq> None"
proof -
  have "\<not> (MAX_FLUSH_ATTEMPTS \<le> Suc (attempts_of r) \<and> qi_partial r)" by (rule assms(4))
  then have "get_row (row_id r) (ob_rows (fst (flush_item env now (activeCacheOwner st) r
      (st\<lparr>ob_discarded := Some []\<rparr>, no_result)))) \<noteq> None"
    using assms by (auto simp: flush_item_due Let_def flush_failure_def stillQueued_def)
  then show ?thesis
    using assms(1) by (simp add: flush_core_eq discardQueued_def)
qed

text \<open>
  A row's owner is not fixed for good: a second publish of the same event under another account
  rewrites it, both when it tops up the stragglers and when it queues the whole event.
\<close>

lemma owner_rewritten:
  assumes "get_row (ev_id event) (ob_rows st) = Some r" "qi_partial r" "stillMissing outcomes \<noteq> []"
  shows "\<exists>r'. get_row (ev_id event) (ob_rows (queueUndelivered now False event outcomes other st)) = Some r'
    \<and> qi_owner r' = Some other"
  using assms by (simp add: queueUndelivered_def Let_def)

text \<open>
  A publish under a replaceable address ends here: the outbox takes the signed event and, when it
  went out at once, the accepted watermark is raised under the owner the address was locked for.
\<close>

definition publishMonotonic_tail ::
  "int \<Rightarrow> bool \<Rightarrow> bool \<Rightarrow> (nat \<Rightarrow> user_op list \<times> network) \<Rightarrow> string \<Rightarrow> string \<Rightarrow> int \<Rightarrow> minimal_event
     \<Rightarrow> string list option \<Rightarrow> outbox \<Rightarrow> (string + bool \<times> int) \<times> outbox" where
  "publishMonotonic_tail now online storage_fails attempt owner address createdAt event relays st =
     (case publishOrQueue now online storage_fails attempt event relays st of
        (Inl e, st1) \<Rightarrow> (Inl e, st1)
      | (Inr True, st1) \<Rightarrow> (Inr (True, createdAt),
          st1\<lparr>ob_tab := noteAccepted now address createdAt (Some owner) (ob_tab st1)\<rparr>)
      | (Inr False, st1) \<Rightarrow> (Inr (False, createdAt), st1))"

text \<open>
  The account a monotonic publish was started under is not the one its event is queued under, when
  the account is switched while the event is being signed: \<open>publishOrQueue\<close> reads the active account
  only when it is called.
\<close>

lemma switched_account_takes_event:
  assumes "activeCacheOwner st = Some new" "publishMonotonic_tail now online False attempt old address createdAt event relays st
      = (Inr (False, createdAt), st')"
  shows "\<exists>r. get_row (ev_id event) (ob_rows st') = Some r \<and> qi_owner r = Some new"
proof -
  obtain result st1 where call: "publishOrQueue now online False attempt event relays st = (result, st1)" by force
  then have "result = Inr False" "st' = st1"
    using assms(2) by (auto simp: publishMonotonic_tail_def split: sum.splits bool.splits)
  then have "publishOrQueue now online False attempt event relays st = (Inr False, st')" using call by simp
  then show ?thesis using assms(1)
    by (auto simp: publishOrQueue_def Let_def split: prod.splits if_splits)
qed

section \<open>Concrete runs\<close>

definition sample_event :: minimal_event where
  "sample_event = \<lparr>ev_id = ''e1'', ev_created = Some 7, me_kind = 1059, me_pubkey = ''throwaway'', me_tags = []\<rparr>"

definition sample_row :: queued_item where
  "sample_row = \<lparr>qi_event = sample_event, qi_relays = Some [''wss://r''], qi_queuedAt = 0,
     qi_attempts = Some 0, qi_lastAttemptAt = None, qi_failed = False, qi_lastError = None,
     qi_owner = Some ''alice'', qi_partial = False\<rparr>"

definition sample_box :: outbox where
  "sample_box = \<lparr>ob_rows = [sample_row], ob_discarded = None,
     ob_tab = fresh_tab\<lparr>activeOwner := Some ''alice''\<rparr>, ob_sends = [], ob_accepted = []\<rparr>"

definition portal_net :: network where
  "portal_net = \<lparr>from_urls = \<lambda>us. us, pool_for = \<lambda>_. [], answer = \<lambda>_ _. (False, Some ''timeout'')\<rparr>"

definition quiet_env :: flush_env where
  "quiet_env = \<lparr>fe_net = portal_net, fe_before = \<lambda>_. [], fe_during = \<lambda>_. [], fe_late = \<lambda>_. [],
     fe_read_fails = \<lambda>_. False, fe_write_fails = \<lambda>_. False, fe_storage_error = ''''\<rparr>"

lemmas sample_simps = sample_event_def sample_row_def sample_box_def quiet_env_def activeCacheOwner_def fresh_tab_def

lemma portal_refuses: "\<exists>err. publishSigned portal_net sample_event (Some [''wss://r'']) = Inl err"
  by (simp add: publishSigned_def relaySet_def portal_net_def ask_relay_def)

lemma sample_settled: "settled (Some ''alice'') sample_box"
  by (simp add: settled_def store_ok_def sample_simps)

lemma quiet_env_calm: "calm_for i quiet_env"
  by (simp add: calm_for_def quiet_for_def untouched_def env_all_def quiet_env_def)

lemma sample_due: "0 \<le> now \<Longrightarrow> due sample_row (Some ''alice'') now"
  by (simp add: due_def ownedBy_def ready_iff last_try_def attempts_of_def sample_simps)

lemma flush_never_loses_witness:
  "(\<exists>x. get_row ''e1'' (ob_rows (fst (flushQueueCore quiet_env 5 sample_box))) = Some x)
   \<or> ''e1'' \<in> set (ob_accepted (fst (flushQueueCore quiet_env 5 sample_box)))"
  using flush_never_loses [of sample_box sample_row quiet_env 5]
  by (simp add: sample_simps env_all_def)

lemma flush_only_own_witness:
  "\<exists>xs. ob_sends (fst (flushQueueCore quiet_env 5 sample_box)) = xs \<and> set xs \<subseteq> {sample_row}"
  using flush_only_own [of sample_box quiet_env 5, THEN conjunct1] by (auto simp: sample_box_def)

lemma discard_wins_witness:
  "get_row ''e1'' (ob_rows (fst (flushQueueCore (quiet_env\<lparr>fe_before := \<lambda>_. [Discard ''e1'']\<rparr>) 5 sample_box))) = None"
proof -
  have "get_row (row_id sample_row) (ob_rows (fst (flushQueueCore
      (quiet_env\<lparr>fe_before := \<lambda>_. [Discard ''e1'']\<rparr>) 5 sample_box))) = None"
    by (rule discard_wins [THEN conjunct1])
      (use sample_due [of 5] in \<open>simp_all add: sample_box_def activeCacheOwner_def env_never_requeues_def
        env_all_def quiet_env_def sample_row_def sample_event_def\<close>)
  then show ?thesis by (simp add: sample_row_def sample_event_def)
qed

lemma flush_row_by_row_witness:
  "get_row ''e1'' (ob_rows (fst (flushQueueCore quiet_env 5 sample_box)))
   = row_after portal_net (Some ''alice'') 5 sample_row"
proof -
  have "quiet_for quiet_env ''e1''" using quiet_env_calm by (simp add: calm_for_def)
  from flush_row_by_row [OF _ this, of sample_box 5] show ?thesis
    by (simp add: sample_box_def activeCacheOwner_def sample_row_def sample_event_def quiet_env_def)
qed

definition five_rounds :: "(flush_env \<times> int) list" where
  "five_rounds = map (\<lambda>k. (quiet_env, 900000 * k)) [1, 2, 3, 4, 5]"

lemma five_rounds_calm: "\<forall>(env, now)\<in>set five_rounds. calm_for i env"
  by (auto simp: five_rounds_def quiet_env_calm)

lemma sample_get: "get_row ''e1'' (ob_rows sample_box) = Some sample_row"
  by (simp add: sample_box_def sample_row_def sample_event_def)

lemma five_flushes_settle_witness:
  "case get_row ''e1'' (ob_rows (flush_run five_rounds sample_box)) of None \<Rightarrow> True | Some r' \<Rightarrow> qi_failed r'"
proof (rule five_flushes_settle [OF sample_settled sample_get _ _ five_rounds_calm])
  show "spaced (last_try sample_row) five_rounds"
    by (simp add: spaced_def five_rounds_def last_try_def sample_row_def)
qed (simp_all add: sample_row_def ownedBy_def attempts_of_def MAX_FLUSH_ATTEMPTS_def five_rounds_def)

lemma sample_parked:
  "\<exists>r'. get_row ''e1'' (ob_rows (flush_run five_rounds sample_box)) = Some r' \<and> qi_failed r'"
proof -
  obtain err where "publishSigned portal_net sample_event (Some [''wss://r'']) = Inl err"
    using portal_refuses by blast
  then have "\<exists>r'. row_run (Some ''alice'') (map (\<lambda>(env, now). (fe_net env, now)) five_rounds) sample_row = Some r'
      \<and> qi_failed r'"
    by (simp add: five_rounds_def quiet_env_def sample_row_def row_after_def due_def ownedBy_def ready_iff
        last_try_def attempts_of_def MAX_FLUSH_ATTEMPTS_def flush_wait_def FLUSH_BACKOFF_MS_def eval_nat_numeral)
  then show ?thesis
    using flush_run_row [OF sample_settled five_rounds_calm, of "''e1''"] by (simp add: sample_get)
qed

lemma parked_after_waiting_witness:
  "\<exists>r'. get_row ''e1'' (ob_rows (flush_run five_rounds sample_box)) = Some r' \<and> attempts_of r' = 5
     \<and> 1275000 \<le> last_try r'"
proof -
  obtain r' where r': "get_row ''e1'' (ob_rows (flush_run five_rounds sample_box)) = Some r'" "qi_failed r'"
    using sample_parked by blast
  have "attempts_of r' = 5 \<and> qi_queuedAt sample_row + 1275000 \<le> last_try r'"
    by (rule parked_after_waiting [OF sample_settled sample_get _ _ _ _ five_rounds_calm r'])
      (simp_all add: sample_row_def attempts_of_def)
  then show ?thesis using r'(1) by (simp add: sample_row_def)
qed


lemma late_discard_is_undone_witness:
  "get_row ''e1'' (ob_rows (fst (flushQueueCore (quiet_env\<lparr>fe_late := \<lambda>_. [Discard ''e1'']\<rparr>) 5 sample_box))) \<noteq> None"
proof -
  let ?env = "quiet_env\<lparr>fe_late := \<lambda>_. [Discard ''e1'']\<rparr>"
  obtain err where err: "publishSigned (fe_net ?env) (qi_event sample_row) (qi_relays sample_row) = Inl err"
    using portal_refuses by (auto simp: quiet_env_def sample_row_def)
  have "get_row (row_id sample_row) (ob_rows (fst (flushQueueCore ?env 5 sample_box))) \<noteq> None"
    by (rule late_discard_is_undone [OF _ _ err, THEN conjunct2])
      (use sample_due [of 5] in \<open>simp_all add: sample_box_def activeCacheOwner_def quiet_env_def
        sample_row_def sample_event_def attempts_of_def MAX_FLUSH_ATTEMPTS_def\<close>)
  then show ?thesis by (simp add: sample_row_def sample_event_def)
qed

end
