(* ===== verification/Safe_Fetch.thy ===== *)
theory Safe_Fetch
  imports Js_Number "HOL-Library.Word"
begin

unbundle bit_operations_syntax

text \<open>
  The guarded downloader of the coordinator (\<open>packages/coordinator/src/net/safe-fetch.ts\<close>): which
  addresses may be contacted, the validation of a target, and the redirect loop with its byte cap.

  The platform is an argument (\<open>platform\<close>): the WHATWG URL parser, \<open>net.isIP\<close>, \<open>Number\<close> on a
  string, the DNS resolver and the servers, the last two indexed by the hop so that they may answer
  differently each time. A connection is a pair of the target and the addresses the dispatcher is
  pinned to; the run collects them with the byte counts reported to \<open>onBytes\<close>. A body is the chunks
  it delivers and whether it then ends or is aborted (the deadline of the hop, a cancellation). The sizes
  some error messages quote are left out of them.
\<close>

section \<open>String helpers\<close>

fun split_char :: "char \<Rightarrow> string \<Rightarrow> string list" where
  "split_char c [] = [[]]"
| "split_char c (x # xs) =
     (if x = c then [] # split_char c xs
      else (case split_char c xs of p # ps \<Rightarrow> (x # p) # ps | [] \<Rightarrow> [[x]]))"

text \<open>\<open>s.split("::")\<close>\<close>

fun split_colons :: "string \<Rightarrow> string list" where
  "split_colons [] = [[]]"
| "split_colons (x # xs) =
     (if x = CHR '':'' \<and> take 1 xs = '':'' then [] # split_colons (drop 1 xs)
      else (case split_colons xs of p # ps \<Rightarrow> (x # p) # ps | [] \<Rightarrow> [[x]]))"

definition lower_char :: "char \<Rightarrow> char" where
  "lower_char c = (if 65 \<le> (of_char c :: nat) \<and> (of_char c :: nat) \<le> 90
                   then char_of ((of_char c :: nat) + 32) else c)"

definition hex_digit_val :: "char \<Rightarrow> nat option" where
  "hex_digit_val c =
     (let n = of_char (lower_char c) :: nat
      in if 48 \<le> n \<and> n \<le> 57 then Some (n - 48)
         else if 97 \<le> n \<and> n \<le> 102 then Some (n - 87) else None)"

text \<open>\<open>parseInt(s, 16)\<close>; \<open>None\<close> is \<open>NaN\<close>.\<close>

fun hex_prefix :: "nat \<Rightarrow> string \<Rightarrow> nat" where
  "hex_prefix n [] = n"
| "hex_prefix n (c # s) =
     (case hex_digit_val c of Some d \<Rightarrow> hex_prefix (16 * n + d) s | None \<Rightarrow> n)"

definition parse_hex :: "string \<Rightarrow> int option" where
  "parse_hex s =
     (let t = js_trim_start s;
          (sign, u) = (case t of c # r \<Rightarrow> if c = CHR ''-'' then (- 1, r) else if c = CHR ''+'' then (1, r) else (1, t)
                               | [] \<Rightarrow> (1 :: int, t));
          v = (if map lower_char (take 2 u) = ''0x'' then drop 2 u else u)
      in case v of
           c # _ \<Rightarrow> if hex_digit_val c = None then None else Some (sign * int (hex_prefix 0 v))
         | [] \<Rightarrow> None)"

section \<open>Addresses\<close>

definition v4_octets :: "(string \<Rightarrow> js_number) \<Rightarrow> string \<Rightarrow> int list option" where
  "v4_octets number ip =
     (let p = map number (split_char CHR ''.'' ip);
          is = map as_integer p
      in if length p \<noteq> 4 \<or> list_ex (\<lambda>i. case i of None \<Rightarrow> True | Some n \<Rightarrow> n < 0 \<or> 255 < n) is then None
         else Some (map the is))"

definition blocked_octets :: "int \<Rightarrow> int \<Rightarrow> int \<Rightarrow> bool" where
  "blocked_octets a b c \<longleftrightarrow>
     a = 0 \<or> a = 10 \<or> a = 127 \<or> (a = 169 \<and> b = 254) \<or> (a = 172 \<and> 16 \<le> b \<and> b \<le> 31)
     \<or> (a = 192 \<and> b = 168) \<or> (a = 192 \<and> b = 0 \<and> c = 0) \<or> (a = 100 \<and> 64 \<le> b \<and> b \<le> 127)
     \<or> (a = 198 \<and> (b = 18 \<or> b = 19)) \<or> 224 \<le> a"

definition isBlockedV4 :: "(string \<Rightarrow> js_number) \<Rightarrow> string \<Rightarrow> bool" where
  "isBlockedV4 number ip =
     (case v4_octets number ip of
        Some [a, b, c, d] \<Rightarrow> blocked_octets a b c
      | _ \<Rightarrow> True)"

definition expandV6 :: "string \<Rightarrow> 16 word list option" where
  "expandV6 ip =
     (if CHR ''.'' \<in> set ip then None
      else let halves = split_colons ip
           in if 2 < length halves then None
              else let head = filter (\<lambda>s. s \<noteq> []) (split_char CHR '':'' (halves ! 0));
                       tail = (if length halves = 2 then filter (\<lambda>s. s \<noteq> []) (split_char CHR '':'' (halves ! 1)) else [])
                   in if 8 < length head + length tail then None
                      else let parts = (if length halves = 2
                                  then head @ replicate (8 - length head - length tail) ''0'' @ tail else head);
                               out = map parse_hex parts
                           in if length parts \<noteq> 8 then None
                              else if list_all (\<lambda>n. case n of None \<Rightarrow> False | Some i \<Rightarrow> 0 \<le> i \<and> i \<le> 0xffff) out
                              then Some (map (\<lambda>n. word_of_int (the n)) out) else None)"

text \<open>\<open>/^::ffff:(\d+\.\d+\.\d+\.\d+)$/\<close>\<close>

definition mapped_v4 :: "string \<Rightarrow> string option" where
  "mapped_v4 ip =
     (let rest = drop 7 ip; p = split_char CHR ''.'' rest
      in if take 7 ip = ''::ffff:'' \<and> length p = 4 \<and> list_all (\<lambda>s. s \<noteq> [] \<and> list_all is_digit s) p
         then Some rest else None)"

definition dotted :: "nat \<Rightarrow> nat \<Rightarrow> nat \<Rightarrow> nat \<Rightarrow> string" where
  "dotted a b c d = show_nat a @ ''.'' @ show_nat b @ ''.'' @ show_nat c @ ''.'' @ show_nat d"

definition embedded_v4 :: "16 word \<Rightarrow> 16 word \<Rightarrow> string" where
  "embedded_v4 x y = dotted (unat (drop_bit 8 x)) (unat (x AND 0xff)) (unat (drop_bit 8 y)) (unat (y AND 0xff))"

definition blocked_hextets :: "(string \<Rightarrow> js_number) \<Rightarrow> 16 word list \<Rightarrow> bool" where
  "blocked_hextets number h =
     (if h ! 0 = 0 \<and> h ! 1 = 0 \<and> h ! 2 = 0 \<and> h ! 3 = 0 then
        (if \<not> ((h ! 4 = 0 \<and> h ! 5 = 0) \<or> (h ! 4 = 0 \<and> h ! 5 = 0xffff) \<or> (h ! 4 = 0xffff \<and> h ! 5 = 0))
         then True
         else isBlockedV4 number (embedded_v4 (h ! 6) (h ! 7)))
      else h ! 0 AND 0xfe00 = 0xfc00 \<or> h ! 0 AND 0xffc0 = 0xfe80 \<or> h ! 0 AND 0xff00 = 0xff00
         \<or> (h ! 0 = 0x0064 \<and> h ! 1 = 0xff9b) \<or> h ! 0 = 0x2002 \<or> (h ! 0 = 0x2001 \<and> h ! 1 = 0x0000))"

definition isBlockedV6 :: "(string \<Rightarrow> js_number) \<Rightarrow> string \<Rightarrow> bool" where
  "isBlockedV6 number ip =
     (if ip = ''::'' \<or> ip = ''::1'' then True
      else case mapped_v4 ip of
        Some v4 \<Rightarrow> isBlockedV4 number v4
      | None \<Rightarrow> (case expandV6 ip of None \<Rightarrow> True | Some h \<Rightarrow> blocked_hextets number h))"

section \<open>The platform\<close>

record parsed_url =
  pu_href :: string
  pu_protocol :: string
  pu_origin :: string
  pu_hostname :: string

type_synonym bytes = "nat list"

record response =
  rs_status :: int
  rs_location :: "string option"
  rs_length :: "string option"
  rs_chunks :: "bytes list"
  rs_streamed :: bool
  rs_aborted :: bool

record platform =
  pf_parse :: "string \<Rightarrow> parsed_url option"
  pf_resolve :: "string \<Rightarrow> parsed_url \<Rightarrow> string option"
  pf_isIP :: "string \<Rightarrow> nat"
  pf_number :: "string \<Rightarrow> js_number"
  pf_lookup :: "nat \<Rightarrow> string \<Rightarrow> string list option"
  pf_serve :: "nat \<Rightarrow> parsed_url \<Rightarrow> string list \<Rightarrow> string + response"

definition isBlockedAddress :: "platform \<Rightarrow> string \<Rightarrow> bool" where
  "isBlockedAddress pf ip =
     (let v = pf_isIP pf ip
      in if v = 4 then isBlockedV4 (pf_number pf) ip
         else if v = 6 then isBlockedV6 (pf_number pf) (map lower_char ip)
         else True)"

text \<open>Errors: a \<open>SafeFetchError\<close> with its \<open>retryable\<close> flag, the URL parser's, or that of an aborted read.\<close>

datatype fetch_error = SafeFetchError string bool | UrlError | ReadError

record fetch_options =
  fo_allowed :: "string list"
  fo_max_bytes :: nat
  fo_max_redirects :: nat
  fo_aborted :: bool

definition strip_brackets :: "string \<Rightarrow> string" where
  "strip_brackets s =
     (let t = (case s of c # r \<Rightarrow> if c = CHR ''['' then r else s | [] \<Rightarrow> [])
      in if t \<noteq> [] \<and> last t = CHR '']'' then butlast t else t)"

text \<open>\<open>o.toLowerCase().replace(/\/$/, "")\<close>\<close>

definition normal_allowed :: "string \<Rightarrow> string" where
  "normal_allowed o' =
     (let t = map lower_char o' in if t \<noteq> [] \<and> last t = CHR ''/'' then butlast t else t)"

definition normalizeOrigin :: "parsed_url \<Rightarrow> string" where
  "normalizeOrigin u = map lower_char (pu_origin u)"

text \<open>The addresses of a host, each of them public; shared by the two entry points.\<close>

definition resolve_public :: "platform \<Rightarrow> nat \<Rightarrow> parsed_url \<Rightarrow> fetch_error + string list" where
  "resolve_public pf hop u =
     (let host = strip_brackets (pu_hostname u)
      in case (if pf_isIP pf host \<noteq> 0 then Some [host]
               else map_option (filter (\<lambda>a. pf_isIP pf a \<noteq> 0)) (pf_lookup pf hop host)) of
           None \<Rightarrow> Inl (SafeFetchError ''DNS resolution failed'' True)
         | Some addresses \<Rightarrow>
             if addresses = [] then Inl (SafeFetchError ''no addresses resolved'' True)
             else if list_ex (isBlockedAddress pf) addresses
             then Inl (SafeFetchError ''resolved to a blocked (private/loopback/reserved) address'' False)
             else Inr addresses)"

definition validateTarget :: "platform \<Rightarrow> nat \<Rightarrow> fetch_options \<Rightarrow> string \<Rightarrow> fetch_error + parsed_url \<times> string list" where
  "validateTarget pf hop opts raw =
     (case pf_parse pf raw of
        None \<Rightarrow> Inl (SafeFetchError ''invalid URL'' False)
      | Some u \<Rightarrow>
          if pu_protocol u \<noteq> ''https:'' then Inl (SafeFetchError ''non-https URL rejected'' False)
          else if fo_allowed opts \<noteq> [] \<and> normalizeOrigin u \<notin> set (map normal_allowed (fo_allowed opts))
          then Inl (SafeFetchError ''origin not in Blossom allowlist'' False)
          else (case resolve_public pf hop u of Inl e \<Rightarrow> Inl e | Inr addresses \<Rightarrow> Inr (u, addresses)))"

definition pinnedDispatcherFor :: "platform \<Rightarrow> string \<Rightarrow> fetch_error + string list" where
  "pinnedDispatcherFor pf raw =
     (case pf_parse pf raw of
        None \<Rightarrow> Inl (SafeFetchError ''invalid URL'' False)
      | Some u \<Rightarrow> resolve_public pf 0 u)"

text \<open>\<open>pinnedLookup\<close>: whatever name is asked for, only the validated addresses come back.\<close>

definition pinnedLookup :: "string list \<Rightarrow> string \<Rightarrow> bool \<Rightarrow> string list" where
  "pinnedLookup addresses hostname wants_all = (if wants_all then addresses else take 1 addresses)"

section \<open>The download\<close>

record fetch_log =
  fl_connections :: "(parsed_url \<times> string list) list"
  fl_bytes :: "nat list"

text \<open>Reading the stream: every chunk is reported, then counted, then kept.\<close>

fun read_chunks :: "nat \<Rightarrow> bool \<Rightarrow> bytes list \<Rightarrow> bytes \<Rightarrow> nat list \<Rightarrow> (fetch_error + bytes) \<times> nat list" where
  "read_chunks cap aborted [] out seen =
     (if aborted then (Inl ReadError, seen) else (Inr out, seen))"
| "read_chunks cap aborted (c # cs) out seen =
     (let total = length out + length c; seen' = seen @ [length c]
      in if cap < total then (Inl (SafeFetchError ''streamed bytes exceed cap'' False), seen')
         else read_chunks cap aborted cs (out @ c) seen')"

definition readCapped :: "response \<Rightarrow> nat \<Rightarrow> nat list \<Rightarrow> (fetch_error + bytes) \<times> nat list" where
  "readCapped res cap seen =
     (if \<not> rs_streamed res then
        (if rs_aborted res then (Inl ReadError, seen) else let buf = concat (rs_chunks res); seen' = seen @ [length buf]
         in if cap < length buf then (Inl (SafeFetchError ''body exceeds cap'' False), seen') else (Inr buf, seen'))
      else read_chunks cap (rs_aborted res) (rs_chunks res) [] seen)"

definition declared_over :: "platform \<Rightarrow> fetch_options \<Rightarrow> response \<Rightarrow> bool" where
  "declared_over pf opts res =
     (let declared = pf_number pf (case rs_length res of Some s \<Rightarrow> s | None \<Rightarrow> '''')
      in is_finite declared \<and> js_less (Num (of_nat (fo_max_bytes opts))) declared)"

text \<open>One round per allowed redirect and one more; \<open>left\<close> counts the redirects still allowed.\<close>

fun fetch_hops ::
  "platform \<Rightarrow> fetch_options \<Rightarrow> nat \<Rightarrow> nat \<Rightarrow> string \<Rightarrow> fetch_log \<Rightarrow> (fetch_error + bytes) \<times> fetch_log"
where
  "fetch_hops pf opts left hop current lg =
     (case validateTarget pf hop opts current of
        Inl e \<Rightarrow> (Inl e, lg)
      | Inr (u, addresses) \<Rightarrow>
          (let lg1 = lg\<lparr>fl_connections := fl_connections lg @ [(u, addresses)]\<rparr>
           in case pf_serve pf hop u addresses of
                Inl e \<Rightarrow> (Inl (SafeFetchError (''network error: '' @ e) True), lg1)
              | Inr res \<Rightarrow>
                  if 300 \<le> rs_status res \<and> rs_status res < 400 then
                    (case rs_location res of
                       None \<Rightarrow> (Inl (SafeFetchError ''redirect without Location'' False), lg1)
                     | Some loc \<Rightarrow>
                         if loc = '''' then (Inl (SafeFetchError ''redirect without Location'' False), lg1)
                         else (case left of
                           0 \<Rightarrow> (Inl (SafeFetchError ''too many redirects'' False), lg1)
                         | Suc left' \<Rightarrow>
                             (case pf_resolve pf loc u of
                                None \<Rightarrow> (Inl UrlError, lg1)
                              | Some target \<Rightarrow> fetch_hops pf opts left' (Suc hop) target lg1)))
                  else if \<not> (200 \<le> rs_status res \<and> rs_status res < 300) then
                    (Inl (SafeFetchError (''HTTP '' @ show_int (rs_status res))
                       (500 \<le> rs_status res \<or> rs_status res = 429)), lg1)
                  else if declared_over pf opts res then
                    (Inl (SafeFetchError ''declared size exceeds cap'' False), lg1)
                  else (let (result, seen) = readCapped res (fo_max_bytes opts) (fl_bytes lg1)
                        in (result, lg1\<lparr>fl_bytes := seen\<rparr>))))"

declare fetch_hops.simps [simp del]

definition safeFetch :: "platform \<Rightarrow> fetch_options \<Rightarrow> string \<Rightarrow> (fetch_error + bytes) \<times> fetch_log" where
  "safeFetch pf opts raw =
     (let lg = \<lparr>fl_connections = [], fl_bytes = []\<rparr>
      in if fo_aborted opts then (Inl (SafeFetchError ''download cancelled'' True), lg)
         else fetch_hops pf opts (fo_max_redirects opts) 0 raw lg)"

text \<open>\<open>guardedProviderFetch\<close>: the addresses a provider request, credentials and all, may go to.\<close>

definition guardedProviderFetch :: "platform \<Rightarrow> bool \<Rightarrow> string \<Rightarrow> fetch_error + string list option" where
  "guardedProviderFetch pf allowInsecure raw =
     (if allowInsecure then Inr None
      else case pinnedDispatcherFor pf raw of Inl e \<Rightarrow> Inl e | Inr addresses \<Rightarrow> Inr (Some addresses))"

section \<open>Address blocks\<close>

definition in_block :: "'a::len word \<Rightarrow> 'a word \<times> nat \<Rightarrow> bool" where
  "in_block w = (\<lambda>(base, len). drop_bit (LENGTH('a) - len) w = drop_bit (LENGTH('a) - len) base)"

definition ipv4 :: "nat \<Rightarrow> nat \<Rightarrow> nat \<Rightarrow> nat \<Rightarrow> 32 word" where
  "ipv4 a b c d = word_of_nat (a * 2 ^ 24 + b * 2 ^ 16 + c * 2 ^ 8 + d)"

definition BLOCKED_V4 :: "(32 word \<times> nat) list" where
  "BLOCKED_V4 = [(ipv4 0 0 0 0, 8), (ipv4 10 0 0 0, 8), (ipv4 127 0 0 0, 8), (ipv4 169 254 0 0, 16),
     (ipv4 172 16 0 0, 12), (ipv4 192 168 0 0, 16), (ipv4 192 0 0 0, 24), (ipv4 100 64 0 0, 10),
     (ipv4 198 18 0 0, 15), (ipv4 224 0 0 0, 3)]"

lemma unat_ipv4:
  assumes "a < 256" "b < 256" "c < 256" "d < 256"
  shows "unat (ipv4 a b c d) = a * 2 ^ 24 + b * 2 ^ 16 + c * 2 ^ 8 + d"
  using assms by (simp add: ipv4_def unsigned_of_nat take_bit_nat_eq_self del: of_nat_add of_nat_mult)

lemma in_block_div:
  "in_block (w :: 32 word) (base, len) \<longleftrightarrow> unat w div 2 ^ (32 - len) = unat base div 2 ^ (32 - len)"
  unfolding in_block_def prod.case word_unat_eq_iff unat_drop_bit_eq
  by (simp add: drop_bit_eq_div)

lemma ipv4_prefix:
  assumes "b < 256" "c < 256" "d < (256 :: nat)"
  shows "(a * 2 ^ 24 + b * 2 ^ 16 + c * 2 ^ 8 + d) div 2 ^ 24 = a"
    and "(a * 2 ^ 24 + b * 2 ^ 16 + c * 2 ^ 8 + d) div 2 ^ 16 = a * 256 + b"
    and "(a * 2 ^ 24 + b * 2 ^ 16 + c * 2 ^ 8 + d) div 2 ^ 8 = a * 65536 + b * 256 + c"
    and "(a * 2 ^ 24 + b * 2 ^ 16 + c * 2 ^ 8 + d) div 2 ^ 20 = a * 16 + b div 16"
    and "(a * 2 ^ 24 + b * 2 ^ 16 + c * 2 ^ 8 + d) div 2 ^ 22 = a * 4 + b div 64"
    and "(a * 2 ^ 24 + b * 2 ^ 16 + c * 2 ^ 8 + d) div 2 ^ 17 = a * 128 + b div 2"
    and "(a * 2 ^ 24 + b * 2 ^ 16 + c * 2 ^ 8 + d) div 2 ^ 29 = a div 32"
  using assms by (simp_all; presburger)+

lemma digits_eq: "b < k \<Longrightarrow> b' < k \<Longrightarrow> a * k + b = a' * k + b' \<longleftrightarrow> a = a' \<and> b = (b' :: nat)"
  by (metis add_diff_cancel_left' div_mult_self3 mod_less mod_mult_self3 mult_cancel2 not_less0 div_less add_0_left add.commute)

lemma div_eq_range: "0 < k \<Longrightarrow> n div k = q \<longleftrightarrow> q * k \<le> n \<and> n < q * k + (k :: nat)"
  using div_nat_eqI [of k q n] div_times_less_eq_dividend [of n k] dividend_less_div_times [of k n]
  by (auto simp: mult.commute)

lemma blocked_octets_blocks:
  assumes "a < 256" "b < 256" "c < 256" "d < 256"
  shows "blocked_octets (int a) (int b) (int c) \<longleftrightarrow> list_ex (in_block (ipv4 a b c d)) BLOCKED_V4"
proof -
  note prefix = ipv4_prefix [OF assms(2-4)]
  have "list_ex (in_block (ipv4 a b c d)) BLOCKED_V4 \<longleftrightarrow>
      a = 0 \<or> a = 10 \<or> a = 127 \<or> a * 256 + b = 169 * 256 + 254 \<or> a * 16 + b div 16 = 172 * 16 + 1
      \<or> a * 256 + b = 192 * 256 + 168 \<or> a * 65536 + b * 256 + c = 192 * 65536
      \<or> a * 4 + b div 64 = 100 * 4 + 1 \<or> a * 128 + b div 2 = 198 * 128 + 9 \<or> a div 32 = 7"
    unfolding BLOCKED_V4_def
    by (simp add: in_block_div unat_ipv4 assms prefix [simplified])
  also have "\<dots> \<longleftrightarrow> a = 0 \<or> a = 10 \<or> a = 127 \<or> (a = 169 \<and> b = 254)
      \<or> (a = 172 \<and> 16 \<le> b \<and> b < 32) \<or> (a = 192 \<and> b = 168) \<or> (a = 192 \<and> b = 0 \<and> c = 0)
      \<or> (a = 100 \<and> 64 \<le> b \<and> b < 128) \<or> (a = 198 \<and> 18 \<le> b \<and> b < 20) \<or> 224 \<le> a"
  proof -
    have two: "a * 256 + b = 169 * 256 + 254 \<longleftrightarrow> a = 169 \<and> b = 254"
      "a * 256 + b = 192 * 256 + 168 \<longleftrightarrow> a = 192 \<and> b = 168"
      by (rule digits_eq; use assms in simp)+
    have three: "a * 65536 + b * 256 + c = 192 * 65536 \<longleftrightarrow> a = 192 \<and> b = 0 \<and> c = 0"
      using digits_eq [of c 256 0 "a * 256 + b" "192 * 256"] digits_eq [of b 256 0 a 192] assms
      by (simp add: mult.commute)
    have odd: "a * 16 + b div 16 = 172 * 16 + 1 \<longleftrightarrow> a = 172 \<and> b div 16 = 1"
      "a * 4 + b div 64 = 100 * 4 + 1 \<longleftrightarrow> a = 100 \<and> b div 64 = 1"
      "a * 128 + b div 2 = 198 * 128 + 9 \<longleftrightarrow> a = 198 \<and> b div 2 = 9"
      by (rule digits_eq; use assms in simp)+
    have ranges: "b div 16 = 1 \<longleftrightarrow> 16 \<le> b \<and> b < 32" "b div 64 = 1 \<longleftrightarrow> 64 \<le> b \<and> b < 128"
      "b div 2 = 9 \<longleftrightarrow> 18 \<le> b \<and> b < 20" "a div 32 = 7 \<longleftrightarrow> 224 \<le> a"
      using assms(1) by (auto simp: div_eq_range)
    show ?thesis unfolding two three odd ranges by (rule refl)
  qed
  also have "\<dots> \<longleftrightarrow> blocked_octets (int a) (int b) (int c)"
  proof -
    have eqs: "\<And>n k. int n = numeral k \<longleftrightarrow> n = numeral k" "int c = 0 \<longleftrightarrow> c = 0" "int b = 0 \<longleftrightarrow> b = 0" "int a = 0 \<longleftrightarrow> a = 0"
      "16 \<le> int b \<longleftrightarrow> 16 \<le> b" "int b \<le> 31 \<longleftrightarrow> b < 32" "64 \<le> int b \<longleftrightarrow> 64 \<le> b" "int b \<le> 127 \<longleftrightarrow> b < 128"
      "224 \<le> int a \<longleftrightarrow> 224 \<le> a" "b = 18 \<or> b = 19 \<longleftrightarrow> 18 \<le> b \<and> b < 20"
      by (linarith | simp)+
    show ?thesis unfolding blocked_octets_def eqs by (rule refl)
  qed
  finally show ?thesis ..
qed

lemma split_char_no [simp]: "c \<notin> set s \<Longrightarrow> split_char c s = [s]"
  by (induction s) auto

lemma split_char_append: "c \<notin> set s \<Longrightarrow> split_char c (s @ c # t) = s # split_char c t"
  by (induction s) auto

lemma split_dotted: "split_char CHR ''.'' (dotted a b c d) = [show_nat a, show_nat b, show_nat c, show_nat d]"
proof -
  have "\<not> is_digit CHR ''.''" by (simp add: is_digit_def)
  then have "CHR ''.'' \<notin> set (show_nat n)" for n
    using show_nat_digits [of n] unfolding list_all_iff by blast
  then show ?thesis
    using split_char_append [of "CHR ''.''"] by (simp add: dotted_def del: split_char.simps)
qed

lemma isBlockedV4_dotted:
  assumes number: "\<And>n. number (show_nat n) = Num (of_nat n)" and "a < 256" "b < 256" "c < 256" "d < 256"
  shows "isBlockedV4 number (dotted a b c d) \<longleftrightarrow> blocked_octets (int a) (int b) (int c)"
  using assms(2-) by (simp add: isBlockedV4_def v4_octets_def split_dotted number)

text \<open>
  (C40) The IPv4 policy is exactly a list of address blocks: a dotted address is refused if and only if the
  32-bit address it denotes lies in one of the ten CIDR blocks of \<open>BLOCKED_V4\<close>. The octet tests of the
  code are thus a correct implementation of prefix matching; the hypothesis is that \<open>Number\<close> reads
  back a printed natural number.
\<close>

theorem blocked_v4_blocks:
  assumes "\<forall>n. number (show_nat n) = Num (of_nat n)" and "a < 256" "b < 256" "c < 256" "d < 256"
  shows "isBlockedV4 number (dotted a b c d) \<longleftrightarrow> list_ex (in_block (ipv4 a b c d)) BLOCKED_V4"
  using isBlockedV4_dotted [of number a b c d] blocked_octets_blocks [of a b c d] assms by simp

definition plain_number :: "string \<Rightarrow> js_number" where
  "plain_number s = (if s \<noteq> [] \<and> list_all is_digit s then Num (of_nat (read_nat s)) else NaN)"

theorem blocked_v4_blocks_witness:
  "isBlockedV4 plain_number (dotted 169 254 169 254) \<longleftrightarrow> list_ex (in_block (ipv4 169 254 169 254)) BLOCKED_V4"
  by (rule blocked_v4_blocks) (simp_all add: plain_number_def show_nat_digits)

lemma metadata_blocked: "isBlockedV4 plain_number ''169.254.169.254''"
  by code_simp

text \<open>
  The documentation networks (RFC 5737) are not globally routable either, and are let through.
\<close>

lemma documentation_nets_allowed:
  "\<not> isBlockedV4 plain_number ''192.0.2.1''" "\<not> isBlockedV4 plain_number ''198.51.100.7''"
  "\<not> isBlockedV4 plain_number ''203.0.113.9''"
  by code_simp+

lemma site_local_allowed: "\<not> blocked_hextets number [0xfec0, 0, 0, 0, 0, 0, 0, x]"
  by (simp add: blocked_hextets_def)

section \<open>Embedded IPv4 addresses\<close>

definition known_embedding :: "16 word \<times> 16 word \<Rightarrow> bool" where
  "known_embedding e \<longleftrightarrow> e \<in> {(0, 0), (0, 0xffff), (0xffff, 0)}"

definition hextet :: "nat \<Rightarrow> nat \<Rightarrow> 16 word" where
  "hextet a b = word_of_nat (a * 256 + b)"

lemma hextet_bytes:
  assumes "a < 256" "b < 256"
  shows "unat (drop_bit 8 (hextet a b)) = a"
    and "unat (hextet a b AND 0xff) = b"
proof -
  have u: "unat (hextet a b) = a * 256 + b"
    using assms by (simp add: hextet_def unsigned_of_nat take_bit_nat_eq_self del: of_nat_add of_nat_mult)
  show "unat (drop_bit 8 (hextet a b)) = a"
    unfolding unat_drop_bit_eq u using assms by (simp add: drop_bit_eq_div)
  have m: "(0xff :: 16 word) = mask 8" by (simp add: mask_eq_exp_minus_1)
  show "unat (hextet a b AND 0xff) = b"
    unfolding m take_bit_eq_mask [symmetric] unsigned_take_bit_eq u using assms by (simp add: take_bit_eq_mod)
qed

text \<open>
  The IPv6 guard judges an embedded IPv4 address by the IPv4 policy. Among the addresses whose upper
  64 bits are zero, the three standard embeddings (compatible, mapped, translated) are refused exactly
  when the embedded address lies in a blocked IPv4 block, and every other address of that space is refused.
\<close>

theorem embedded_v4_same_policy:
  assumes "\<forall>n. number (show_nat n) = Num (of_nat n)" and "a < 256" "b < 256" "c < 256" "d < 256"
  shows "blocked_hextets number [0, 0, 0, 0, p, q, hextet a b, hextet c d] \<longleftrightarrow>
    (known_embedding (p, q) \<longrightarrow> list_ex (in_block (ipv4 a b c d)) BLOCKED_V4)"
proof -
  have "isBlockedV4 number (embedded_v4 (hextet a b) (hextet c d))
      \<longleftrightarrow> list_ex (in_block (ipv4 a b c d)) BLOCKED_V4"
    using isBlockedV4_dotted [of number a b c d] blocked_octets_blocks [of a b c d] assms
    by (simp add: embedded_v4_def hextet_bytes)
  then show ?thesis by (auto simp: blocked_hextets_def known_embedding_def)
qed

theorem embedded_v4_same_policy_witness:
  "blocked_hextets plain_number [0, 0, 0, 0, 0, 0xffff, hextet 127 0, hextet 0 1] \<longleftrightarrow>
    (known_embedding (0, 0xffff) \<longrightarrow> list_ex (in_block (ipv4 127 0 0 1)) BLOCKED_V4)"
  by (rule embedded_v4_same_policy) (simp_all add: plain_number_def show_nat_digits)

section \<open>What a download may do\<close>

definition public_connection :: "platform \<Rightarrow> fetch_options \<Rightarrow> parsed_url \<times> string list \<Rightarrow> bool" where
  "public_connection pf opts = (\<lambda>(u, addresses).
     pu_protocol u = ''https:''
     \<and> (fo_allowed opts \<noteq> [] \<longrightarrow> normalizeOrigin u \<in> set (map normal_allowed (fo_allowed opts)))
     \<and> addresses \<noteq> [] \<and> \<not> list_ex (isBlockedAddress pf) addresses)"

lemma resolve_public_Inr: "resolve_public pf hop u = Inr as \<Longrightarrow> as \<noteq> [] \<and> \<not> list_ex (isBlockedAddress pf) as"
  by (auto simp: resolve_public_def Let_def split: option.splits if_splits)

lemma validateTarget_Inr: "validateTarget pf hop opts raw = Inr c \<Longrightarrow> public_connection pf opts c"
  by (auto simp: validateTarget_def public_connection_def split: option.splits if_splits sum.splits
      dest!: resolve_public_Inr)

lemma read_chunks_bounds:
  "read_chunks cap aborted cs out seen = (Inr buf, seen') \<Longrightarrow> length out \<le> cap \<Longrightarrow> sum_list seen = length out + k \<Longrightarrow>
     length buf \<le> cap \<and> sum_list seen' = length buf + k"
  by (induction cs arbitrary: out seen) (auto simp: Let_def split: if_splits)

lemma readCapped_bounds:
  "readCapped res cap seen = (Inr buf, seen') \<Longrightarrow> length buf \<le> cap \<and> sum_list seen' = length buf + sum_list seen"
  by (auto simp: readCapped_def Let_def split: if_splits dest!: read_chunks_bounds [where k = "sum_list seen"])

text \<open>The contract of one round, carried through the redirects.\<close>

definition download_ok :: "platform \<Rightarrow> fetch_options \<Rightarrow> nat \<Rightarrow> fetch_log \<Rightarrow> (fetch_error + bytes) \<times> fetch_log \<Rightarrow> bool" where
  "download_ok pf opts rounds lg = (\<lambda>(r, lg').
     list_all (public_connection pf opts) (fl_connections lg')
     \<and> length (fl_connections lg') \<le> length (fl_connections lg) + rounds
     \<and> (case r of Inl _ \<Rightarrow> True
        | Inr buf \<Rightarrow> length buf \<le> fo_max_bytes opts \<and> sum_list (fl_bytes lg') = sum_list (fl_bytes lg) + length buf))"

lemma fetch_hops_ok:
  "list_all (public_connection pf opts) (fl_connections lg) \<Longrightarrow>
     download_ok pf opts (Suc left) lg (fetch_hops pf opts left hop current lg)"
proof (induction pf opts left hop current lg rule: fetch_hops.induct)
  case (1 pf opts left hop current lg)
  show ?case
  proof (cases "validateTarget pf hop opts current")
    case (Inl e)
    then show ?thesis using 1 by (simp add: fetch_hops.simps [of pf opts left hop current] download_ok_def)
  next
    case (Inr c)
    obtain u as where c: "c = (u, as)" by fastforce
    define rounds where "rounds = Suc left"
    define lg1 where "lg1 = lg\<lparr>fl_connections := fl_connections lg @ [(u, as)]\<rparr>"
    have ok1: "list_all (public_connection pf opts) (fl_connections lg1)"
      using 1 validateTarget_Inr Inr c by (simp add: lg1_def)
    have rec: "download_ok pf opts rounds lg (fetch_hops pf opts l (Suc hop) t lg1)"
      if "pf_serve pf hop u as = Inr res" "300 \<le> rs_status res \<and> rs_status res < 400"
        "rs_location res = Some loc" "loc \<noteq> ''''" "left = Suc l" "pf_resolve pf loc u = Some t" for res loc l t
      using "1.IH" [OF Inr c [symmetric] lg1_def that] ok1 that by (auto simp: download_ok_def lg1_def rounds_def split: sum.splits)
    have stop: "download_ok pf opts rounds lg (Inl e, lg1)" for e
      using ok1 by (simp add: download_ok_def lg1_def rounds_def)
    have read: "download_ok pf opts rounds lg (r, lg1\<lparr>fl_bytes := seen\<rparr>)"
      if "readCapped res (fo_max_bytes opts) (fl_bytes lg1) = (r, seen)" for res r seen
      using ok1 that readCapped_bounds [of res "fo_max_bytes opts" "fl_bytes lg1"]
      by (auto simp: download_ok_def lg1_def rounds_def split: sum.splits)
    show ?thesis
      unfolding fetch_hops.simps [of pf opts left hop current] Inr c sum.case prod.case Let_def lg1_def [symmetric] rounds_def [symmetric]
      by (auto split: sum.splits option.splits nat.splits prod.splits intro: rec stop read)
  qed
qed


text \<open>A location the URL parser refuses escapes as the parser's own error.\<close>

lemma malformed_location_raw_error:
  assumes "\<not> fo_aborted opts" "fo_max_redirects opts = Suc n"
    and "validateTarget pf 0 opts raw = Inr (u, as)" "pf_serve pf 0 u as = Inr res"
    and "300 \<le> rs_status res" "rs_status res < 400" "rs_location res = Some (c # loc)"
    and "pf_resolve pf (c # loc) u = None"
  shows "fst (safeFetch pf opts raw) = Inl UrlError"
  using assms by (simp add: safeFetch_def fetch_hops.simps Let_def)

text \<open>The connection of a guarded provider request is pinned to public addresses too.\<close>

lemma provider_fetch_public:
  "guardedProviderFetch pf allowInsecure raw = Inr (Some as) \<Longrightarrow>
     \<not> allowInsecure \<and> as \<noteq> [] \<and> \<not> list_ex (isBlockedAddress pf) (pinnedLookup as host wants_all)"
  by (cases as)
    (auto simp: guardedProviderFetch_def pinnedDispatcherFor_def pinnedLookup_def list_ex_iff
      split: if_splits option.splits sum.splits dest!: resolve_public_Inr)

end
