(* ===== verification/Strip_Base.thy ===== *)
theory Strip_Base
  imports Prelude "HOL-Library.Word"
begin

text \<open>
  The plumbing of the media metadata stripper of the app
  (\<open>packages/app/src/lib/media/strip-metadata.ts\<close>): reads that fail past the end of the file, the edits
  a container walk collects, and \<open>assemble\<close>, which lays them over the original. A file is its
  list of bytes; \<open>fail(why)\<close> is \<open>Inl why\<close>. The typed array reads \<open>undefined\<close> past its end, which the
  bit operators take as zero (\<open>byte_at\<close>).

  The lemmas give \<open>assemble\<close> its meaning: the length never changes, an edited byte is the edit's,
  any other is the original's (\<open>assemble_pointwise\<close>); edits that are already in order are laid one after the
  other (\<open>assemble_in_order\<close>), which is how the container walks are proved.
\<close>

section \<open>Bytes, reads and failures\<close>

type_synonym octet = "8 word"
type_synonym octets = "octet list"

type_synonym 'a strip = "string + 'a"

definition and_then :: "'a strip \<Rightarrow> ('a \<Rightarrow> 'b strip) \<Rightarrow> 'b strip" where
  "and_then m k = (case m of Inl e \<Rightarrow> Inl e | Inr x \<Rightarrow> k x)"

lemma and_then_simps [simp]: "and_then (Inl e) k = Inl e" "and_then (Inr x) k = k x"
  by (simp_all add: and_then_def)

lemma and_then_Inr [simp]: "and_then m k = Inr y \<longleftrightarrow> (\<exists>x. m = Inr x \<and> k x = Inr y)"
  by (cases m) simp_all

lemma and_then_cong [fundef_cong]:
  "m = m' \<Longrightarrow> (\<And>x. m' = Inr x \<Longrightarrow> k x = k' x) \<Longrightarrow> and_then m k = and_then m' k'"
  by (cases m') simp_all

definition ensure :: "bool \<Rightarrow> string \<Rightarrow> unit strip" where
  "ensure b why = (if b then Inr () else Inl why)"

lemma ensure_Inr [simp]: "ensure b why = Inr u \<longleftrightarrow> b"
  by (simp add: ensure_def)

definition slice :: "'a list \<Rightarrow> nat \<Rightarrow> nat \<Rightarrow> 'a list" where
  "slice f a b = take (b - a) (drop a f)"

definition byte_at :: "octets \<Rightarrow> nat \<Rightarrow> nat" where
  "byte_at b i = (if i < length b then unat (b ! i) else 0)"

definition readAt :: "octets \<Rightarrow> nat \<Rightarrow> nat \<Rightarrow> octets strip" where
  "readAt file start len =
     (if length file < start + len then Inl ''read past end of file'' else Inr (slice file start (start + len)))"

definition ascii :: "octets \<Rightarrow> nat \<Rightarrow> nat \<Rightarrow> string" where
  "ascii b p len = map (\<lambda>i. char_of (byte_at b (p + i))) [0..<len]"

definition u32be :: "octets \<Rightarrow> nat \<Rightarrow> nat" where
  "u32be b i = ((byte_at b i * 256 + byte_at b (i + 1)) * 256 + byte_at b (i + 2)) * 256 + byte_at b (i + 3)"

definition u64be :: "octets \<Rightarrow> nat \<Rightarrow> nat strip" where
  "u64be b i =
     (let v = u32be b i * 2 ^ 32 + u32be b (i + 4)
      in if 2 ^ 53 \<le> v then Inl ''64-bit size out of range'' else Inr v)"

definition u32le :: "octets \<Rightarrow> nat \<Rightarrow> nat" where
  "u32le b i = byte_at b i + 256 * (byte_at b (i + 1) + 256 * (byte_at b (i + 2) + 256 * byte_at b (i + 3)))"

lemma byte_at_less [simp]: "byte_at b i < 256"
  using unsigned_less [where 'b = 8 and 'a = nat] by (simp add: byte_at_def)

lemma byte_at_append:
  "byte_at (xs @ ys) i = (if i < length xs then byte_at xs i else byte_at ys (i - length xs))"
  by (auto simp: byte_at_def nth_append)

lemma byte_at_Cons [simp]: "byte_at (x # xs) 0 = unat x" "byte_at (x # xs) (Suc i) = byte_at xs i"
  by (simp_all add: byte_at_def)

lemma length_slice [simp]: "length (slice f a b) = min (b - a) (length f - a)"
  by (simp add: slice_def)

lemma slice_nth: "i < b - a \<Longrightarrow> a + i < length f \<Longrightarrow> slice f a b ! i = f ! (a + i)"
  by (simp add: slice_def)

lemma slice_self [simp]: "b \<le> a \<Longrightarrow> slice f a b = []"
  by (simp add: slice_def)

lemma slice_all [simp]: "length f \<le> b \<Longrightarrow> slice f 0 b = f"
  by (simp add: slice_def)

lemma slice_append: "a \<le> b \<Longrightarrow> b \<le> c \<Longrightarrow> slice f a b @ slice f b c = slice f a c"
  by (auto simp: slice_def take_add drop_drop add.commute le_iff_add)

lemma slice_append_left [simp]: "b \<le> length xs \<Longrightarrow> slice (xs @ ys) a b = slice xs a b"
  by (simp add: slice_def)

lemma slice_append_right:
  "length xs \<le> a \<Longrightarrow> slice (xs @ ys) a b = slice ys (a - length xs) (b - length xs)"
  by (simp add: slice_def)

lemma byte_at_slice: "i < b - a \<Longrightarrow> b \<le> length f \<Longrightarrow> byte_at (slice f a b) i = byte_at f (a + i)"
  by (auto simp: byte_at_def slice_nth)

lemma readAt_Inr: "readAt file start len = Inr h \<longleftrightarrow> start + len \<le> length file \<and> h = slice file start (start + len)"
  by (auto simp: readAt_def)

section \<open>Edits\<close>

datatype edit = Bytes nat octets | Zeros nat nat

fun edit_at :: "edit \<Rightarrow> nat" where
  "edit_at (Bytes p _) = p"
| "edit_at (Zeros p _) = p"

fun editLen :: "edit \<Rightarrow> nat" where
  "editLen (Bytes _ bs) = length bs"
| "editLen (Zeros _ n) = n"

definition edit_end :: "edit \<Rightarrow> nat" where
  "edit_end d = edit_at d + editLen d"

text \<open>A run of zeros is pushed in chunks of 64 KiB.\<close>

definition ZERO_CHUNK :: nat where "ZERO_CHUNK = 64 * 1024"

function zero_parts :: "nat \<Rightarrow> octets list" where
  "zero_parts n = (if n = 0 then [] else let k = min n ZERO_CHUNK in replicate k 0 # zero_parts (n - k))"
  by auto
termination
  by (relation "measure id") (auto simp: ZERO_CHUNK_def)

declare zero_parts.simps [simp del]

lemma concat_zero_parts [simp]: "concat (zero_parts n) = replicate n 0"
proof (induction n rule: zero_parts.induct)
  case (1 n)
  show ?case
    using 1 by (subst zero_parts.simps)
      (simp add: Let_def ZERO_CHUNK_def replicate_add [symmetric])
qed

fun edit_content :: "edit \<Rightarrow> octets" where
  "edit_content (Bytes _ bs) = bs"
| "edit_content (Zeros _ n) = concat (zero_parts n)"

lemma length_edit_content [simp]: "length (edit_content d) = editLen d"
  by (cases d) simp_all

text \<open>The merge loop of \<open>assemble\<close>; \<open>acc\<close> is \<open>merged\<close>, its last element first.\<close>

fun merge_edits :: "nat \<Rightarrow> nat \<Rightarrow> edit list \<Rightarrow> edit list \<Rightarrow> edit list strip" where
  "merge_edits start stop acc [] = Inr (rev acc)"
| "merge_edits start stop acc (d # ds) =
     (if edit_at d < start \<or> stop < edit_end d then Inl ''edit outside the file''
      else case acc of
        [] \<Rightarrow> merge_edits start stop [d] ds
      | prev # rest \<Rightarrow>
          if edit_at d < edit_end prev then
            (case (prev, d) of
               (Zeros p n, Zeros q m) \<Rightarrow> merge_edits start stop (Zeros p (max n (q + m - p)) # rest) ds
             | _ \<Rightarrow> Inl ''overlapping edits'')
          else merge_edits start stop (d # prev # rest) ds)"

fun weave :: "octets \<Rightarrow> nat \<Rightarrow> nat \<Rightarrow> edit list \<Rightarrow> octets" where
  "weave file pos stop [] = slice file pos stop"
| "weave file pos stop (d # ds) = slice file pos (edit_at d) @ edit_content d @ weave file (edit_end d) stop ds"

definition assemble :: "octets \<Rightarrow> edit list \<Rightarrow> nat \<Rightarrow> nat \<Rightarrow> octets strip" where
  "assemble file edits start stop =
     and_then (merge_edits start stop [] (sort_key edit_at (filter (\<lambda>d. 0 < editLen d) edits)))
       (\<lambda>merged. Inr (weave file start stop merged))"

section \<open>What assembling does\<close>

fun in_order :: "nat \<Rightarrow> nat \<Rightarrow> edit list \<Rightarrow> bool" where
  "in_order pos stop [] \<longleftrightarrow> pos \<le> stop"
| "in_order pos stop (d # ds) \<longleftrightarrow> pos \<le> edit_at d \<and> in_order (edit_end d) stop ds"

lemma in_order_le: "in_order pos e ds \<Longrightarrow> pos \<le> e"
  by (induction ds arbitrary: pos) (auto simp: edit_end_def intro: le_trans add_leD1)

lemma length_weave: "in_order pos e ds \<Longrightarrow> e \<le> length file \<Longrightarrow> length (weave file pos e ds) = e - pos"
proof (induction ds arbitrary: pos)
  case (Cons d ds)
  then show ?case using in_order_le [of "edit_end d" e ds] by (simp add: edit_end_def)
qed simp

definition covered :: "edit list \<Rightarrow> nat \<Rightarrow> octet \<Rightarrow> bool" where
  "covered ds i b \<longleftrightarrow> (\<exists>d\<in>set ds. edit_at d \<le> i \<and> i < edit_end d \<and> b = edit_content d ! (i - edit_at d))"

lemma covered_simps [simp]:
  "\<not> covered [] i b"
  "covered (d # ds) i b \<longleftrightarrow> (edit_at d \<le> i \<and> i < edit_end d \<and> b = edit_content d ! (i - edit_at d)) \<or> covered ds i b"
  "covered (ds @ ds') i b \<longleftrightarrow> covered ds i b \<or> covered ds' i b"
  by (auto simp: covered_def)

lemma covered_ge: "in_order pos e ds \<Longrightarrow> covered ds i b \<Longrightarrow> pos \<le> i"
proof (induction ds arbitrary: pos)
  case (Cons d ds)
  show ?case using Cons.IH [of "edit_end d"] Cons.prems by (auto simp: edit_end_def)
qed simp

lemma weave_nth:
  assumes "in_order pos e (d # ds)" "e \<le> length file" "pos \<le> i" "i < e"
  shows "weave file pos e (d # ds) ! (i - pos) =
    (if i < edit_at d then file ! i
     else if i < edit_end d then edit_content d ! (i - edit_at d)
     else weave file (edit_end d) e ds ! (i - edit_end d))"
proof -
  obtain j where i: "i = pos + j" using assms(3) le_iff_add by blast
  have e: "edit_end d \<le> e" "pos \<le> edit_at d" using assms(1) in_order_le by auto
  then have len: "length (slice file pos (edit_at d)) = edit_at d - pos" using assms(2) by (simp add: edit_end_def)
  show ?thesis
    using len e assms(2) unfolding weave.simps nth_append length_append length_edit_content len
    by (auto simp: i slice_nth edit_end_def simp flip: i) (simp_all add: i)
qed

lemma weave_pointwise:
  "in_order pos e ds \<Longrightarrow> e \<le> length file \<Longrightarrow> pos \<le> i \<Longrightarrow> i < e \<Longrightarrow>
     covered ds i (weave file pos e ds ! (i - pos)) \<or> (\<nexists>b. covered ds i b) \<and> weave file pos e ds ! (i - pos) = file ! i"
proof (induction ds arbitrary: pos)
  case (Cons d ds)
  have e: "edit_end d \<le> e" using Cons.prems in_order_le by auto
  consider "i < edit_at d" | "edit_at d \<le> i" "i < edit_end d" | "edit_end d \<le> i" by linarith
  then show ?case
  proof cases
    case 1
    then have "\<not> covered ds i b" for b
      using Cons.prems covered_ge [of "edit_end d" e ds i b] by (auto simp: edit_end_def)
    then show ?thesis using 1 weave_nth [OF Cons.prems] by simp
  next
    case 2
    then show ?thesis using weave_nth [OF Cons.prems] by simp
  next
    case 3
    then show ?thesis using Cons.prems Cons.IH [of "edit_end d"] weave_nth [OF Cons.prems] by (auto simp: edit_end_def)
  qed
qed (simp add: slice_nth)

lemma covered_rev [simp]: "covered (rev ds) i b \<longleftrightarrow> covered ds i b"
  by (simp add: covered_def)

lemma in_order_snoc: "in_order pos e (ds @ [d]) \<longleftrightarrow> in_order pos (edit_at d) ds \<and> edit_end d \<le> e"
  by (induction ds arbitrary: pos) simp_all

lemma covered_zeros: "covered [Zeros p n] i b \<longleftrightarrow> p \<le> i \<and> i < p + n \<and> b = 0"
  by (auto simp: edit_end_def)

lemma covered_merged_zeros:
  assumes "p \<le> q" "q < p + n"
  shows "covered (Zeros p (max n (q + m - p)) # ds) i b \<longleftrightarrow> covered (Zeros p n # Zeros q m # ds) i b"
proof -
  have "covered [Zeros p (max n (q + m - p))] i b \<longleftrightarrow> covered [Zeros p n] i b \<or> covered [Zeros q m] i b"
    unfolding covered_zeros using assms by auto
  then show ?thesis by auto
qed

lemma merge_edits_sound:
  "merge_edits start stop (prev # rest) ds = Inr m \<Longrightarrow> sorted (map edit_at ds) \<Longrightarrow>
     (\<forall>d\<in>set ds. edit_at prev \<le> edit_at d) \<Longrightarrow> in_order start (edit_at prev) (rev rest) \<Longrightarrow> edit_end prev \<le> stop \<Longrightarrow>
     in_order start stop m \<and> (\<forall>i b. covered m i b \<longleftrightarrow> covered (prev # rest @ ds) i b)"
proof (induction ds arbitrary: prev rest)
  case Nil
  then show ?case by (auto simp: in_order_snoc)
next
  case (Cons d ds)
  have inside: "edit_end d \<le> stop" using Cons.prems(1) by (auto split: if_splits)
  show ?case
  proof (cases "edit_at d < edit_end prev")
    case False
    have "merge_edits start stop (d # prev # rest) ds = Inr m"
      using Cons.prems(1) False by (auto split: if_splits)
    then show ?thesis
      using Cons.IH [of d "prev # rest"] Cons.prems False inside by (auto simp: in_order_snoc)
  next
    case True
    then obtain p n q k where z: "prev = Zeros p n" "d = Zeros q k"
      using Cons.prems(1) by (cases prev; cases d) (auto split: if_splits)
    let ?z = "Zeros p (max n (q + k - p))"
    have m: "merge_edits start stop (?z # rest) ds = Inr m"
      using Cons.prems(1) True z by (auto split: if_splits)
    have "edit_end ?z \<le> stop" using Cons.prems(5) inside z by (simp add: edit_end_def)
    then have "in_order start stop m \<and> (\<forall>i b. covered m i b \<longleftrightarrow> covered (?z # rest @ ds) i b)"
      using Cons.IH [OF m] Cons.prems z by simp
    moreover have "covered (?z # rest @ ds) i b \<longleftrightarrow> covered (prev # rest @ d # ds) i b" for i b
      using covered_merged_zeros [of p q n k "rest @ ds" i b] Cons.prems(3) True unfolding z by (auto simp: edit_end_def)
    ultimately show ?thesis by simp
  qed
qed

definition same_cover :: "edit list \<Rightarrow> edit list \<Rightarrow> bool" where
  "same_cover ds ds' \<longleftrightarrow> (\<forall>i b. covered ds i b \<longleftrightarrow> covered ds' i b)"

lemma same_cover_filter: "same_cover (sort_key edit_at (filter (\<lambda>d. 0 < editLen d) ds)) ds"
  by (auto simp: same_cover_def covered_def edit_end_def)

lemma merged_ok:
  assumes "merge_edits start stop [] (sort_key edit_at ds) = Inr m" "start \<le> stop"
  shows "in_order start stop m \<and> same_cover m (sort_key edit_at ds)"
proof (cases "sort_key edit_at ds")
  case Nil
  then show ?thesis using assms by (simp add: same_cover_def)
next
  case (Cons d rest)
  have "sorted (map edit_at (d # rest))" using Cons by (metis sorted_sort_key)
  moreover have "merge_edits start stop [d] rest = Inr m" "start \<le> edit_at d" "edit_end d \<le> stop"
    using assms(1) Cons by (auto split: if_splits)
  ultimately show ?thesis
    using merge_edits_sound [of start stop d "[]" rest m] Cons by (auto simp: same_cover_def)
qed

lemma assemble_pointwise:
  assumes "assemble file edits start stop = Inr out" "start \<le> stop" "stop \<le> length file"
  shows "length out = stop - start"
    and "start \<le> i \<Longrightarrow> i < stop \<Longrightarrow>
      covered edits i (out ! (i - start)) \<or> (\<nexists>b. covered edits i b) \<and> out ! (i - start) = file ! i"
proof -
  obtain m where m: "merge_edits start stop [] (sort_key edit_at (filter (\<lambda>d. 0 < editLen d) edits)) = Inr m"
    and out: "out = weave file start stop m"
    using assms(1) by (auto simp: assemble_def)
  have ok: "in_order start stop m" "same_cover m edits"
    using merged_ok [OF m assms(2)] same_cover_filter [of edits] by (auto simp: same_cover_def)
  show "length out = stop - start" using length_weave ok(1) assms(3) out by blast
  show "start \<le> i \<Longrightarrow> i < stop \<Longrightarrow>
      covered edits i (out ! (i - start)) \<or> (\<nexists>b. covered edits i b) \<and> out ! (i - start) = file ! i"
    using weave_pointwise [OF ok(1) assms(3)] ok(2) unfolding out same_cover_def by blast
qed

text \<open>Edits that already stand one after the other are laid as they are.\<close>

lemma in_order_all: "in_order pos e ds \<Longrightarrow> d \<in> set ds \<Longrightarrow> pos \<le> edit_at d \<and> edit_end d \<le> e"
proof (induction ds arbitrary: pos)
  case (Cons c ds)
  show ?case using Cons.prems in_order_le [of "edit_end c" e ds] Cons.IH [of "edit_end c"]
    by (auto simp: edit_end_def)
qed simp

lemma in_order_sorted: "in_order pos e ds \<Longrightarrow> sorted (map edit_at ds)"
proof (induction ds arbitrary: pos)
  case (Cons d ds)
  then show ?case using in_order_all [of "edit_end d" e ds] by (fastforce simp: edit_end_def)
qed simp

lemma in_order_weaken: "in_order pos e ds \<Longrightarrow> q \<le> pos \<Longrightarrow> in_order q e ds"
  by (cases ds) auto

lemma weave_skip:
  assumes "in_order p e ds" "q \<le> p" "e \<le> length file"
  shows "weave file q e ds = slice file q p @ weave file p e ds"
proof (cases ds)
  case Nil
  then show ?thesis using assms by (simp add: slice_append)
next
  case (Cons d ds')
  then show ?thesis using assms by (simp add: slice_append flip: append_assoc)
qed

lemma in_order_filter:
  "in_order pos e ds \<Longrightarrow> e \<le> length file \<Longrightarrow> in_order pos e (filter (\<lambda>d. 0 < editLen d) ds)
     \<and> weave file pos e (filter (\<lambda>d. 0 < editLen d) ds) = weave file pos e ds"
proof (induction ds arbitrary: pos)
  case (Cons d ds)
  then have IH: "in_order (edit_end d) e (filter (\<lambda>d. 0 < editLen d) ds)"
      "weave file (edit_end d) e (filter (\<lambda>d. 0 < editLen d) ds) = weave file (edit_end d) e ds"
    by auto
  show ?case
  proof (cases "0 < editLen d")
    case False
    then have ends: "edit_end d = edit_at d" and nil: "edit_content d = []"
      using length_edit_content [of d] by (simp_all add: edit_end_def del: length_edit_content)
    show ?thesis
      using False IH Cons.prems in_order_weaken weave_skip [OF IH(1), of pos "file"]
      by (auto simp: ends nil)
  qed (use IH Cons.prems in auto)
qed simp

lemma merge_edits_in_order:
  "in_order (case acc of [] \<Rightarrow> start | d # _ \<Rightarrow> edit_end d) stop ds \<Longrightarrow> (\<forall>d\<in>set acc. start \<le> edit_at d) \<Longrightarrow>
     merge_edits start stop acc ds = Inr (rev acc @ ds)"
proof (induction ds arbitrary: acc)
  case (Cons d ds)
  have d: "start \<le> edit_at d" "edit_end d \<le> stop"
    using Cons.prems in_order_le [of "edit_end d" stop ds] by (cases acc; force simp: edit_end_def)+
  then show ?case using Cons.prems Cons.IH [of "d # acc"] by (cases acc) auto
qed simp

lemma assemble_in_order:
  assumes "in_order start stop edits" "stop \<le> length file"
  shows "assemble file edits start stop = Inr (weave file start stop edits)"
proof -
  let ?ds = "filter (\<lambda>d. 0 < editLen d) edits"
  have ds: "in_order start stop ?ds" "weave file start stop ?ds = weave file start stop edits"
    using in_order_filter assms by blast+
  have "sort_key edit_at ?ds = ?ds" by (rule sort_key_id_if_sorted [OF in_order_sorted [OF ds(1)]])
  moreover have "merge_edits start stop [] ?ds = Inr ?ds" using merge_edits_in_order [where acc = "[]"] ds(1) by simp
  ultimately show ?thesis by (simp add: assemble_def ds(2))
qed

text \<open>A stretch of the file no further edit touches is appended unchanged.\<close>

lemma weave_tail:
  "in_order pos mid ds \<Longrightarrow> mid \<le> e \<Longrightarrow> weave file pos e ds = weave file pos mid ds @ slice file mid e"
  by (induction ds arbitrary: pos) (simp_all add: slice_append)

lemma in_order_extend: "in_order pos mid ds \<Longrightarrow> mid \<le> e \<Longrightarrow> in_order pos e ds"
  by (induction ds arbitrary: pos) simp_all

section \<open>Windowed reads\<close>

text \<open>
  \<open>WindowReader\<close> keeps one window of the file. Reading through it is reading the file
  (\<open>window_bytes_direct\<close>), which is how the walks below read.
\<close>

record window =
  winStart :: nat
  win :: octets

definition winSize :: nat where "winSize = 64 * 1024"

definition new_window :: window where
  "new_window = \<lparr>winStart = 0, win = []\<rparr>"

definition window_bytes :: "octets \<Rightarrow> window \<Rightarrow> nat \<Rightarrow> nat \<Rightarrow> (window \<times> octets) strip" where
  "window_bytes file w pos n =
     (let reading = (\<lambda>w. Inr (w, slice (win w) (pos - winStart w) (pos - winStart w + n)))
      in if pos < winStart w \<or> winStart w + length (win w) < pos + n then
           (let len = min (int (max n winSize)) (int (length file) - int pos)
            in if len < int n then Inl ''truncated element''
               else and_then (readAt file pos (nat len)) (\<lambda>b. reading \<lparr>winStart = pos, win = b\<rparr>))
         else reading w)"

definition read_bytes :: "octets \<Rightarrow> nat \<Rightarrow> nat \<Rightarrow> octets strip" where
  "read_bytes file pos n =
     (if length file < pos + n then Inl ''truncated element'' else Inr (slice file pos (pos + n)))"

lemma read_bytes_Inr: "read_bytes file pos n = Inr b \<longleftrightarrow> pos + n \<le> length file \<and> b = slice file pos (pos + n)"
  by (auto simp: read_bytes_def)

definition window_ok :: "octets \<Rightarrow> window \<Rightarrow> bool" where
  "window_ok file w \<longleftrightarrow>
     winStart w + length (win w) \<le> length file \<and> win w = slice file (winStart w) (winStart w + length (win w))"

lemma window_ok_new: "window_ok file new_window"
  by (simp add: window_ok_def new_window_def)

lemma slice_slice: "b \<le> d - c \<Longrightarrow> slice (slice f c d) a b = slice f (c + a) (c + b)"
  by (simp add: slice_def drop_take take_take add.commute min_def)

lemma window_bytes_direct:
  assumes "window_ok file w"
  shows "map_sum id snd (window_bytes file w pos n) = read_bytes file pos n"
    and "window_bytes file w pos n = Inr (w', b) \<Longrightarrow> window_ok file w'"
proof -
  consider (refill) "pos < winStart w \<or> winStart w + length (win w) < pos + n"
    | (hit) "winStart w \<le> pos" "pos + n \<le> winStart w + length (win w)" by linarith
  then have "map_sum id snd (window_bytes file w pos n) = read_bytes file pos n \<and>
    (window_bytes file w pos n = Inr (w', b) \<longrightarrow> window_ok file w')"
  proof cases
    case refill
    then show ?thesis
      by (auto simp: window_bytes_def read_bytes_def readAt_def Let_def window_ok_def slice_slice winSize_def)
  next
    case hit
    have "slice (win w) (pos - winStart w) (pos - winStart w + n) = slice file pos (pos + n)"
      using assms hit slice_slice [of "pos - winStart w + n" "winStart w + length (win w)" "winStart w" "file" "pos - winStart w"]
      by (simp add: window_ok_def)
    then show ?thesis using hit assms by (auto simp: window_bytes_def read_bytes_def window_ok_def)
  qed
  then show "map_sum id snd (window_bytes file w pos n) = read_bytes file pos n"
    and "window_bytes file w pos n = Inr (w', b) \<Longrightarrow> window_ok file w'" by blast+
qed

lemma in_order_append: "in_order p m ds \<Longrightarrow> in_order m e ds' \<Longrightarrow> in_order p e (ds @ ds')"
  by (induction ds arbitrary: p) (auto intro: in_order_weaken)

lemma weave_append:
  "in_order p m ds \<Longrightarrow> in_order m e ds' \<Longrightarrow> e \<le> length f \<Longrightarrow> weave f p e (ds @ ds') = weave f p m ds @ weave f m e ds'"
proof (induction ds arbitrary: p)
  case Nil
  then show ?case using weave_skip [of m e ds' p f] by simp
qed simp

section \<open>Bytes of numbers\<close>

definition octet_of :: "nat \<Rightarrow> octet" where
  "octet_of n = word_of_nat n"

lemma unat_octet_of [simp]: "unat (octet_of n) = n mod 256"
  by (simp add: octet_of_def unsigned_of_nat take_bit_eq_mod)

lemma octet_of_unat [simp]: "octet_of (unat b) = b"
  by (simp add: octet_of_def)

lemma octet_of_mod: "octet_of n = octet_of (n mod 256)"
  by (simp add: word_unat_eq_iff)

lemma drop_drop_append: "drop p f = xs @ ys \<Longrightarrow> drop (p + length xs) f = ys"
  by (metis add.commute append_eq_conv_conj drop_drop)

section \<open>Files compared byte by byte\<close>

definition same_bytes :: "octets \<Rightarrow> octets \<Rightarrow> nat \<Rightarrow> nat \<Rightarrow> bool" where
  "same_bytes b b' p q \<longleftrightarrow> (\<forall>i. p \<le> i \<and> i < q \<longrightarrow> byte_at b' i = byte_at b i)"

lemma same_bytes_refl [simp]: "same_bytes b b p q"
  by (simp add: same_bytes_def)

lemma same_bytes_trans: "same_bytes a b p q \<Longrightarrow> same_bytes b c p q \<Longrightarrow> same_bytes a c p q"
  by (simp add: same_bytes_def)

lemma same_bytes_sub: "same_bytes b b' p q \<Longrightarrow> p \<le> p' \<Longrightarrow> q' \<le> q \<Longrightarrow> same_bytes b b' p' q'"
  by (simp add: same_bytes_def)

lemma same_bytes_sym: "same_bytes b b' p q \<Longrightarrow> same_bytes b' b p q"
  by (simp add: same_bytes_def)

lemma same_bytes_join: "same_bytes f g p m \<Longrightarrow> same_bytes f g m q \<Longrightarrow> same_bytes f g p q"
  by (metis same_bytes_def not_le)

text \<open>The positions in a list of ranges.\<close>

definition in_spans :: "(nat \<times> nat) list \<Rightarrow> nat \<Rightarrow> bool" where
  "in_spans spans i \<longleftrightarrow> (\<exists>(s, e)\<in>set spans. s \<le> i \<and> i < e)"

lemma in_spans_simps [simp]:
  "\<not> in_spans [] i" "in_spans ((s, e) # rest) i \<longleftrightarrow> s \<le> i \<and> i < e \<or> in_spans rest i"
  "in_spans (xs @ ys) i \<longleftrightarrow> in_spans xs i \<or> in_spans ys i"
  by (auto simp: in_spans_def)

text \<open>The bytes of \<open>g\<close> from \<open>p\<close> to \<open>q\<close> are the edits, and those of \<open>f\<close> where there is no edit.\<close>

definition laid :: "edit list \<Rightarrow> octets \<Rightarrow> octets \<Rightarrow> nat \<Rightarrow> nat \<Rightarrow> bool" where
  "laid ds f g p q \<longleftrightarrow>
     (\<forall>i. p \<le> i \<and> i < q \<longrightarrow> covered ds i (g ! i) \<or> (\<nexists>b. covered ds i b) \<and> g ! i = f ! i)"

lemma covered_lt: "in_order pos e ds \<Longrightarrow> covered ds i b \<Longrightarrow> i < e"
  using in_order_all [of pos e ds] by (fastforce simp: covered_def)

lemma laid_append:
  assumes "laid (ds @ ds') f g p q" "in_order p m ds" "in_order m q ds'"
  shows "laid ds f g p m" and "laid ds' f g m q"
proof -
  have le: "p \<le> m" "m \<le> q" using in_order_le assms(2,3) by blast+
  have "covered (ds @ ds') i b \<longleftrightarrow> covered ds i b" if "i < m" for i b
    using covered_ge [OF assms(3)] that by (force simp: not_le)
  moreover have "covered (ds @ ds') i b \<longleftrightarrow> covered ds' i b" if "m \<le> i" for i b
    using covered_lt [OF assms(2)] that by (force simp: not_le)
  ultimately show "laid ds f g p m" "laid ds' f g m q"
    using assms(1) le unfolding laid_def by (meson less_le_trans order_trans)+
qed

lemma laid_Nil: "laid [] f g p q \<Longrightarrow> length g = length f \<Longrightarrow> q \<le> length f \<Longrightarrow> same_bytes f g p q"
  by (simp add: laid_def same_bytes_def byte_at_def)

lemma laid_Bytes:
  assumes "laid [Bytes p b] f g p q" "length b = q - p" "q \<le> length g"
  shows "slice g p q = b"
proof (rule nth_equalityI)
  show "length (slice g p q) = length b" using assms(2,3) by simp
  show "slice g p q ! i = b ! i" if "i < length (slice g p q)" for i
    using that assms by (force simp: laid_def slice_nth edit_end_def)
qed

end
