(* ===== verification/Strip_Audio.thy ===== *)
theory Strip_Audio
  imports Strip_Base Js_Number
begin

text \<open>
  The audio containers of the media metadata stripper
  (\<open>packages/app/src/lib/media/strip-metadata.ts\<close>): FLAC, WAV and MP3. Masks of low bits are \<open>mod\<close>
  and shifts \<open>div\<close> on the byte values. The walks return the edits in the order the code pushes
  them. \<open>Number\<close> on a string is an argument.

  FLAC and WAV files are described by their blocks; the theorems say that a stripped file has the same blocks
  with the metadata ones blanked, the same length and the same audio. The loop that peels tags off the end of an MP3
  may not end; it is a partial function, with a theorem for when it does and one for a footer
  that makes it run forever.
\<close>

section \<open>FLAC\<close>

function flac_walk :: "octets \<Rightarrow> nat \<Rightarrow> bool \<Rightarrow> nat \<Rightarrow> (edit list \<times> nat) strip" where
  "flac_walk file stop first p =
     (if stop < p + 4 then Inl ''truncated FLAC metadata''
      else and_then (readAt file p 4) (\<lambda>h.
        let final = 128 \<le> byte_at h 0;
            type = byte_at h 0 mod 128;
            len = byte_at h 1 * 65536 + byte_at h 2 * 256 + byte_at h 3
        in if type = 127 \<or> first \<and> type \<noteq> 0 then Inl ''bad FLAC metadata block''
           else if stop < p + 4 + len then Inl ''FLAC metadata block runs past the end''
           else let edits = (if type \<noteq> 0 \<and> type \<noteq> 3
                             then [Bytes p [octet_of ((if final then 128 else 0) + 1), h ! 1, h ! 2, h ! 3],
                                   Zeros (p + 4) len]
                             else [])
                in if final then Inr (edits, p + 4 + len)
                   else and_then (flac_walk file stop False (p + 4 + len)) (\<lambda>(rest, q). Inr (edits @ rest, q))))"
  by auto
termination
  by (relation "measure (\<lambda>(file, stop, first, p). stop - p)") auto

declare flac_walk.simps [simp del]

definition stripFlac :: "octets \<Rightarrow> nat \<Rightarrow> nat \<Rightarrow> octets strip" where
  "stripFlac file start stop =
     and_then (readAt file start 4) (\<lambda>m.
       if ascii m 0 4 \<noteq> ''fLaC'' then Inl ''no fLaC marker''
       else and_then (flac_walk file stop True (start + 4)) (\<lambda>(edits, p).
         and_then (readAt file p (min 2 (stop - p))) (\<lambda>sync.
           if byte_at sync 0 \<noteq> 255 \<or> byte_at sync 1 div 2 \<noteq> 124 then Inl ''no FLAC frame after the metadata''
           else assemble file edits start stop)))"

section \<open>WAV\<close>

definition WAV_KEEP :: "string list" where "WAV_KEEP = [''fmt '', ''data'', ''fact'']"

definition JUNK :: octets where "JUNK = [0x4a, 0x55, 0x4e, 0x4b]"

text \<open>The result: the edits, \<open>sawData\<close> and \<open>openData\<close>.\<close>

function wav_walk :: "octets \<Rightarrow> nat \<Rightarrow> nat \<Rightarrow> bool \<Rightarrow> (edit list \<times> bool \<times> bool) strip" where
  "wav_walk file stop p sawData =
     (if \<not> p + 8 \<le> stop then Inr ([], sawData, False)
      else and_then (readAt file p 8) (\<lambda>h.
        let ident = ascii h 0 4; len = u32le h 4
        in if stop < p + 8 + len then (if ident = ''data'' then Inr ([], True, True) else Inl ''RIFF chunk runs past the end'')
           else let edits = (if ident \<in> set WAV_KEEP then [] else [Bytes p JUNK, Zeros (p + 8) len])
                in and_then (wav_walk file stop (p + 8 + len + len mod 2) (sawData \<or> ident = ''data''))
                     (\<lambda>(rest, seen, opened). Inr (edits @ rest, seen, opened))))"
  by auto
termination
  by (relation "measure (\<lambda>(file, stop, p, sawData). stop - p)") auto

declare wav_walk.simps [simp del]

definition stripWav :: "octets \<Rightarrow> octets strip" where
  "stripWav file =
     and_then (readAt file 0 12) (\<lambda>head.
       let stop = min (length file) (8 + u32le head 4)
       in if stop < 12 then Inl ''bad RIFF size''
          else and_then (wav_walk file stop 12 False) (\<lambda>(edits, sawData, openData).
            if \<not> sawData then Inl ''no WAV data chunk''
            else assemble file edits 0 (if openData then length file else stop)))"

section \<open>MP3 and ADTS AAC\<close>

text \<open>\<open>isAudioFrameSync\<close>; a byte past the end is \<open>undefined\<close>.\<close>

definition isAudioFrameSync :: "octets \<Rightarrow> nat \<Rightarrow> bool" where
  "isAudioFrameSync b p =
     (let b0 = byte_at b p; b1 = byte_at b (p + 1); b2 = byte_at b (p + 2);
          version = b1 div 8 mod 4; layer = b1 div 2 mod 4; bitrate = b2 div 16; rate = b2 div 4 mod 4
      in if b0 \<noteq> 255 \<or> \<not> p + 2 < length b \<or> b1 div 32 \<noteq> 7 then False
         else if b1 div 16 = 15 \<and> layer = 0 then True
         else version \<noteq> 1 \<and> layer \<noteq> 0 \<and> bitrate \<noteq> 15 \<and> rate \<noteq> 3)"

definition syncsafe :: "octets \<Rightarrow> nat \<Rightarrow> nat strip" where
  "syncsafe b p =
     (if 128 \<le> byte_at b p \<or> 128 \<le> byte_at b (p + 1) \<or> 128 \<le> byte_at b (p + 2) \<or> 128 \<le> byte_at b (p + 3)
      then Inl ''bad ID3 size''
      else Inr (byte_at b p * 2 ^ 21 + byte_at b (p + 1) * 2 ^ 14 + byte_at b (p + 2) * 2 ^ 7 + byte_at b (p + 3)))"

text \<open>The loop over the leading ID3v2 tags.\<close>

function id3_skip :: "octets \<Rightarrow> nat \<Rightarrow> nat strip" where
  "id3_skip file start =
     (if length file < start + 10 then Inl ''truncated ID3 tag''
      else and_then (readAt file start 10) (\<lambda>h.
        if ascii h 0 3 \<noteq> ''ID3'' then Inr start
        else and_then (syncsafe h 6) (\<lambda>n.
          let start1 = start + (10 + n + (if byte_at h 5 div 16 mod 2 = 1 then 10 else 0))
          in if length file \<le> start1 then Inl ''ID3 tag covers the whole file'' else id3_skip file start1)))"
  by auto
termination
  by (relation "measure (\<lambda>(file, start). length file - start)") (auto simp: Let_def)

declare id3_skip.simps [simp del]

text \<open>One round of the loop over the tags at the end: the new end, or \<open>None\<close> when no tag is found.\<close>

definition cut_v1 :: "octets \<Rightarrow> nat \<Rightarrow> nat \<Rightarrow> nat option strip" where
  "cut_v1 file start stop =
     (if stop - start < 128 then Inr None
      else and_then (readAt file (stop - 128) 128) (\<lambda>v1.
        if ascii v1 0 3 \<noteq> ''TAG'' then Inr None
        else let stop1 = stop - 128
             in if stop1 - start < 227 then Inr (Some stop1)
                else and_then (readAt file (stop1 - 227) 4) (\<lambda>x.
                  Inr (Some (if ascii x 0 4 = ''TAG+'' then stop1 - 227 else stop1)))))"

definition cut_ape :: "octets \<Rightarrow> nat \<Rightarrow> nat \<Rightarrow> nat option strip" where
  "cut_ape file start stop =
     (if stop - start < 32 then Inr None
      else and_then (readAt file (stop - 32) 32) (\<lambda>ape.
        if ascii ape 0 8 \<noteq> ''APETAGEX'' then Inr None
        else let tagSize = u32le ape 12;
                 total = tagSize + (if 2 ^ 31 \<le> u32le ape 20 then 32 else 0)
             in if tagSize < 32 \<or> stop - start < total then Inl ''bad APE tag size'' else Inr (Some (stop - total))))"

definition cut_lyrics :: "(string \<Rightarrow> js_number) \<Rightarrow> octets \<Rightarrow> nat \<Rightarrow> nat \<Rightarrow> nat option strip" where
  "cut_lyrics number file start stop =
     (if stop - start < 15 then Inr None
      else and_then (readAt file (stop - 15) 15) (\<lambda>ly.
        if ascii ly 6 9 \<noteq> ''LYRICS200'' then Inr None
        else (case as_integer (number (ascii ly 0 6)) of
                None \<Rightarrow> Inl ''bad Lyrics3 size''
              | Some n \<Rightarrow> if int (stop - start) < n + 15 then Inl ''bad Lyrics3 size''
                          else Inr (Some (nat (int stop - (n + 15)))))))"

definition cut_appended :: "octets \<Rightarrow> nat \<Rightarrow> nat \<Rightarrow> nat option strip" where
  "cut_appended file start stop =
     (if stop - start < 10 then Inr None
      else and_then (readAt file (stop - 10) 10) (\<lambda>f.
        if ascii f 0 3 \<noteq> ''3DI'' then Inr None
        else and_then (syncsafe f 6) (\<lambda>n.
          if stop - start < 20 + n then Inl ''bad appended ID3 tag size'' else Inr (Some (stop - (20 + n))))))"

definition or_try :: "nat option strip \<Rightarrow> nat option strip \<Rightarrow> nat option strip" where
  "or_try m k = and_then m (\<lambda>r. case r of None \<Rightarrow> k | Some s \<Rightarrow> Inr (Some s))"

definition cut_tail :: "(string \<Rightarrow> js_number) \<Rightarrow> octets \<Rightarrow> nat \<Rightarrow> nat \<Rightarrow> nat option strip" where
  "cut_tail number file start stop =
     or_try (cut_v1 file start stop) (or_try (cut_ape file start stop)
       (or_try (cut_lyrics number file start stop) (cut_appended file start stop)))"

text \<open>The loop; \<open>None\<close> is a loop that never ends.\<close>

partial_function (option) trim_tail :: "(string \<Rightarrow> js_number) \<Rightarrow> octets \<Rightarrow> nat \<Rightarrow> nat \<Rightarrow> nat strip option" where
  "trim_tail number file start stop =
     (case cut_tail number file start stop of
        Inl e \<Rightarrow> Some (Inl e)
      | Inr None \<Rightarrow> Some (Inr stop)
      | Inr (Some stop') \<Rightarrow> trim_tail number file start stop')"

text \<open>After the leading tags, with the bytes probed there: zeros some writers pad a tag with are skipped.\<close>

definition mp3_audio :: "(string \<Rightarrow> js_number) \<Rightarrow> octets \<Rightarrow> nat \<Rightarrow> octets \<Rightarrow> octets strip option" where
  "mp3_audio number file start probe =
     (let skip = length (takeWhile (\<lambda>b. b = 0) probe)
      in if ascii probe skip 4 = ''fLaC'' then Some (stripFlac file (start + skip) (length file))
         else if \<not> isAudioFrameSync probe skip then Some (Inl ''no MPEG audio frame after the tags'')
         else map_option (\<lambda>r. and_then r (\<lambda>stop.
                if stop - (start + skip) < 4 then Inl ''no audio left after the tags''
                else assemble file [] (start + skip) stop))
              (trim_tail number file (start + skip) (length file)))"

definition stripMp3 :: "(string \<Rightarrow> js_number) \<Rightarrow> octets \<Rightarrow> octets strip option" where
  "stripMp3 number file =
     (case and_then (id3_skip file 0) (\<lambda>start.
             and_then (readAt file start (min (64 * 1024) (length file - start))) (\<lambda>probe. Inr (start, probe))) of
        Inl e \<Rightarrow> Some (Inl e)
      | Inr (start, probe) \<Rightarrow> mp3_audio number file start probe)"

section \<open>FLAC: the blocks of a stripped file\<close>

definition be24 :: "nat \<Rightarrow> octets" where
  "be24 n = [octet_of (n div 65536), octet_of (n div 256), octet_of n]"

text \<open>A block is its type and its payload; the last block carries the flag bit.\<close>

fun flac_encode :: "(nat \<times> octets) list \<Rightarrow> octets" where
  "flac_encode [] = []"
| "flac_encode ((t, d) # bs) = octet_of ((if bs = [] then 128 else 0) + t) # be24 (length d) @ d @ flac_encode bs"

fun flac_clean :: "nat \<times> octets \<Rightarrow> nat \<times> octets" where
  "flac_clean (t, d) = (if t = 0 \<or> t = 3 then (t, d) else (1, replicate (length d) 0))"

definition flac_blocks_ok :: "(nat \<times> octets) list \<Rightarrow> bool" where
  "flac_blocks_ok bs \<longleftrightarrow> bs \<noteq> [] \<and> (\<forall>(t, d)\<in>set bs. t < 127 \<and> length d < 2 ^ 24)"

lemma flac_blocks_ok_Cons:
  "flac_blocks_ok ((t, d) # bs) \<longleftrightarrow> t < 127 \<and> length d < 2 ^ 24 \<and> (bs = [] \<or> flac_blocks_ok bs)"
  by (auto simp: flac_blocks_ok_def)

lemma length_be24 [simp]: "length (be24 n) = 3"
  by (simp add: be24_def)

lemma be24_value:
  "n < 2 ^ 24 \<Longrightarrow> byte_at (x # be24 n) 1 * 65536 + byte_at (x # be24 n) 2 * 256 + byte_at (x # be24 n) 3 = n"
proof -
  assume "n < 2 ^ 24"
  then have "n div 65536 mod 256 = n div 65536" by simp
  moreover have "n = n div 65536 * 65536 + n div 256 mod 256 * 256 + n mod 256"
  proof -
    have "n div 65536 = n div 256 div 256" by (simp flip: div_mult2_eq)
    then show ?thesis using div_mult_mod_eq [of n 256] div_mult_mod_eq [of "n div 256" 256] by linarith
  qed
  ultimately show ?thesis by (simp add: be24_def numeral_2_eq_2 numeral_3_eq_3)
qed

lemma four: "length h = 4 \<Longrightarrow> h = [h ! 0, h ! 1, h ! 2, h ! 3]"
  by (simp add: list_eq_iff_nth_eq less_Suc_eq numeral_eq_Suc)

lemma digits24:
  assumes "b < 256" "c < (256 :: nat)"
  shows "(a * 65536 + b * 256 + c) div 65536 = a"
    and "(a * 65536 + b * 256 + c) div 256 mod 256 = b"
    and "(a * 65536 + b * 256 + c) mod 256 = c"
proof -
  show "(a * 65536 + b * 256 + c) div 65536 = a" by (rule div_nat_eqI) (use assms in simp_all)
  have "(a * 65536 + b * 256 + c) div 256 = a * 256 + b" by (rule div_nat_eqI) (use assms in simp_all)
  then show "(a * 65536 + b * 256 + c) div 256 mod 256 = b" using assms by simp
  have "a * 65536 + b * 256 + c = c + (a * 256 + b) * 256" by simp
  then show "(a * 65536 + b * 256 + c) mod 256 = c" using assms by (metis mod_mult_self1 mod_less)
qed

lemma be24_bytes:
  assumes "b < 256" "c < (256 :: nat)"
  shows "be24 (a * 65536 + b * 256 + c) = [octet_of a, octet_of b, octet_of c]"
proof -
  let ?n = "a * 65536 + b * 256 + c"
  have "octet_of (?n div 256) = octet_of b" using octet_of_mod [of "?n div 256"] digits24(2) [OF assms, of a] by simp
  moreover have "octet_of ?n = octet_of c" using octet_of_mod [of ?n] digits24(3) [OF assms, of a] by simp
  ultimately show ?thesis unfolding be24_def digits24(1) [OF assms] by simp
qed

lemma header_bytes:
  assumes "length h = 4"
  shows "h = octet_of ((if 128 \<le> byte_at h 0 then 128 else 0) + byte_at h 0 mod 128)
    # be24 (byte_at h 1 * 65536 + byte_at h 2 * 256 + byte_at h 3)"
proof -
  have restore: "(if 128 \<le> b then 128 else 0) + b mod 128 = b" if "b < 256" for b :: nat
    using that by (simp add: mod_if) arith
  have "octet_of ((if 128 \<le> byte_at h 0 then 128 else 0) + byte_at h 0 mod 128) = h ! 0"
    unfolding restore [OF byte_at_less] using assms by (simp add: byte_at_def)
  moreover have "be24 (byte_at h 1 * 65536 + byte_at h 2 * 256 + byte_at h 3) = [h ! 1, h ! 2, h ! 3]"
    using assms by (simp add: be24_bytes) (simp add: byte_at_def)
  ultimately show ?thesis using four [OF assms] by simp
qed

definition flac_block :: "bool \<Rightarrow> nat \<times> octets \<Rightarrow> octets" where
  "flac_block final = (\<lambda>(t, d). octet_of ((if final then 128 else 0) + t) # be24 (length d) @ d)"

definition flac_edit :: "bool \<Rightarrow> nat \<Rightarrow> nat \<times> octets \<Rightarrow> edit list" where
  "flac_edit final p = (\<lambda>(t, d). if t \<noteq> 0 \<and> t \<noteq> 3
     then [Bytes p (octet_of ((if final then 128 else 0) + 1) # be24 (length d)), Zeros (p + 4) (length d)] else [])"

lemma flac_encode_Cons: "flac_encode (b # bs) = flac_block (bs = []) b @ flac_encode bs"
  by (cases b) (simp add: flac_block_def)

lemma length_flac_block [simp]: "length (flac_block final b) = 4 + length (snd b)"
  by (cases b) (simp add: flac_block_def)

lemma length_flac_clean [simp]: "length (snd (flac_clean b)) = length (snd b)"
  by (cases b) simp

lemma flac_block_laid:
  assumes "slice f p q = flac_block final b" "q = p + 4 + length (snd b)"
  shows "in_order p q (flac_edit final p b)" "weave f p q (flac_edit final p b) = flac_block final (flac_clean b)"
  using assms by (cases b; simp add: flac_edit_def flac_block_def edit_end_def)+

lemma flac_walk_step:
  assumes "flac_walk f stop first p = Inr (edits, q)" "stop \<le> length f"
  obtains (block) b final rest where "flac_blocks_ok [b]" "first \<longrightarrow> fst b = 0"
    and "p + 4 + length (snd b) \<le> stop" "slice f p (p + 4 + length (snd b)) = flac_block final b"
    and "edits = flac_edit final p b @ rest"
    and "if final then rest = [] \<and> q = p + 4 + length (snd b)
      else flac_walk f stop False (p + 4 + length (snd b)) = Inr (rest, q)"
proof -
  define h where "h = slice f p (p + 4)"
  define t where "t = byte_at h 0 mod 128"
  define n where "n = byte_at h 1 * 65536 + byte_at h 2 * 256 + byte_at h 3"
  define d where "d = slice f (p + 4) (p + 4 + n)"
  define final where "final \<longleftrightarrow> 128 \<le> byte_at h 0"
  have fits: "p + 4 + n \<le> stop" "p + 4 \<le> length f" and t: "t \<noteq> 127" "first \<longrightarrow> t = 0"
    using assms unfolding flac_walk.simps [of f stop first p] h_def t_def n_def
    by (auto simp: readAt_Inr Let_def split: if_splits)
  have h: "length h = 4" "h = octet_of ((if final then 128 else 0) + t) # be24 n"
    using header_bytes [of h] fits by (simp_all add: h_def final_def t_def n_def)
  then have tail: "[h ! 1, h ! 2, h ! 3] = be24 n" using four [OF h(1)] by (metis list.sel(3))
  have t_less: "t < 127" using t(1) mod_less_divisor [of 128 "byte_at h 0"] by (simp add: t_def)
  have len: "length d = n" using fits assms(2) by (simp add: d_def)
  have n: "n < 2 ^ 24"
    using byte_at_less [of h 1] byte_at_less [of h 2] byte_at_less [of h 3] by (simp add: n_def del: byte_at_less One_nat_def)
  have "slice f p (p + 4 + n) = h @ d"
    using slice_append [of p "p + 4" "p + 4 + n" f] by (simp add: d_def h_def)
  also have "\<dots> = flac_block final (t, d)" by (subst h(2)) (simp add: flac_block_def len)
  finally have "slice f p (p + 4 + n) = flac_block final (t, d)" .
  moreover have step: "flac_walk f stop first p =
      (if final then Inr (flac_edit final p (t, d), p + 4 + n)
       else and_then (flac_walk f stop False (p + 4 + n)) (\<lambda>(rest, q). Inr (flac_edit final p (t, d) @ rest, q)))"
    using fits t unfolding flac_walk.simps [of f stop first p] flac_edit_def
    by (auto simp: readAt_def Let_def len tail simp del: One_nat_def simp flip: h_def t_def n_def final_def)
  ultimately show ?thesis
    using block [of "(t, d)" final] assms(1) [unfolded step] fits t n len t_less
    by (cases final) (auto simp: flac_blocks_ok_def)
qed

fun flac_edits :: "nat \<Rightarrow> (nat \<times> octets) list \<Rightarrow> edit list" where
  "flac_edits p [] = []"
| "flac_edits p (b # bs) = flac_edit (bs = []) p b @ flac_edits (p + 4 + length (snd b)) bs"

lemma flac_walk_sound:
  "flac_walk f stop first p = Inr (edits, q) \<Longrightarrow> stop \<le> length f \<Longrightarrow>
     \<exists>bs. flac_blocks_ok bs \<and> (first \<longrightarrow> fst (hd bs) = 0) \<and> p \<le> q \<and> q \<le> stop \<and> slice f p q = flac_encode bs
       \<and> edits = flac_edits p bs"
proof (induction "stop - p" arbitrary: p first edits rule: less_induct)
  case less
  from less.prems show ?case
  proof (cases rule: flac_walk_step)
    case (block b final rest)
    let ?m = "p + 4 + length (snd b)"
    show ?thesis
    proof (cases final)
      case True
      then show ?thesis using block by (intro exI [of _ "[b]"]) (auto simp: flac_encode_Cons)
    next
      case False
      have "stop - ?m < stop - p" using block(3) by linarith
      from less.hyps [OF this, of False rest] False obtain bs where bs: "flac_blocks_ok bs" "?m \<le> q" "q \<le> stop"
          "slice f ?m q = flac_encode bs" "rest = flac_edits ?m bs"
        using block less.prems(2) by auto
      have ne: "bs \<noteq> []" using bs(1) by (simp add: flac_blocks_ok_def)
      have "slice f p q = flac_encode (b # bs)"
        using slice_append [of p ?m q f] block(4) bs ne False by (simp add: flac_encode_Cons)
      moreover have "flac_blocks_ok (b # bs)" using block(1) bs(1) by (cases b) (simp add: flac_blocks_ok_Cons)
      ultimately show ?thesis using block(2,5) bs ne False by (intro exI [of _ "b # bs"]) auto
    qed
  qed
qed

lemma flac_edits_laid:
  "drop p f = flac_encode bs @ rest \<Longrightarrow>
     in_order p (p + length (flac_encode bs)) (flac_edits p bs) \<and>
     weave f p (p + length (flac_encode bs)) (flac_edits p bs) = flac_encode (map flac_clean bs)"
proof (induction bs arbitrary: p)
  case (Cons b bs)
  let ?m = "p + 4 + length (snd b)"
  let ?q = "?m + length (flac_encode bs)"
  have f: "drop p f = flac_block (bs = []) b @ flac_encode bs @ rest" using Cons.prems by (simp add: flac_encode_Cons)
  have "drop ?m f = flac_encode bs @ rest" using drop_drop_append [OF f] by (simp add: add.assoc)
  note IH = Cons.IH [OF this]
  have len: "?q \<le> length f" using arg_cong [OF f, of length] by simp
  have "slice f p ?m = flac_block (bs = []) b" by (simp add: slice_def f)
  note laid = flac_block_laid [OF this refl]
  have "in_order p ?q (flac_edits p (b # bs))" using in_order_append laid(1) IH by auto
  moreover have "weave f p ?q (flac_edits p (b # bs)) = flac_encode (map flac_clean (b # bs))"
    using weave_append [OF laid(1) conjunct1 [OF IH] len] laid(2) IH by (simp add: flac_encode_Cons)
  ultimately show ?case by (simp add: flac_encode_Cons add.assoc)
qed simp

text \<open>Conversely, an encoded file is walked to its end.\<close>

lemma flac_head:
  assumes "t < 127" "length d < 2 ^ 24"
  shows "byte_at (take 4 (flac_block final (t, d) @ rest)) 0 = (if final then 128 else 0) + t"
    and "byte_at (take 4 (flac_block final (t, d) @ rest)) 1 * 65536
      + byte_at (take 4 (flac_block final (t, d) @ rest)) 2 * 256
      + byte_at (take 4 (flac_block final (t, d) @ rest)) 3 = length d"
proof -
  have four: "take 4 (flac_block final (t, d) @ rest) = octet_of ((if final then 128 else 0) + t) # be24 (length d)"
    by (simp add: flac_block_def be24_def)
  show "byte_at (take 4 (flac_block final (t, d) @ rest)) 0 = (if final then 128 else 0) + t"
    unfolding four using assms by simp
  show "byte_at (take 4 (flac_block final (t, d) @ rest)) 1 * 65536
      + byte_at (take 4 (flac_block final (t, d) @ rest)) 2 * 256
      + byte_at (take 4 (flac_block final (t, d) @ rest)) 3 = length d"
    unfolding four by (rule be24_value [OF assms(2)])
qed

lemma flac_walk_complete:
  "flac_blocks_ok bs \<Longrightarrow> (first \<longrightarrow> fst (hd bs) = 0) \<Longrightarrow> drop p f = flac_encode bs @ rest \<Longrightarrow>
     p + length (flac_encode bs) \<le> stop \<Longrightarrow> stop \<le> length f \<Longrightarrow>
     flac_walk f stop first p = Inr (flac_edits p bs, p + length (flac_encode bs))"
proof (induction bs arbitrary: p first)
  case (Cons b bs)
  obtain t d where b: "b = (t, d)" by fastforce
  have ok: "t < 127" "length d < 2 ^ 24" "bs = [] \<or> flac_blocks_ok bs"
    using Cons.prems(1) unfolding b flac_blocks_ok_Cons by auto
  let ?m = "p + 4 + length d"
  have len: "length (flac_encode (b # bs)) = 4 + length d + length (flac_encode bs)"
    by (simp add: flac_encode_Cons b)
  have f: "drop p f = flac_block (bs = []) (t, d) @ flac_encode bs @ rest"
    using Cons.prems(3) by (simp add: flac_encode_Cons b)
  have h: "readAt f p 4 = Inr (take 4 (drop p f))"
    using Cons.prems(4,5) len by (simp add: readAt_def slice_def)
  have next_block: "drop ?m f = flac_encode bs @ rest" using drop_drop_append [OF f] by (simp add: add.assoc)
  have tail: "[take 4 (drop p f) ! 1, take 4 (drop p f) ! 2, take 4 (drop p f) ! 3] = be24 (length d)"
    unfolding f by (simp add: flac_block_def be24_def)
  note head = flac_head [OF ok(1,2), of "bs = []" "flac_encode bs @ rest", folded f]
  show ?case
  proof (cases "bs = []")
    case True
    then show ?thesis
      using ok h head Cons.prems(2,4) len tail unfolding flac_walk.simps [of f stop first p] b
      by (auto simp: Let_def flac_edit_def)
  next
    case False
    then have "flac_walk f stop False ?m = Inr (flac_edits ?m bs, ?m + length (flac_encode bs))"
      using Cons.IH [of False ?m] ok(3) next_block Cons.prems(4,5) len by auto
    then show ?thesis
      using False ok h head Cons.prems(2,4) len tail unfolding flac_walk.simps [of f stop first p] b
      by (auto simp: Let_def add.assoc flac_edit_def)
  qed
qed (simp add: flac_blocks_ok_def)

definition flac_magic :: octets where "flac_magic = [0x66, 0x4C, 0x61, 0x43]"

definition flac_sync :: "octets \<Rightarrow> bool" where
  "flac_sync audio \<longleftrightarrow> byte_at audio 0 = 255 \<and> byte_at audio 1 div 2 = 124"

lemma flac_sync_take [simp]: "flac_sync (take 2 audio) \<longleftrightarrow> flac_sync audio"
  by (cases audio; cases "tl audio") (auto simp: flac_sync_def byte_at_def)

lemma ascii_4: "ascii m 0 4 = [char_of (byte_at m 0), char_of (byte_at m 1), char_of (byte_at m 2), char_of (byte_at m 3)]"
  by (simp add: ascii_def upt_rec numeral_eq_Suc)

lemma char_of_inject: "m < 256 \<Longrightarrow> n < 256 \<Longrightarrow> (char_of m :: char) = char_of n \<longleftrightarrow> m = (n :: nat)"
  by (metis of_char_of mod_less)

lemma ascii_magic: "length m = 4 \<Longrightarrow> ascii m 0 4 = ''fLaC'' \<longleftrightarrow> m = flac_magic"
proof -
  assume len: "length m = 4"
  have "''fLaC'' = map char_of [0x66, 0x4C, 0x61, 0x43 :: nat]" by code_simp
  then have "ascii m 0 4 = ''fLaC'' \<longleftrightarrow> byte_at m 0 = 0x66 \<and> byte_at m 1 = 0x4C \<and> byte_at m 2 = 0x61 \<and> byte_at m 3 = 0x43"
    by (simp add: ascii_4 char_of_inject del: One_nat_def)
  also have "\<dots> \<longleftrightarrow> m = flac_magic"
  proof
    have "m = [octet_of (byte_at m 0), octet_of (byte_at m 1), octet_of (byte_at m 2), octet_of (byte_at m 3)]"
      using four [OF len] len by (simp add: byte_at_def)
    then show "m = flac_magic"
      if "byte_at m 0 = 0x66 \<and> byte_at m 1 = 0x4C \<and> byte_at m 2 = 0x61 \<and> byte_at m 3 = 0x43"
      using that by (simp add: flac_magic_def octet_of_def)
  qed (simp add: flac_magic_def byte_at_def)
  finally show ?thesis .
qed

lemma length_flac_clean_encode [simp]: "length (flac_encode (map flac_clean bs)) = length (flac_encode bs)"
  by (induction bs) (simp_all add: flac_encode_Cons)

lemma flac_clean_ok: "flac_blocks_ok bs \<Longrightarrow> flac_blocks_ok (map flac_clean bs)"
  by (fastforce simp: flac_blocks_ok_def split: if_splits)

lemma flac_clean_idem [simp]: "flac_clean (flac_clean b) = flac_clean b"
  by (cases b) simp

lemma flac_clean_hd: "bs \<noteq> [] \<Longrightarrow> fst (hd bs) = 0 \<Longrightarrow> fst (hd (map flac_clean bs)) = 0"
  by (cases bs; cases "hd bs") auto

text \<open>The shape of a file the stripper accepts, and what it makes of it.\<close>

lemma stripFlac_cases:
  assumes "stripFlac f start stop = Inr out" "stop \<le> length f"
  obtains (stripped) bs audio where "flac_blocks_ok bs" "fst (hd bs) = 0" "flac_sync audio"
    and "slice f start stop = flac_magic @ flac_encode bs @ audio"
    and "out = flac_magic @ flac_encode (map flac_clean bs) @ audio"
proof -
  obtain edits p where walk: "flac_walk f stop True (start + 4) = Inr (edits, p)"
    and magic: "slice f start (start + 4) = flac_magic"
    and sync: "p + min 2 (stop - p) \<le> length f" "flac_sync (slice f p (p + min 2 (stop - p)))"
    and out: "assemble f edits start stop = Inr out"
    using assms(1) ascii_magic [of "slice f start (start + 4)"]
    by (auto simp: stripFlac_def readAt_Inr flac_sync_def split: if_splits)
  obtain bs where bs: "flac_blocks_ok bs" "fst (hd bs) = 0" "start + 4 \<le> p" "p \<le> stop"
      "slice f (start + 4) p = flac_encode bs" "edits = flac_edits (start + 4) bs"
    using flac_walk_sound [OF walk assms(2)] by auto
  have p: "p = start + 4 + length (flac_encode bs)"
    using arg_cong [OF bs(5), of length] bs(3,4) assms(2) by simp
  have "drop (start + 4) f = flac_encode bs @ drop p f"
    using slice_append [of "start + 4" p "length f" f] bs assms(2) by (simp add: slice_def)
  from flac_edits_laid [OF this] have laid: "in_order (start + 4) p edits"
      "weave f (start + 4) p edits = flac_encode (map flac_clean bs)"
    by (simp_all add: p bs(6))
  have order: "in_order (start + 4) stop edits" using in_order_extend bs(4) laid(1) by blast
  then have "in_order start stop edits" by (rule in_order_weaken) simp
  then have "out = weave f start stop edits" using out assemble_in_order [OF _ assms(2)] by simp
  also have "\<dots> = slice f start (start + 4) @ weave f (start + 4) stop edits"
    by (rule weave_skip [OF order _ assms(2)]) simp
  also have "weave f (start + 4) stop edits = weave f (start + 4) p edits @ slice f p stop"
    by (rule weave_tail [OF laid(1) bs(4)])
  finally have "out = flac_magic @ flac_encode (map flac_clean bs) @ slice f p stop"
    using magic laid(2) by simp
  moreover have "slice f start stop = flac_magic @ flac_encode bs @ slice f p stop"
    using slice_append [of start "start + 4" stop f] slice_append [of "start + 4" p stop f] magic bs(3-5) by simp
  moreover have "flac_sync (slice f p stop)"
    using sync assms(2) by (auto simp: flac_sync_def byte_at_def slice_nth min_def split: if_splits)
  ultimately show ?thesis using stripped bs(1,2) by blast
qed

lemma flac_prefix [simp]: "slice (flac_magic @ xs) 0 4 = flac_magic" "length flac_magic = 4"
  by (simp_all add: flac_magic_def slice_def)

text \<open>Every well-formed file is accepted.\<close>

lemma stripFlac_encoded:
  assumes "flac_blocks_ok bs" "fst (hd bs) = 0" "flac_sync audio" and f: "f = flac_magic @ flac_encode bs @ audio"
  shows "stripFlac f 0 (length f) = Inr (flac_magic @ flac_encode (map flac_clean bs) @ audio)"
proof -
  let ?p = "4 + length (flac_encode bs)"
  have "drop 4 f = flac_encode bs @ audio" by (simp add: f)
  then have walk: "flac_walk f (length f) True 4 = Inr (flac_edits 4 bs, ?p)"
    and laid: "in_order 4 ?p (flac_edits 4 bs)" "weave f 4 ?p (flac_edits 4 bs) = flac_encode (map flac_clean bs)"
    using flac_walk_complete [OF assms(1), of True 4 f audio "length f"] flac_edits_laid [of 4 f bs audio] assms(2) f
    by auto
  have order: "in_order 4 (length f) (flac_edits 4 bs)" by (rule in_order_extend [OF laid(1)]) (simp add: f)
  have "weave f 0 (length f) (flac_edits 4 bs) = slice f 0 4 @ flac_encode (map flac_clean bs) @ slice f ?p (length f)"
    using weave_skip [OF order, of 0 f] weave_tail [OF laid(1), of "length f" f] laid(2) by (simp add: f)
  also have "\<dots> = flac_magic @ flac_encode (map flac_clean bs) @ audio" by (simp add: f slice_append_right)
  finally have "assemble f (flac_edits 4 bs) 0 (length f) = Inr (flac_magic @ flac_encode (map flac_clean bs) @ audio)"
    using assemble_in_order [OF in_order_weaken [OF order], of 0 f] by simp
  moreover have "ascii flac_magic 0 4 = ''fLaC''" "readAt f 0 4 = Inr flac_magic"
    by (simp_all add: ascii_magic readAt_def f)
  moreover have "readAt f ?p (min 2 (length f - ?p)) = Inr (take 2 audio)" "flac_sync (take 2 audio)"
    using assms(3) by (auto simp: readAt_def f slice_append_right slice_def min_def)
  ultimately show ?thesis using walk by (auto simp: stripFlac_def flac_sync_def)
qed

text \<open>
  (C18) Stripping a FLAC file blanks its metadata and nothing else. An accepted file is the marker, a list of metadata
  blocks that starts with STREAMINFO, and the audio frames; the result is the marker, the same blocks with every one
  other than STREAMINFO and SEEKTABLE turned into a PADDING block of zeros of the same length, and the
  same audio. Stripping the result again changes nothing.
\<close>

theorem flac_stripped:
  assumes "stripFlac f start stop = Inr out" "stop \<le> length f"
  shows "\<exists>bs audio. flac_blocks_ok bs \<and> fst (hd bs) = 0
    \<and> slice f start stop = flac_magic @ flac_encode bs @ audio
    \<and> out = flac_magic @ flac_encode (map flac_clean bs) @ audio
    \<and> stripFlac out 0 (length out) = Inr out"
  using assms
proof (cases rule: stripFlac_cases)
  case (stripped bs audio)
  have "bs \<noteq> []" using stripped(1) by (simp add: flac_blocks_ok_def)
  then have "stripFlac out 0 (length out) = Inr (flac_magic @ flac_encode (map flac_clean (map flac_clean bs)) @ audio)"
    using stripFlac_encoded [OF flac_clean_ok [OF stripped(1)] flac_clean_hd stripped(3,5)] stripped(2) by blast
  then have "stripFlac out 0 (length out) = Inr out" by (simp add: stripped(5) comp_def)
  then show ?thesis using stripped by blast
qed

definition sample_flac :: octets where
  "sample_flac = flac_magic @ flac_encode [(0, [1, 2]), (4, [9])] @ [0xff, 0xf8]"

lemma sample_flac_stripped:
  "stripFlac sample_flac 0 (length sample_flac) = Inr (flac_magic @ flac_encode [(0, [1, 2]), (1, [0])] @ [0xff, 0xf8])"
  using stripFlac_encoded [of "[(0, [1, 2]), (4, [9])]" "[0xff, 0xf8]" sample_flac]
  by (simp add: sample_flac_def flac_blocks_ok_def flac_sync_def byte_at_def)

theorem flac_stripped_witness:
  "\<exists>bs audio. flac_blocks_ok bs \<and> fst (hd bs) = 0
    \<and> slice sample_flac 0 (length sample_flac) = flac_magic @ flac_encode bs @ audio
    \<and> flac_magic @ flac_encode [(0, [1, 2]), (1, [0])] @ [0xff, 0xf8]
      = flac_magic @ flac_encode (map flac_clean bs) @ audio
    \<and> stripFlac (flac_magic @ flac_encode [(0, [1, 2]), (1, [0])] @ [0xff, 0xf8]) 0
        (length (flac_magic @ flac_encode [(0, [1, 2]), (1, [0])] @ [0xff, 0xf8]))
      = Inr (flac_magic @ flac_encode [(0, [1, 2]), (1, [0])] @ [0xff, 0xf8])"
  by (rule flac_stripped [OF sample_flac_stripped order_refl])

section \<open>WAV: the chunks of a stripped file\<close>

definition le32 :: "nat \<Rightarrow> octets" where
  "le32 n = [octet_of n, octet_of (n div 256), octet_of (n div 65536), octet_of (n div 16777216)]"

text \<open>A chunk is its id, its payload and the pad byte an odd payload is followed by.\<close>

fun wav_encode :: "(octets \<times> octets \<times> octets) list \<Rightarrow> octets" where
  "wav_encode [] = []"
| "wav_encode ((tag, d, pad) # cs) = tag @ le32 (length d) @ d @ pad @ wav_encode cs"

fun wav_clean :: "octets \<times> octets \<times> octets \<Rightarrow> octets \<times> octets \<times> octets" where
  "wav_clean (tag, d, pad) =
     (if ascii tag 0 4 \<in> set WAV_KEEP then (tag, d, pad) else (JUNK, replicate (length d) 0, pad))"

fun wav_chunk_ok :: "octets \<times> octets \<times> octets \<Rightarrow> bool" where
  "wav_chunk_ok (tag, d, pad) \<longleftrightarrow> length tag = 4 \<and> length d < 2 ^ 32 \<and> length pad \<le> length d mod 2"

fun is_data :: "octets \<times> octets \<times> octets \<Rightarrow> bool" where
  "is_data (tag, d, pad) \<longleftrightarrow> ascii tag 0 4 = ''data''"

text \<open>What follows the last whole chunk: less than a header, or a data chunk longer than the file.\<close>

definition wav_rest :: "bool \<Rightarrow> octets \<Rightarrow> bool" where
  "wav_rest opened rest \<longleftrightarrow>
     (if opened then ascii rest 0 4 = ''data'' \<and> length rest < 8 + u32le rest 4 else length rest < 8)"

lemma digits32:
  assumes "a < 256" "b < 256" "c < 256" "d < (256 :: nat)"
  shows "le32 (a + 256 * (b + 256 * (c + 256 * d))) = [octet_of a, octet_of b, octet_of c, octet_of d]"
proof -
  let ?n = "a + 256 * (b + 256 * (c + 256 * d))"
  have div1: "?n div 256 = b + 256 * (c + 256 * d)" using assms by simp
  have div2: "?n div 65536 = c + 256 * d" using assms div1 by (simp add: div_mult2_eq [of ?n 256 256, simplified])
  have div3: "?n div 16777216 = d" using assms div2 by (simp add: div_mult2_eq [of ?n 65536 256, simplified])
  have low: "octet_of (x + 256 * y) = octet_of x" if "x < 256" for x y
    using that octet_of_mod [of "x + 256 * y"] by simp
  show ?thesis unfolding le32_def div1 div2 div3 low [OF assms(1)] low [OF assms(2)] low [OF assms(3)] by (rule refl)
qed

lemma eight_bytes:
  assumes "length h = 8"
  shows "h = take 4 h @ le32 (u32le h 4)"
proof -
  have "drop 4 h = [h ! 4, h ! 5, h ! 6, h ! 7]"
    using four [of "drop 4 h"] assms by simp
  moreover have "le32 (u32le h 4) = [h ! 4, h ! 5, h ! 6, h ! 7]"
    unfolding u32le_def digits32 [OF byte_at_less byte_at_less byte_at_less byte_at_less]
    using assms by (simp add: byte_at_def)
  ultimately show ?thesis by (metis append_take_drop_id)
qed

lemma ascii_take: "n \<le> k \<Longrightarrow> ascii (take k b) 0 n = ascii b 0 n"
  by (simp add: ascii_def byte_at_def)

definition wav_edit :: "nat \<Rightarrow> octets \<times> octets \<times> octets \<Rightarrow> edit list" where
  "wav_edit p = (\<lambda>(tag, d, pad). if ascii tag 0 4 \<in> set WAV_KEEP then [] else [Bytes p JUNK, Zeros (p + 8) (length d)])"

lemma length_le32 [simp]: "length (le32 n) = 4"
  by (simp add: le32_def)

lemma length_JUNK [simp]: "length JUNK = 4"
  by (simp add: JUNK_def)

lemma wav_edit_laid:
  assumes "slice f p q = tag @ le32 (length d) @ d @ pad" "q = p + 8 + length d + length pad" "length tag = 4" "q \<le> length f"
  shows "in_order p q (wav_edit p (tag, d, pad))"
    and "weave f p q (wav_edit p (tag, d, pad)) = wav_encode [wav_clean (tag, d, pad)]"
proof -
  show "in_order p q (wav_edit p (tag, d, pad))" using assms(2) by (auto simp: wav_edit_def edit_end_def)
  have "slice f (p + 4) (p + 8) = slice (slice f p q) 4 8"
    "slice f (p + 8 + length d) q = slice (slice f p q) (8 + length d) (8 + length d + length pad)"
    using assms(2) by (simp_all add: slice_slice add.assoc)
  then have part: "slice f (p + 4) (p + 8) = le32 (length d)" "slice f (p + 8 + length d) q = pad"
    unfolding assms(1) using assms(3) by (simp_all add: slice_append_right)
  then show "weave f p q (wav_edit p (tag, d, pad)) = wav_encode [wav_clean (tag, d, pad)]"
    using assms(1) by (simp add: wav_edit_def edit_end_def)
qed

lemma wav_walk_step:
  assumes "wav_walk f stop p saw = Inr (edits, seen, opened)" "stop \<le> length f" "p \<le> stop"
  obtains (ends) "edits = []" "opened \<longleftrightarrow> p + 8 \<le> stop" "seen \<longleftrightarrow> saw \<or> opened" "wav_rest opened (slice f p stop)"
  | (chunk) tag d pad m rest where "wav_chunk_ok (tag, d, pad)" "m = p + 8 + length d + length pad" "m \<le> stop"
    "slice f p m = tag @ le32 (length d) @ d @ pad" "edits = wav_edit p (tag, d, pad) @ rest"
    "if m < stop then wav_walk f stop m (saw \<or> is_data (tag, d, pad)) = Inr (rest, seen, opened)
     else rest = [] \<and> \<not> opened \<and> (seen \<longleftrightarrow> saw \<or> is_data (tag, d, pad))"
proof (cases "p + 8 \<le> stop")
  case False
  then have "edits = [] \<and> \<not> opened \<and> seen = saw" using assms(1) by (simp add: wav_walk.simps)
  then show ?thesis using ends False assms by (simp add: wav_rest_def)
next
  case True
  define h where "h = slice f p (p + 8)"
  define tag where "tag = take 4 h"
  define n where "n = u32le h 4"
  define d where "d = slice f (p + 8) (p + 8 + n)"
  define k where "k = p + 8 + n + n mod 2"
  define m where "m = min stop k"
  define pad where "pad = slice f (p + 8 + n) m"
  have h: "length h = 8" "readAt f p 8 = Inr h" using True assms(2) by (simp_all add: h_def readAt_def)
  have tag: "length tag = 4" "ascii h 0 4 = ascii tag 0 4" using h by (simp_all add: tag_def ascii_take)
  have head: "h = tag @ le32 n" unfolding tag_def n_def by (rule eight_bytes [OF h(1)])
  have n: "n < 2 ^ 32"
    using byte_at_less [of h 4] byte_at_less [of h 5] byte_at_less [of h 6] byte_at_less [of h 7]
    by (simp add: n_def u32le_def del: byte_at_less)
  show ?thesis
  proof (cases "stop < p + 8 + n")
    case over: True
    then have "ascii tag 0 4 = ''data''" "edits = []" "seen" "opened"
      using assms(1) True h tag unfolding wav_walk.simps [of f stop p saw] by (auto simp: Let_def n_def split: if_splits)
    moreover have "slice f p stop = h @ slice f (p + 8) stop" using slice_append [of p "p + 8" stop f] True by (simp add: h_def)
    then have "ascii (slice f p stop) 0 4 = ascii tag 0 4" "u32le (slice f p stop) 4 = n"
      using h tag by (simp_all add: ascii_def byte_at_append n_def u32le_def)
    ultimately show ?thesis using ends over True assms(2) by (simp add: wav_rest_def)
  next
    case False
    have walk: "wav_walk f stop p saw = and_then (wav_walk f stop k (saw \<or> is_data (tag, d, pad)))
        (\<lambda>(rest, seen, opened). Inr (wav_edit p (tag, d, pad) @ rest, seen, opened))"
    proof -
      have len: "length d = n" using False assms(2) by (simp add: d_def)
      show ?thesis using True False h tag(2) len unfolding wav_walk.simps [of f stop p saw]
        by (auto simp: Let_def n_def k_def wav_edit_def)
    qed
    have len: "length d = n" using False assms(2) by (simp add: d_def)
    have m: "p + 8 + n \<le> m" "m \<le> stop" using False by (simp_all add: m_def k_def)
    have pad: "length pad = m - (p + 8 + n)" using m assms(2) by (simp add: pad_def)
    have "slice f p m = h @ d @ pad"
      using slice_append [of p "p + 8" m f] slice_append [of "p + 8" "p + 8 + n" m f] m by (simp add: h_def d_def pad_def)
    then have s: "slice f p m = tag @ le32 (length d) @ d @ pad" using head len by simp
    have ok: "wav_chunk_ok (tag, d, pad)" using tag n len pad by (simp add: m_def k_def)
    show ?thesis
    proof (cases "m < stop")
      case True
      then have "k = m" by (simp add: m_def)
      then show ?thesis using chunk [OF ok _ m(2) s] assms(1) [unfolded walk] True len pad m(1) by auto
    next
      case last: False
      then have "wav_walk f stop k b = Inr ([], b, False)" for b
        by (simp add: wav_walk.simps m_def min_def split: if_splits)
      then show ?thesis using chunk [OF ok _ m(2) s] assms(1) [unfolded walk] last len pad m(1) by auto
    qed
  qed
qed

lemma wav_encode_Cons: "wav_encode (c # cs) = wav_encode [c] @ wav_encode cs"
  by (cases c) simp

lemma length_wav_clean [simp]: "wav_chunk_ok c \<Longrightarrow> length (wav_encode [wav_clean c]) = length (wav_encode [c])"
  by (cases c) simp

lemma wav_walk_sound:
  "wav_walk f stop p saw = Inr (edits, seen, opened) \<Longrightarrow> stop \<le> length f \<Longrightarrow> p \<le> stop \<Longrightarrow>
     \<exists>cs rest. list_all wav_chunk_ok cs \<and> wav_rest opened rest \<and> (seen \<longleftrightarrow> saw \<or> opened \<or> list_ex is_data cs)
       \<and> slice f p stop = wav_encode cs @ rest
       \<and> in_order p stop edits \<and> weave f p stop edits = wav_encode (map wav_clean cs) @ rest"
proof (induction "stop - p" arbitrary: p saw edits rule: less_induct)
  case less
  from less.prems show ?case
  proof (cases rule: wav_walk_step)
    case ends
    then show ?thesis using less.prems(3) by (intro exI [of _ "[]"] exI [of _ "slice f p stop"]) auto
  next
    case (chunk tag d pad m rest)
    let ?c = "(tag, d, pad)"
    have m: "p < m" "m \<le> length f" using chunk(2,3) less.prems(2) by auto
    have "length tag = 4" using chunk(1) by simp
    note laid = wav_edit_laid [OF chunk(4,2) this m(2)]
    have here: "slice f p stop = wav_encode [?c] @ slice f m stop"
      using slice_append [of p m stop f] chunk(3,4) m(1) by simp
    show ?thesis
    proof (cases "m < stop")
      case True
      have "stop - m < stop - p" using chunk(3) m(1) True by linarith
      from less.hyps [OF this, of "saw \<or> is_data ?c" rest] True
      obtain cs r where IH: "list_all wav_chunk_ok cs" "wav_rest opened r"
          "seen \<longleftrightarrow> (saw \<or> is_data ?c) \<or> opened \<or> list_ex is_data cs" "slice f m stop = wav_encode cs @ r"
          "in_order m stop rest" "weave f m stop rest = wav_encode (map wav_clean cs) @ r"
        using chunk(3,6) less.prems(2) by auto
      have "weave f p stop edits = wav_encode [wav_clean ?c] @ wav_encode (map wav_clean cs) @ r"
        using weave_append [OF laid(1) IH(5) less.prems(2)] laid(2) IH(6) chunk(5) by simp
      moreover have "in_order p stop edits" using in_order_append [OF laid(1) IH(5)] chunk(5) by simp
      ultimately show ?thesis
        using IH(1-4) here chunk(1) wav_encode_Cons [of "wav_clean ?c" "map wav_clean cs"]
        by (intro exI [of _ "?c # cs"] exI [of _ r]) (simp del: wav_clean.simps add: disj_ac)
    next
      case False
      then show ?thesis
        using here chunk laid by (intro exI [of _ "[?c]"] exI [of _ "[]"]) (auto simp: wav_rest_def)
    qed
  qed
qed

text \<open>
  Stripping a WAV file blanks its metadata and nothing else. An accepted file is the twelve bytes of the RIFF header, a list of
  chunks, and a rest that is shorter than a chunk header or is an open-ended data chunk; the result is the
  header, the same chunks with every one that is not \<open>fmt\<close>, \<open>data\<close> or \<open>fact\<close> renamed
  JUNK and zeroed, and the same rest. There is audio: a data chunk among the chunks or the open-ended one. Only when none
  is open-ended are bytes past the declared end cut.
\<close>

theorem wav_stripped:
  assumes "stripWav f = Inr out"
  shows "\<exists>cs rest opened. list_all wav_chunk_ok cs \<and> wav_rest opened rest \<and> (opened \<or> list_ex is_data cs)
    \<and> out = take 12 f @ wav_encode (map wav_clean cs) @ rest
        @ (if opened then drop (8 + u32le f 4) f else [])
    \<and> f = take 12 f @ wav_encode cs @ rest @ drop (8 + u32le f 4) f"
proof -
  define stop where "stop = min (length f) (8 + u32le (take 12 f) 4)"
  have u: "u32le (take 12 f) 4 = u32le f 4" by (simp add: u32le_def byte_at_def)
  obtain edits opened where walk: "wav_walk f stop 12 False = Inr (edits, True, opened)"
    and stop: "12 \<le> stop" "12 \<le> length f"
    and out: "assemble f edits 0 (if opened then length f else stop) = Inr out"
    using assms by (auto simp: stripWav_def readAt_Inr slice_def stop_def Let_def split: if_splits)
  have le: "stop \<le> length f" by (simp add: stop_def)
  obtain cs rest where cs: "list_all wav_chunk_ok cs" "wav_rest opened rest" "opened \<or> list_ex is_data cs"
      "slice f 12 stop = wav_encode cs @ rest" "in_order 12 stop edits"
      "weave f 12 stop edits = wav_encode (map wav_clean cs) @ rest"
    using wav_walk_sound [OF walk le stop(1)] by auto
  have tail: "slice f stop (length f) = drop (8 + u32le f 4) f"
    by (auto simp: stop_def u slice_def min_def)
  let ?e = "if opened then length f else stop"
  have e: "stop \<le> ?e" "?e \<le> length f" using le by auto
  have order: "in_order 12 ?e edits" by (rule in_order_extend [OF cs(5) e(1)])
  have "out = weave f 0 ?e edits" using out assemble_in_order [OF in_order_weaken [OF order] e(2), of 0] by simp
  also have "\<dots> = slice f 0 12 @ weave f 12 stop edits @ slice f stop ?e"
    using weave_skip [OF order _ e(2), of 0] weave_tail [OF cs(5) e(1), of f] by simp
  finally have "out = take 12 f @ wav_encode (map wav_clean cs) @ rest @ (if opened then drop (8 + u32le f 4) f else [])"
    using cs(6) tail by (cases opened) (simp_all add: slice_def)
  moreover have "f = take 12 f @ slice f 12 stop @ slice f stop (length f)"
    using slice_append [of 12 stop "length f" f] stop le by (simp add: slice_def)
  then have "f = take 12 f @ wav_encode cs @ rest @ drop (8 + u32le f 4) f" using cs(4) tail by simp
  ultimately show ?thesis using cs(1-3) by blast
qed

definition sample_wav :: octets where
  "sample_wav = [0x52, 0x49, 0x46, 0x46] @ le32 22 @ [0x57, 0x41, 0x56, 0x45]
     @ wav_encode [([0x4c, 0x49, 0x53, 0x54], [7], [0]), ([0x64, 0x61, 0x74, 0x61], [], [])]"

text \<open>Every file of whole chunks with a data chunk is accepted.\<close>

lemma digits_sum:
  "n = a * 256 + x \<Longrightarrow> a = b * 256 + y \<Longrightarrow> b = c * 256 + z \<Longrightarrow> x + 256 * (y + 256 * (z + 256 * c)) = (n :: nat)"
  by simp

lemma u32le_le32: "n < 2 ^ 32 \<Longrightarrow> length tag = 4 \<Longrightarrow> u32le (tag @ le32 n @ r) 4 = n"
proof -
  assume n: "n < 2 ^ 32" and tag: "length tag = 4"
  have shift: "n div 65536 = n div 256 div 256" "n div 16777216 = n div 65536 div 256" by (simp_all flip: div_mult2_eq)
  have "n mod 256 + 256 * (n div 256 mod 256 + 256 * (n div 65536 mod 256 + 256 * (n div 16777216))) = n"
    by (rule digits_sum [of _ "n div 256" _ "n div 65536"]) (simp_all only: shift div_mult_mod_eq)
  moreover have "n div 16777216 mod 256 = n div 16777216" using n by simp
  moreover have "u32le (tag @ le32 n @ r) 4
      = n mod 256 + 256 * (n div 256 mod 256 + 256 * (n div 65536 mod 256 + 256 * (n div 16777216 mod 256)))"
    using tag unfolding u32le_def by (simp add: byte_at_append le32_def numeral_2_eq_2 numeral_3_eq_3)
  ultimately show ?thesis by (simp only:)
qed

definition wav_whole :: "octets \<times> octets \<times> octets \<Rightarrow> bool" where
  "wav_whole c \<longleftrightarrow> wav_chunk_ok c \<and> length (snd (snd c)) = length (fst (snd c)) mod 2"

lemma wav_walk_complete:
  "list_all wav_whole cs \<Longrightarrow> drop p f = wav_encode cs @ rest \<Longrightarrow> length rest < 8 \<Longrightarrow> p \<le> length f \<Longrightarrow>
     \<exists>edits. wav_walk f (length f) p saw = Inr (edits, saw \<or> list_ex is_data cs, False)"
proof (induction cs arbitrary: p saw)
  case Nil
  then have "drop p f = rest" by simp
  then have "length f - p = length rest" by (metis length_drop)
  then have "\<not> p + 8 \<le> length f" using Nil.prems(3) by linarith
  then show ?case by (simp add: wav_walk.simps)
next
  case (Cons c cs)
  obtain tag d pad where c: "c = (tag, d, pad)" by (cases c)
  have ok: "length tag = 4" "length d < 2 ^ 32" "length pad = length d mod 2"
    using Cons.prems(1) by (auto simp: c wav_whole_def)
  let ?q = "p + 8 + length d + length d mod 2"
  have f: "drop p f = (tag @ le32 (length d) @ d @ pad) @ wav_encode cs @ rest" using Cons.prems(2) by (simp add: c)
  have len: "?q \<le> length f" using arg_cong [OF f, of length] ok Cons.prems(4) by simp
  have h: "readAt f p 8 = Inr (tag @ le32 (length d) @ [])" using len ok f by (simp add: readAt_def slice_def)
  have "drop ?q f = wav_encode cs @ rest" using drop_drop_append [OF f] ok by (simp add: ac_simps)
  then obtain edits where "wav_walk f (length f) ?q (saw \<or> is_data c) = Inr (edits, (saw \<or> is_data c) \<or> list_ex is_data cs, False)"
    using Cons.IH Cons.prems len by fastforce
  moreover have "ascii (tag @ le32 (length d) @ []) 0 4 = ascii tag 0 4" using ok by (simp add: ascii_def byte_at_append)
  ultimately show ?case
    using h len ok u32le_le32 [of "length d" tag "[]"] unfolding wav_walk.simps [of f "length f" p saw]
    by (auto simp: Let_def c)
qed

lemma stripWav_accepts:
  assumes "length head = 12" "u32le head 4 + 8 = length f" "f = head @ wav_encode cs @ rest"
    and "list_all wav_whole cs" "length rest < 8" "list_ex is_data cs"
  shows "\<exists>out. stripWav f = Inr out"
proof -
  have "readAt f 0 12 = Inr head" using assms(1,3) by (simp add: readAt_def)
  moreover obtain edits where walk: "wav_walk f (length f) 12 False = Inr (edits, True, False)"
    using wav_walk_complete [OF assms(4), of 12 f rest False] assms by auto
  have "in_order 0 (length f) edits" using wav_walk_sound [OF walk] in_order_weaken assms(1,3) by force
  then obtain out where "assemble f edits 0 (length f) = Inr out" using assemble_in_order by blast
  ultimately show ?thesis using walk assms(1-3) by (simp add: stripWav_def Let_def)
qed

lemma sample_ascii: "ascii [0x64, 0x61, 0x74, 0x61] 0 4 = ''data''"
  by code_simp

lemma sample_wav_split:
  "sample_wav = take 12 sample_wav @ wav_encode [([0x4c, 0x49, 0x53, 0x54], [7], [0]), ([0x64, 0x61, 0x74, 0x61], [], [])] @ []"
  by (simp add: sample_wav_def)

lemma sample_wav_strips: "\<exists>out. stripWav sample_wav = Inr out"
  by (rule stripWav_accepts [where head = "take 12 sample_wav" and rest = "[]", OF _ _ sample_wav_split])
    (use u32le_le32 [of 22 "[0x52, 0x49, 0x46, 0x46]"] in \<open>simp_all add: sample_wav_def wav_whole_def sample_ascii\<close>)

theorem wav_stripped_witness:
  "\<exists>out cs rest opened. list_all wav_chunk_ok cs \<and> wav_rest opened rest \<and> (opened \<or> list_ex is_data cs)
    \<and> out = take 12 sample_wav @ wav_encode (map wav_clean cs) @ rest
        @ (if opened then drop (8 + u32le sample_wav 4) sample_wav else [])
    \<and> sample_wav = take 12 sample_wav @ wav_encode cs @ rest @ drop (8 + u32le sample_wav 4) sample_wav"
  using sample_wav_strips wav_stripped [of sample_wav] by blast

section \<open>MP3: peeling the tags\<close>

text \<open>The loop ends when no footer declares a size that would move the end forward or leave it in place.\<close>

definition lyrics_forward :: "(string \<Rightarrow> js_number) \<Rightarrow> octets \<Rightarrow> bool" where
  "lyrics_forward number f \<longleftrightarrow>
     (\<forall>p < length f. ascii f (p + 6) 9 = ''LYRICS200'' \<longrightarrow>
        (case as_integer (number (ascii f p 6)) of None \<Rightarrow> True | Some n \<Rightarrow> - 15 < n))"

lemma ascii_slice: "k + n \<le> b - a \<Longrightarrow> b \<le> length f \<Longrightarrow> ascii (slice f a b) k n = ascii f (a + k) n"
  by (simp add: ascii_def byte_at_slice add.assoc)

lemma or_try_Inr:
  "or_try m k = Inr r \<longleftrightarrow> (\<exists>s. m = Inr (Some s) \<and> r = Some s) \<or> (m = Inr None \<and> k = Inr r)"
  by (cases m) (auto simp: or_try_def split: option.splits)

lemma cut_v1_less: "cut_v1 f start stop = Inr (Some s) \<Longrightarrow> s < stop"
  by (auto simp: cut_v1_def Let_def split: if_splits)

lemma cut_ape_less: "cut_ape f start stop = Inr (Some s) \<Longrightarrow> s < stop"
  by (auto simp: cut_ape_def Let_def split: if_splits)

lemma cut_appended_less: "cut_appended f start stop = Inr (Some s) \<Longrightarrow> s < stop"
  by (auto simp: cut_appended_def Let_def split: if_splits)

lemma cut_lyrics_less:
  assumes "lyrics_forward number f" "cut_lyrics number f start stop = Inr (Some s)"
  shows "s < stop"
proof -
  obtain n where stop: "15 \<le> stop" "stop \<le> length f" and lyr: "ascii (slice f (stop - 15) stop) 6 9 = ''LYRICS200''"
    and n: "as_integer (number (ascii (slice f (stop - 15) stop) 0 6)) = Some n"
    and s: "s = nat (int stop - (n + 15))"
    using assms(2) by (auto simp: cut_lyrics_def readAt_Inr split: if_splits option.splits)
  have "- 15 < n" using assms(1) lyr n stop by (auto simp: lyrics_forward_def ascii_slice dest!: spec [of _ "stop - 15"])
  then show ?thesis using s stop by linarith
qed

lemma cut_tail_less: "lyrics_forward number f \<Longrightarrow> cut_tail number f start stop = Inr (Some s) \<Longrightarrow> s < stop"
  unfolding cut_tail_def or_try_Inr
  using cut_v1_less cut_ape_less cut_lyrics_less cut_appended_less by blast

lemma trim_tail_returns: "lyrics_forward number f \<Longrightarrow> trim_tail number f start stop \<noteq> None"
proof (induction stop rule: less_induct)
  case (less stop)
  show ?case
  proof (cases "cut_tail number f start stop")
    case (Inr r)
    then show ?thesis using less cut_tail_less [OF less.prems] by (cases r) (auto simp: trim_tail.simps [of _ _ _ stop])
  qed (simp add: trim_tail.simps [of _ _ _ stop])
qed

text \<open>
  (C19) The stripper of an MP3 file returns. Whenever no Lyrics3 footer of the file reads as a size of \<open>-15\<close> or less, the loop
  that peels tags off the end terminates, with the stripped file or a refusal.
\<close>

theorem mp3_returns:
  assumes "lyrics_forward number f"
  shows "\<exists>r. stripMp3 number f = Some r"
  using trim_tail_returns [OF assms] by (auto simp: stripMp3_def mp3_audio_def Let_def split: sum.splits)

lemma or_try_None: "or_try m k = Inr None \<longleftrightarrow> m = Inr None \<and> k = Inr None"
  by (auto simp: or_try_Inr)

lemma trim_tail_clean:
  assumes "trim_tail number f start stop = Some r"
  shows "case r of Inl _ \<Rightarrow> True | Inr s \<Rightarrow> cut_tail number f start s = Inr None"
  by (rule trim_tail.raw_induct [OF _ assms, where P = "\<lambda>number f start stop r.
      case r of Inl _ \<Rightarrow> True | Inr s \<Rightarrow> cut_tail number f start s = Inr None"])
    (fastforce split: sum.splits option.splits)

lemma isAudioFrameSync_slice:
  "isAudioFrameSync (slice f a b) p \<Longrightarrow> b \<le> length f \<Longrightarrow> isAudioFrameSync f (a + p)"
  by (auto simp: isAudioFrameSync_def Let_def byte_at_slice add.assoc split: if_splits)

text \<open>
  What an MP3 becomes is a stretch of the original that starts with an audio frame and carries no
  tag at either end: no ID3v2 tag in front, and none of the ID3v1, APE, Lyrics3 and appended ID3 tags the code
  looks for at the end. (A stream that turns out to be FLAC is handed to the FLAC stripper.)
\<close>

theorem mp3_stripped:
  assumes "stripMp3 number f = Some (Inr out)"
  shows "\<exists>start stop. stripFlac f start (length f) = Inr out
    \<or> (out = slice f start stop \<and> start + 4 \<le> stop \<and> isAudioFrameSync f start \<and> cut_tail number f start stop = Inr None)"
proof -
  obtain start stop0 where stop0: "stop0 \<le> length f" and rest: "mp3_audio number f start (slice f start stop0) = Some (Inr out)"
    using assms by (auto simp: stripMp3_def readAt_Inr split: sum.splits)
  define probe where "probe = slice f start stop0"
  note rest = rest [folded probe_def]
  let ?start = "start + length (takeWhile (\<lambda>b. b = 0) probe)"
  show ?thesis
  proof (cases "ascii probe (length (takeWhile (\<lambda>b. b = 0) probe)) 4 = ''fLaC''")
    case True
    then show ?thesis using rest by (auto simp: mp3_audio_def Let_def)
  next
    case False
    then obtain stop where "isAudioFrameSync probe (length (takeWhile (\<lambda>b. b = 0) probe))"
        "trim_tail number f ?start (length f) = Some (Inr stop)" "4 \<le> stop - ?start" "assemble f [] ?start stop = Inr out"
      using rest by (auto simp: mp3_audio_def Let_def not_less split: if_splits)
    then show ?thesis
      using trim_tail_clean [of number f ?start "length f" "Inr stop"] isAudioFrameSync_slice [of f start stop0] stop0
      by (intro exI [of _ ?start] exI [of _ stop]) (auto simp: assemble_def probe_def)
  qed
qed

lemma trim_tail_stuck:
  assumes "trim_tail number f start stop = Some r"
  shows "cut_tail number f start stop \<noteq> Inr (Some stop)"
  by (rule trim_tail.raw_induct [OF _ assms, where P = "\<lambda>number f start stop r. cut_tail number f start stop \<noteq> Inr (Some stop)"])
    (auto split: sum.splits option.splits)

definition hanging_file :: octets where
  "hanging_file = [0xff, 0xfb, 0x90, 0, 0, 0, 0, 0, 0, 0] @ [0x20, 0x20, 0x20, 0x2d, 0x31, 0x35]
     @ [0x4c, 0x59, 0x52, 0x49, 0x43, 0x53, 0x32, 0x30, 0x30]"

lemma hanging_cut:
  assumes "number ''   -15'' = Num (- 15)"
  shows "cut_lyrics number hanging_file 0 25 = Inr (Some 25)"
proof -
  let ?ly = "[0x20, 0x20, 0x20, 0x2d, 0x31, 0x35, 0x4c, 0x59, 0x52, 0x49, 0x43, 0x53, 0x32, 0x30, 0x30] :: octets"
  have "readAt hanging_file 10 15 = Inr ?ly" by (simp add: readAt_def slice_def hanging_file_def)
  moreover have "ascii ?ly 6 9 = ''LYRICS200''" "ascii ?ly 0 6 = ''   -15''" by code_simp+
  ultimately show ?thesis using assms as_integer_of_int [of "- 15"] by (simp add: cut_lyrics_def)
qed

lemma hanging_frame: "isAudioFrameSync hanging_file 0"
  by (simp add: isAudioFrameSync_def hanging_file_def byte_at_def Let_def)

text \<open>
  (C36) A Lyrics3 footer whose six size characters read as \<open>-15\<close> leaves the end where it is, and the loop
  goes round for ever: picking such a file never returns.
\<close>

theorem lyrics_footer_hangs:
  assumes "number ''   -15'' = Num (- 15)"
  shows "stripMp3 number hanging_file = None"
proof -
  have len: "length hanging_file = 25" by (simp add: hanging_file_def)
  have "cut_tail number hanging_file 0 25 = Inr (Some 25)"
    using hanging_cut [of number] assms by (simp add: cut_tail_def cut_v1_def cut_ape_def or_try_def)
  then have stuck: "trim_tail number hanging_file 0 25 = None" using trim_tail_stuck by fastforce
  have "char_of (255 :: nat) \<noteq> CHR ''I''" "char_of (255 :: nat) \<noteq> CHR ''f''" by code_simp+
  then have head: "ascii (slice hanging_file 0 10) 0 3 \<noteq> ''ID3''" "ascii hanging_file 0 4 \<noteq> ''fLaC''"
    by (simp_all add: hanging_file_def slice_def ascii_def byte_at_def upt_rec)
  have "id3_skip hanging_file 0 = Inr 0"
    using head(1) by (simp add: id3_skip.simps readAt_def len)
  moreover have "readAt hanging_file 0 25 = Inr hanging_file" by (simp add: readAt_def len)
  moreover have "takeWhile (\<lambda>b. b = 0) hanging_file = []" by (simp add: hanging_file_def)
  ultimately show ?thesis using head(2) hanging_frame stuck by (simp add: stripMp3_def mp3_audio_def len)
qed

theorem mp3_returns_witness: "\<exists>r. stripMp3 (\<lambda>s. Num 0) hanging_file = Some r"
  by (rule mp3_returns) (simp add: lyrics_forward_def)

theorem lyrics_footer_hangs_witness:
  "stripMp3 (\<lambda>s. if s = ''   -15'' then Num (- 15) else NaN) hanging_file = None"
  by (rule lyrics_footer_hangs) simp

end
