(* ===== verification/Strip_Matroska.thy ===== *)
theory Strip_Matroska
  imports Strip_Base
begin

unbundle bit_operations_syntax

text \<open>
  Matroska and WebM in the media metadata stripper
  (\<open>packages/app/src/lib/media/strip-metadata.ts\<close>): element headers, \<open>Void\<close> elements, the in-place
  voiding of a master's children and the walk over the file. \<open>WindowReader\<close> reads are \<open>read_bytes\<close>
  (\<open>window_bytes_direct\<close> of \<open>Strip_Base\<close>). A size the code computes in floating point is exact here; both are
  refused from \<open>2 ^ 53\<close> on.

  A void header reads back as an element of exactly the length it replaces (\<open>void_header_parses\<close>); a voided
  master has the same elements at the same places, none of them unwanted.
\<close>

section \<open>Elements\<close>

definition MKV_EBML :: nat where "MKV_EBML = 0x1a45dfa3"
definition MKV_Segment :: nat where "MKV_Segment = 0x18538067"
definition MKV_SeekHead :: nat where "MKV_SeekHead = 0x114d9b74"
definition MKV_Seek :: nat where "MKV_Seek = 0x4dbb"
definition MKV_SeekID :: nat where "MKV_SeekID = 0x53ab"
definition MKV_Info :: nat where "MKV_Info = 0x1549a966"
definition MKV_DateUTC :: nat where "MKV_DateUTC = 0x4461"
definition MKV_Title :: nat where "MKV_Title = 0x7ba9"
definition MKV_MuxingApp :: nat where "MKV_MuxingApp = 0x4d80"
definition MKV_WritingApp :: nat where "MKV_WritingApp = 0x5741"
definition MKV_Tracks :: nat where "MKV_Tracks = 0x1654ae6b"
definition MKV_TrackEntry :: nat where "MKV_TrackEntry = 0xae"
definition MKV_Name :: nat where "MKV_Name = 0x536e"
definition MKV_Cluster :: nat where "MKV_Cluster = 0x1f43b675"
definition MKV_Tags :: nat where "MKV_Tags = 0x1254c367"
definition MKV_Attachments :: nat where "MKV_Attachments = 0x1941a469"
definition MKV_Chapters :: nat where "MKV_Chapters = 0x1043a770"
definition MKV_Void :: nat where "MKV_Void = 0xec"
definition MKV_CRC32 :: nat where "MKV_CRC32 = 0xbf"

definition MKV_DROP :: "nat list" where "MKV_DROP = [MKV_Tags, MKV_Attachments, MKV_Chapters]"

definition MKV_CLUSTER_CHILDREN :: "nat list" where
  "MKV_CLUSTER_CHILDREN = [0xe7, 0x5854, 0xa7, 0xab, 0xa0, 0xa3, 0xaf, MKV_Void, MKV_CRC32]"

definition MAX_MKV_MASTER_BYTES :: nat where "MAX_MKV_MASTER_BYTES = 16 * 1024 * 1024"

text \<open>\<open>el_size = None\<close> is an unknown size.\<close>

record ebml =
  el_id :: nat
  el_start :: nat
  el_data :: nat
  el_size :: "nat option"

definition id_len :: "nat \<Rightarrow> nat" where
  "id_len first = (if 128 \<le> first then 1 else if 64 \<le> first then 2 else if 32 \<le> first then 3
                   else if 16 \<le> first then 4 else 0)"

definition size_len :: "nat \<Rightarrow> nat option" where
  "size_len lead = List.find (\<lambda>w. lead div 2 ^ (8 - w) mod 2 = 1) [1..<9]"

definition be_value :: "nat \<Rightarrow> nat list \<Rightarrow> nat" where
  "be_value v xs = foldl (\<lambda>v x. v * 256 + x) v xs"

definition bytes_from :: "octets \<Rightarrow> nat \<Rightarrow> nat \<Rightarrow> nat list" where
  "bytes_from b p n = map (\<lambda>j. byte_at b (p + j)) [0..<n]"

definition parseEbml :: "octets \<Rightarrow> nat \<Rightarrow> nat \<Rightarrow> nat \<Rightarrow> ebml strip" where
  "parseEbml b p limit base =
     (if limit \<le> p then Inl ''truncated element''
      else let k = id_len (byte_at b p); s = p + k; lead = byte_at b s
           in if k = 0 then Inl ''bad element ID''
              else if limit \<le> s then Inl ''truncated element''
              else (case size_len lead of
                      None \<Rightarrow> Inl ''bad element size''
                    | Some w \<Rightarrow>
                        if limit < s + w then Inl ''truncated element''
                        else let v = lead mod 2 ^ (8 - w);
                                 rest = bytes_from b (s + 1) (w - 1);
                                 value = be_value v rest;
                                 allOnes = (v = 2 ^ (8 - w) - 1 \<and> list_all (\<lambda>x. x = 255) rest)
                             in if \<not> allOnes \<and> 2 ^ 53 \<le> value then Inl ''element size out of range''
                                else Inr \<lparr>el_id = be_value 0 (bytes_from b p k), el_start = base + p,
                                           el_data = base + s + w, el_size = (if allOnes then None else Some value)\<rparr>))"

definition readEbml :: "octets \<Rightarrow> nat \<Rightarrow> nat \<Rightarrow> ebml strip" where
  "readEbml file pos limit =
     (let n = min 12 (limit - pos)
      in if n < 2 then Inl ''truncated element'' else and_then (read_bytes file pos n) (\<lambda>b. parseEbml b 0 n pos))"

definition ebmlEnd :: "ebml \<Rightarrow> nat \<Rightarrow> nat strip" where
  "ebmlEnd e limit =
     (case el_size e of
        None \<Rightarrow> Inl ''unknown-size element where a size is required''
      | Some n \<Rightarrow> if limit < el_data e + n then Inl ''element runs past its parent'' else Inr (el_data e + n))"

section \<open>Voiding\<close>

text \<open>The size as \<open>w\<close> big-endian bytes, the length marker or-ed into the first.\<close>

definition size_bytes :: "nat \<Rightarrow> nat \<Rightarrow> octets" where
  "size_bytes w v =
     (case map (\<lambda>i. octet_of (v div 256 ^ (w - 1 - i))) [0..<w] of
        x # xs \<Rightarrow> (x OR octet_of (128 div 2 ^ (w - 1))) # xs | [] \<Rightarrow> [])"

definition voidHeader :: "nat \<Rightarrow> octets strip" where
  "voidHeader len =
     (case List.find (\<lambda>w. 1 + w \<le> len \<and> len - 1 - w \<le> 2 ^ (7 * w) - 2) [1..<9] of
        None \<Rightarrow> Inl ''element too small to void''
      | Some w \<Rightarrow> Inr (octet_of MKV_Void # size_bytes w (len - 1 - w)))"

definition voidInPlace :: "octets \<Rightarrow> nat \<Rightarrow> nat \<Rightarrow> octets strip" where
  "voidInPlace b start stop =
     and_then (voidHeader (stop - start)) (\<lambda>h.
       Inr (take start b @ h @ replicate (stop - start - length h) 0 @ drop stop b))"

fun void_all :: "octets \<Rightarrow> (nat \<times> nat) list \<Rightarrow> octets strip" where
  "void_all b [] = Inr b"
| "void_all b ((s, e) # rest) = and_then (voidInPlace b s e) (\<lambda>b'. void_all b' rest)"

lemma parseEbml_data: "parseEbml b p limit base = Inr c \<Longrightarrow> base + p < el_data c \<and> el_data c \<le> base + limit"
  by (auto simp: parseEbml_def Let_def split: if_splits option.splits)

text \<open>\<open>voidChildren\<close>, the loop at \<open>p\<close> with the CRC elements seen and whether anything changed.\<close>

function voidChildren ::
  "(octets \<Rightarrow> ebml \<Rightarrow> nat \<Rightarrow> bool strip) \<Rightarrow> nat list \<Rightarrow> octets \<Rightarrow> nat \<Rightarrow> nat \<Rightarrow> bool \<Rightarrow> (nat \<times> nat) list
   \<Rightarrow> (octets \<times> bool) strip"
where
  "voidChildren unwanted into b p stop changed crcs =
     (if \<not> p < stop then
        (if changed then and_then (void_all b crcs) (\<lambda>b'. Inr (b', True)) else Inr (b, False))
      else and_then (parseEbml b p stop 0) (\<lambda>c.
        case el_size c of
          None \<Rightarrow> Inl ''unknown-size child''
        | Some n \<Rightarrow>
            (let e = el_data c + n
             in if stop < e then Inl ''child runs past its parent''
                else if el_id c = MKV_CRC32 then voidChildren unwanted into b e stop changed (crcs @ [(el_start c, e)])
                else and_then (unwanted b c e) (\<lambda>u.
                  if u then and_then (voidInPlace b (el_start c) e) (\<lambda>b'.
                    voidChildren unwanted into b' e stop True crcs)
                  else if el_id c \<in> set into then
                    and_then (voidChildren unwanted into b (el_data c) e False []) (\<lambda>(b', ch).
                      voidChildren unwanted into b' e stop (changed \<or> ch) crcs)
                  else voidChildren unwanted into b e stop changed crcs))))"
  by auto
termination
  by (relation "measure (\<lambda>(unwanted, into, b, p, stop, changed, crcs). stop - p)")
    (auto dest!: parseEbml_data)

declare voidChildren.simps [simp del]

text \<open>The SeekID of a Seek entry, 0 when absent.\<close>

function seekTarget :: "octets \<Rightarrow> nat \<Rightarrow> nat \<Rightarrow> nat strip" where
  "seekTarget b p stop =
     (if \<not> p < stop then Inr 0
      else and_then (parseEbml b p stop 0) (\<lambda>g.
        case el_size g of
          None \<Rightarrow> Inl ''bad Seek entry''
        | Some n \<Rightarrow>
            if stop < el_data g + n then Inl ''bad Seek entry''
            else if el_id g = MKV_SeekID then
              (if 4 < n then Inl ''bad SeekID'' else Inr (be_value 0 (bytes_from b (el_data g) n)))
            else seekTarget b (el_data g + n) stop))"
  by auto
termination
  by (relation "measure (\<lambda>(b, p, stop). stop - p)") (auto dest!: parseEbml_data)

declare seekTarget.simps [simp del]

text \<open>The tests and the masters entered, by the element that is stripped.\<close>

definition mkv_unwanted :: "nat \<Rightarrow> octets \<Rightarrow> ebml \<Rightarrow> nat \<Rightarrow> bool strip" where
  "mkv_unwanted master b c e =
     (if master = MKV_Info then Inr (el_id c \<in> {MKV_DateUTC, MKV_Title, MKV_MuxingApp, MKV_WritingApp})
      else if master = MKV_Tracks then Inr (el_id c = MKV_Name)
      else if el_id c \<noteq> MKV_Seek then Inr False
      else and_then (seekTarget b (el_data c) e) (\<lambda>t. Inr (t \<in> set MKV_DROP)))"

definition mkv_into :: "nat \<Rightarrow> nat list" where
  "mkv_into master = (if master = MKV_Tracks then [MKV_TrackEntry] else [])"

definition stripMkvMaster :: "octets \<Rightarrow> ebml \<Rightarrow> nat \<Rightarrow> edit list strip" where
  "stripMkvMaster file el stop =
     (let len = stop - el_start el; first = el_data el - el_start el
      in if MAX_MKV_MASTER_BYTES < len then Inl ''metadata element too large''
         else and_then (readAt file (el_start el) len) (\<lambda>buf.
           and_then
             (if el_id el \<in> {MKV_Info, MKV_Tracks, MKV_SeekHead} then
                voidChildren (mkv_unwanted (el_id el)) (mkv_into (el_id el)) buf first len False []
              else Inr (buf, False))
             (\<lambda>(b, changed). Inr (if changed then [Bytes (el_start el) b] else []))))"

section \<open>The file\<close>

lemma readEbml_data: "readEbml file pos limit = Inr c \<Longrightarrow> pos < el_data c \<and> el_data c \<le> limit"
  by (auto simp: readEbml_def Let_def min_def dest!: parseEbml_data split: if_splits)

text \<open>The children of an unknown-size Cluster: where the first element stands that is not one.\<close>

function cluster_end :: "octets \<Rightarrow> nat \<Rightarrow> nat \<Rightarrow> nat strip" where
  "cluster_end file pos segEnd =
     (if \<not> pos < segEnd then Inr pos
      else and_then (readEbml file pos segEnd) (\<lambda>c.
        if el_id c \<notin> set MKV_CLUSTER_CHILDREN then Inr pos
        else and_then (ebmlEnd c segEnd) (\<lambda>e. cluster_end file e segEnd)))"
  by auto
termination
  by (relation "measure (\<lambda>(file, pos, segEnd). segEnd - pos)")
    (auto dest!: readEbml_data simp: ebmlEnd_def split: option.splits if_splits)

declare cluster_end.simps [simp del]

lemma cluster_end_ge: "cluster_end f pos segEnd = Inr q \<Longrightarrow> pos \<le> q"
proof (induction f pos segEnd rule: cluster_end.induct)
  case (1 f pos segEnd)
  show ?case
  proof (cases "pos < segEnd")
    case True
    then obtain c where c: "readEbml f pos segEnd = Inr c"
        "if el_id c \<notin> set MKV_CLUSTER_CHILDREN then q = pos
         else \<exists>e. ebmlEnd c segEnd = Inr e \<and> cluster_end f e segEnd = Inr q"
      using 1(2) unfolding cluster_end.simps [of f pos segEnd] by (auto split: if_splits)
    then show ?thesis using 1(1) [OF _ c(1)] True readEbml_data [OF c(1)]
      by (auto simp: ebmlEnd_def split: if_splits option.splits intro: order_trans less_imp_le)
  qed (use 1(2) in \<open>simp add: cluster_end.simps\<close>)
qed

definition drop_edits :: "nat \<Rightarrow> nat \<Rightarrow> edit list strip" where
  "drop_edits start stop =
     and_then (voidHeader (stop - start)) (\<lambda>h. Inr [Bytes start h, Zeros (start + length h) (stop - start - length h)])"

function segment_edits :: "octets \<Rightarrow> nat \<Rightarrow> nat \<Rightarrow> edit list strip" where
  "segment_edits file pos segEnd =
     (if \<not> pos < segEnd then Inr []
      else and_then (readEbml file pos segEnd) (\<lambda>el.
        case el_size el of
          None \<Rightarrow>
            if el_id el \<noteq> MKV_Cluster then Inl ''unknown-size element other than a Cluster''
            else and_then (cluster_end file (el_data el) segEnd) (\<lambda>q. segment_edits file q segEnd)
        | Some _ \<Rightarrow>
            and_then (ebmlEnd el segEnd) (\<lambda>e.
              and_then
                (if el_id el \<in> set MKV_DROP then drop_edits (el_start el) e
                 else if el_id el \<in> {MKV_Info, MKV_Tracks, MKV_SeekHead} then stripMkvMaster file el e
                 else Inr [])
                (\<lambda>here. and_then (segment_edits file e segEnd) (\<lambda>rest. Inr (here @ rest))))))"
  by auto
termination
proof (relation "measure (\<lambda>(file, pos, segEnd). segEnd - pos)", goal_cases)
  case (2 f pos segEnd el q)
  then show ?case using readEbml_data cluster_end_ge by fastforce
next
  case (3 f pos segEnd el n e)
  then show ?case using readEbml_data by (fastforce simp: ebmlEnd_def split: option.splits if_splits)
qed simp

declare segment_edits.simps [simp del]

text \<open>The top level: the edits and the number of segments from a position on.\<close>

function top_edits :: "octets \<Rightarrow> nat \<Rightarrow> (edit list \<times> nat) strip" where
  "top_edits file p =
     (if \<not> p < length file then Inr ([], 0)
      else and_then (readEbml file p (length file)) (\<lambda>top.
        if el_id top = MKV_Void then and_then (ebmlEnd top (length file)) (\<lambda>e. top_edits file e)
        else if el_id top \<noteq> MKV_Segment then Inl ''unexpected top-level element''
        else and_then (if el_size top = None then Inr (length file) else ebmlEnd top (length file)) (\<lambda>segEnd.
          and_then (segment_edits file (el_data top) segEnd) (\<lambda>edits.
            and_then (top_edits file segEnd) (\<lambda>(rest, n). Inr (edits @ rest, Suc n))))))"
  by auto
termination
proof (relation "measure (\<lambda>(file, p). length file - p)", goal_cases)
  case (2 f p top e)
  then show ?case using readEbml_data by (fastforce simp: ebmlEnd_def split: option.splits if_splits)
next
  case (3 f p top segEnd edits)
  then show ?case using readEbml_data by (fastforce simp: ebmlEnd_def split: option.splits if_splits)
qed simp

declare top_edits.simps [simp del]

definition stripMatroska :: "octets \<Rightarrow> octets strip" where
  "stripMatroska file =
     and_then (readEbml file 0 (length file)) (\<lambda>header.
       if el_id header \<noteq> MKV_EBML then Inl ''no EBML header''
       else and_then (ebmlEnd header (length file)) (\<lambda>p.
         and_then (top_edits file p) (\<lambda>(edits, segments).
           if segments \<noteq> 1 then Inl ''expected exactly one Segment'' else assemble file edits 0 (length file))))"

section \<open>Void headers\<close>

lemma size_len_Some:
  assumes "1 \<le> w" "w \<le> 8" "x < 2 ^ (8 - w)"
  shows "size_len (2 ^ (8 - w) + x) = Some w"
proof -
  let ?l = "2 ^ (8 - w) + x"
  have "?l div 2 ^ (8 - w) = 1" using assms(3) by (intro div_nat_eqI) simp_all
  moreover have "?l div 2 ^ (7 - j) = 0" if "Suc j < w" for j
  proof -
    have "?l < 2 ^ Suc (8 - w)" using assms(3) by simp
    also have "\<dots> \<le> (2 :: nat) ^ (7 - j)" using that assms(2) by (intro power_increasing) auto
    finally show ?thesis by simp
  qed
  ultimately show ?thesis
    unfolding size_len_def find_Some_iff using assms(1,2)
    by (intro exI [of _ "w - 1"]) auto
qed

lemma be_value_digits:
  "be_value (v div 256 ^ k) (map (\<lambda>i. v div 256 ^ (k - 1 - i) mod 256) [0..<k]) = v"
proof (induction k)
  case (Suc k)
  have "map (\<lambda>i. v div 256 ^ (Suc k - 1 - i) mod 256) [0..<Suc k]
      = v div 256 ^ k mod 256 # map (\<lambda>i. v div 256 ^ (k - 1 - i) mod 256) [0..<k]"
    by (subst upt_conv_Cons) (simp_all add: map_Suc_upt [symmetric] comp_def del: upt_Suc)
  moreover have "v div 256 ^ Suc k * 256 + v div 256 ^ k mod 256 = v div 256 ^ k"
    by (metis div_mult2_eq div_mult_mod_eq mult.commute power_Suc)
  ultimately show ?case using Suc by (simp add: be_value_def)
qed (simp add: be_value_def)

lemma be_value_ones:
  "list_all (\<lambda>x. x = 255) xs \<Longrightarrow> be_value (2 ^ a - 1) xs = 2 ^ (a + 8 * length xs) - 1"
proof (induction xs arbitrary: a)
  case (Cons x xs)
  have "(2 ^ a - 1) * 256 + 255 = (2 :: nat) ^ (a + 8) - 1"
    by (simp add: power_add diff_mult_distrib)
  then show ?case using Cons by (simp add: be_value_def add.assoc)
qed (simp add: be_value_def)

lemma length_size_bytes [simp]: "length (size_bytes w v) = w"
  by (auto simp: size_bytes_def split: list.splits dest: arg_cong [of _ _ length])

lemma or_marker:
  assumes "x < 2 ^ (8 - w)" "1 \<le> w" "w \<le> 8"
  shows "unat (octet_of x OR octet_of (128 div 2 ^ (w - 1))) = 2 ^ (8 - w) + x"
proof -
  have pow: "128 div 2 ^ (w - 1) = (2 :: nat) ^ (8 - w)"
  proof -
    have "(128 :: nat) = 2 ^ (8 - w) * 2 ^ (w - 1)" using assms by (simp flip: power_add)
    then show ?thesis by (metis nonzero_mult_div_cancel_right power_not_zero zero_neq_numeral)
  qed
  have lt: "(2 :: nat) ^ (8 - w) \<le> 128" using power_increasing [of "8 - w" 7 "2 :: nat"] assms(2) by simp
  have x: "take_bit (8 - w) x = x" using assms(1) by (simp add: take_bit_nat_eq_self)
  have "\<not> (bit (octet_of x) n \<and> bit (octet_of (2 ^ (8 - w))) n)" for n
  proof -
    have "\<not> bit x n" if "n = 8 - w" using that x by (metis bit_take_bit_iff less_irrefl)
    then show ?thesis by (auto simp: octet_of_def bit_simps)
  qed
  then have "octet_of x OR octet_of (2 ^ (8 - w)) = octet_of x + octet_of (2 ^ (8 - w))"
    by (subst disjunctive_add) auto
  also have "\<dots> = octet_of (2 ^ (8 - w) + x)" by (simp add: octet_of_def)
  finally show ?thesis unfolding pow using lt assms(1) by simp
qed

lemma size_bytes_values:
  assumes "1 \<le> w" "w \<le> 8" "v < 2 ^ (7 * w)"
  shows "byte_at (size_bytes w v) 0 = 2 ^ (8 - w) + v div 256 ^ (w - 1)"
    and "v div 256 ^ (w - 1) < 2 ^ (8 - w)"
    and "map (\<lambda>j. byte_at (size_bytes w v) (1 + j)) [0..<w - 1] = map (\<lambda>i. v div 256 ^ (w - 1 - 1 - i) mod 256) [0..<w - 1]"
proof -
  have "(2 :: nat) ^ (7 * w) = 2 ^ (8 - w) * 256 ^ (w - 1)"
  proof -
    have p: "(256 :: nat) ^ (w - 1) = 2 ^ (8 * (w - 1))" by (simp add: power_mult)
    have e: "7 * w = (8 - w) + 8 * (w - 1)" using assms(1,2) by simp
    show ?thesis unfolding p e power_add by (rule refl)
  qed
  then show top: "v div 256 ^ (w - 1) < 2 ^ (8 - w)" using assms(3) by (simp add: less_mult_imp_div_less)
  have sb: "size_bytes w v = (octet_of (v div 256 ^ (w - 1)) OR octet_of (128 div 2 ^ (w - 1)))
      # map (\<lambda>i. octet_of (v div 256 ^ (w - 1 - i))) [1..<w]"
    using assms(1) by (simp add: size_bytes_def upt_conv_Cons)
  show "byte_at (size_bytes w v) 0 = 2 ^ (8 - w) + v div 256 ^ (w - 1)"
    unfolding sb using or_marker [OF top assms(1,2)] by simp
  show "map (\<lambda>j. byte_at (size_bytes w v) (1 + j)) [0..<w - 1] = map (\<lambda>i. v div 256 ^ (w - 1 - 1 - i) mod 256) [0..<w - 1]"
    unfolding sb by (simp add: byte_at_def)
qed

lemma bytes_from_append: "bytes_from (pre @ b) (length pre + p) n = bytes_from b p n"
  by (simp add: bytes_from_def byte_at_append)

lemma bytes_from_prefix: "p + n \<le> length b \<Longrightarrow> bytes_from (b @ post) p n = bytes_from b p n"
  by (simp add: bytes_from_def byte_at_append)

text \<open>
  A void element fills exactly the space it is given. The header \<open>voidHeader\<close> makes for a length reads back as a
  \<open>Void\<close> element that ends where the element it replaces ended, whatever stands before and after it, for
  every length a file can have.
\<close>

theorem void_header_parses:
  assumes "voidHeader n = Inr h" "n < 2 ^ 53" "length pre + length h \<le> limit"
  shows "length h \<le> n \<and> parseEbml (pre @ h @ post) (length pre) limit base =
    Inr \<lparr>el_id = MKV_Void, el_start = base + length pre, el_data = base + length pre + length h,
         el_size = Some (n - length h)\<rparr>"
proof -
  obtain w where w: "1 \<le> w" "w \<le> 8" "1 + w \<le> n" "n - 1 - w \<le> 2 ^ (7 * w) - 2"
    and h: "h = octet_of MKV_Void # size_bytes w (n - 1 - w)"
    using assms(1) by (auto simp: voidHeader_def split: option.splits dest!: find_Some_in)
  define v where "v = n - 1 - w"
  have two: "(2 :: nat) ^ 7 \<le> 2 ^ (7 * w)" using w(1) by (intro power_increasing) auto
  then have lt: "v < 2 ^ (7 * w)" "v \<noteq> 2 ^ (7 * w) - 1" using w(4) by (simp_all add: v_def)
  note vals = size_bytes_values [OF w(1,2) lt(1)]
  let ?b = "pre @ h @ post"
  have first: "byte_at ?b (length pre) = 0xec" by (simp add: byte_at_append h MKV_Void_def)
  have lead: "byte_at ?b (length pre + 1) = 2 ^ (8 - w) + v div 256 ^ (w - 1)"
    using vals(1) w(1) by (simp add: byte_at_append h v_def)
  have rest: "bytes_from ?b (length pre + 1 + 1) (w - 1) = map (\<lambda>i. v div 256 ^ (w - 1 - 1 - i) mod 256) [0..<w - 1]"
  proof -
    have "bytes_from ?b (length pre + 1 + 1) (w - 1) = bytes_from h 2 (w - 1)"
      using bytes_from_append [of pre "h @ post" 2] bytes_from_prefix [of 2 "w - 1" h post] w(1) by (simp add: h)
    also have "\<dots> = map (\<lambda>j. byte_at (size_bytes w v) (1 + j)) [0..<w - 1]"
      by (simp add: bytes_from_def h v_def numeral_2_eq_2)
    finally show ?thesis using vals(3) by simp
  qed
  have low: "(2 ^ (8 - w) + v div 256 ^ (w - 1)) mod 2 ^ (8 - w) = v div 256 ^ (w - 1)"
    using vals(2) by simp
  have num: "be_value (v div 256 ^ (w - 1)) (map (\<lambda>i. v div 256 ^ (w - 1 - 1 - i) mod 256) [0..<w - 1]) = v"
    by (rule be_value_digits)
  have ones: "\<not> (v div 256 ^ (w - 1) = 2 ^ (8 - w) - 1
      \<and> list_all (\<lambda>x. x = 255) (map (\<lambda>i. v div 256 ^ (w - 1 - 1 - i) mod 256) [0..<w - 1]))"
  proof
    assume ones: "v div 256 ^ (w - 1) = 2 ^ (8 - w) - 1
      \<and> list_all (\<lambda>x. x = 255) (map (\<lambda>i. v div 256 ^ (w - 1 - 1 - i) mod 256) [0..<w - 1])"
    have "be_value (2 ^ (8 - w) - 1) (map (\<lambda>i. v div 256 ^ (w - 1 - 1 - i) mod 256) [0..<w - 1]) = v"
      using num ones by simp
    then have "v = 2 ^ (8 - w + 8 * (w - 1)) - 1"
      using be_value_ones [OF conjunct2 [OF ones], of "8 - w"] by simp
    moreover have "8 - w + 8 * (w - 1) = 7 * w" using w(1,2) by simp
    ultimately have "v = 2 ^ (7 * w) - 1" by (simp only:)
    then show False using lt(2) by simp
  qed
  have ident: "be_value 0 (bytes_from ?b (length pre) 1) = MKV_Void"
    using first by (simp add: bytes_from_def be_value_def MKV_Void_def)
  have len: "length h = 1 + w" by (simp add: h)
  have k: "id_len 0xec = 1" by (simp add: id_len_def)
  have lims: "\<not> limit \<le> length pre" "\<not> limit \<le> length pre + 1" "\<not> limit < length pre + 1 + w"
    using assms(3) len w(1) by simp_all
  have sz: "size_len (2 ^ (8 - w) + v div 256 ^ (w - 1)) = Some w" by (rule size_len_Some [OF w(1,2) vals(2)])
  have v: "n - length h = v" "length h \<le> n" "\<not> 2 ^ 53 \<le> v" using assms(2) w(3) len by (simp_all add: v_def)
  show ?thesis
    unfolding parseEbml_def Let_def first k lead sz option.case low rest num ident v(1)
    using ones lims v(2,3) len by simp
qed

section \<open>A voided master\<close>

text \<open>A header is determined by its own bytes.\<close>

lemma parseEbml_same:
  assumes "parseEbml b p limit base = Inr c" "same_bytes b b' p (el_data c - base)" "limit \<le> limit'"
  shows "parseEbml b' p limit' base = Inr c"
proof -
  let ?k = "id_len (byte_at b p)"
  obtain w where w: "size_len (byte_at b (p + ?k)) = Some w" and c: "el_data c = base + (p + ?k) + w"
    and lim: "p < limit" "p + ?k < limit" "p + ?k + w \<le> limit" and k: "?k \<noteq> 0"
    using assms(1) by (auto simp: parseEbml_def Let_def split: if_splits option.splits)
  have "1 \<le> w" using w by (auto simp: size_len_def dest!: find_Some_in)
  have same: "byte_at b' i = byte_at b i" if "p \<le> i" "i < p + ?k + w" for i
    using assms(2) that c by (simp add: same_bytes_def)
  have "byte_at b' p = byte_at b p" "byte_at b' (p + ?k) = byte_at b (p + ?k)"
    using same \<open>1 \<le> w\<close> k by simp_all
  moreover have "bytes_from b' p ?k = bytes_from b p ?k" using same by (simp add: bytes_from_def)
  moreover have "bytes_from b' (p + ?k + 1) (w - 1) = bytes_from b (p + ?k + 1) (w - 1)"
    using same by (auto simp: bytes_from_def)
  ultimately show ?thesis
    using assms(1,3) w lim by (auto simp: parseEbml_def Let_def split: if_splits)
qed

text \<open>The bytes from \<open>s\<close> to \<open>e\<close> are one \<open>Void\<close> element, its payload all zeros.\<close>

definition void_at :: "octets \<Rightarrow> nat \<Rightarrow> nat \<Rightarrow> bool" where
  "void_at b s e =
     (case parseEbml b s e 0 of
        Inl _ \<Rightarrow> False
      | Inr c \<Rightarrow> el_id c = MKV_Void \<and> el_size c = Some (e - el_data c)
          \<and> list_all (\<lambda>i. byte_at b i = 0) [el_data c..<e])"

lemma void_at_same:
  assumes "void_at b s e" "same_bytes b b' s e"
  shows "void_at b' s e"
proof -
  obtain c where c: "parseEbml b s e 0 = Inr c" "el_id c = MKV_Void" "el_size c = Some (e - el_data c)"
      "list_all (\<lambda>i. byte_at b i = 0) [el_data c..<e]"
    using assms(1) by (auto simp: void_at_def split: sum.splits)
  have "s < el_data c" "el_data c \<le> e" using parseEbml_data [OF c(1)] by simp_all
  then have "parseEbml b' s e 0 = Inr c" and "list_all (\<lambda>i. byte_at b' i = 0) [el_data c..<e]"
    using parseEbml_same [OF c(1) _ order_refl, of b'] same_bytes_sub [OF assms(2), of s "el_data c"] c(4) assms(2)
    by (auto simp: list_all_iff same_bytes_def)
  then show ?thesis using c by (simp add: void_at_def)
qed

lemma voidInPlace_effect:
  assumes "voidInPlace b s e = Inr b'" "s \<le> e" "e \<le> length b" "e < 2 ^ 53"
  shows "length b' = length b" and "same_bytes b b' 0 s" and "same_bytes b b' e k" and "void_at b' s e"
proof -
  obtain h where h: "voidHeader (e - s) = Inr h" and b': "b' = take s b @ h @ replicate (e - s - length h) 0 @ drop e b"
    using assms(1) by (auto simp: voidInPlace_def)
  have len: "length h \<le> e - s" using void_header_parses [OF h, of "[]" "length h" "[]" 0] assms(2,4) by simp
  show "length b' = length b" using len assms(2,3) by (simp add: b')
  have p: "length (take s b) = s" using assms(2,3) by simp
  have "byte_at b' i = byte_at b i" if "i < s" for i
    using that p assms(2,3) unfolding b' byte_at_append [of "take s b"] by (simp add: byte_at_def)
  then show "same_bytes b b' 0 s" by (simp add: same_bytes_def)
  show "same_bytes b b' e k"
    using len assms(2,3) by (auto simp: same_bytes_def b' byte_at_def nth_append)
  have "byte_at b' i = 0" if "s + length h \<le> i" "i < e" for i
    using that p len unfolding b' byte_at_append p by (auto simp: byte_at_def)
  moreover have "parseEbml b' s e 0 =
      Inr \<lparr>el_id = MKV_Void, el_start = 0 + s, el_data = 0 + s + length h, el_size = Some (e - s - length h)\<rparr>"
    using void_header_parses [OF h, of "take s b" e "replicate (e - s - length h) 0 @ drop e b" 0] len assms(2,4) p
    by (simp add: b')
  ultimately show "void_at b' s e" by (simp add: void_at_def list_all_iff)
qed

fun spans_in :: "nat \<Rightarrow> (nat \<times> nat) list \<Rightarrow> nat \<Rightarrow> bool" where
  "spans_in p [] hi \<longleftrightarrow> p \<le> hi"
| "spans_in p ((s, e) # rest) hi \<longleftrightarrow> p \<le> s \<and> s \<le> e \<and> spans_in e rest hi"

lemma spans_in_le: "spans_in p spans hi \<Longrightarrow> p \<le> hi"
  by (induction p spans hi rule: spans_in.induct) auto

lemma spans_in_bounds: "spans_in p spans hi \<Longrightarrow> in_spans spans i \<Longrightarrow> p \<le> i \<and> i < hi"
proof (induction p spans hi rule: spans_in.induct)
  case (2 p s e rest hi)
  then show ?case using spans_in_le [of e rest hi] by auto
qed simp

lemma spans_in_snoc: "spans_in p spans s \<Longrightarrow> s \<le> e \<Longrightarrow> e \<le> hi \<Longrightarrow> spans_in p (spans @ [(s, e)]) hi"
  by (induction p spans s rule: spans_in.induct) auto

lemma spans_in_extend: "spans_in p spans hi \<Longrightarrow> hi \<le> hi' \<Longrightarrow> spans_in p spans hi'"
  by (induction p spans hi rule: spans_in.induct) auto

text \<open>Voiding a list of elements that stand one after the other.\<close>

lemma void_all_effect:
  "void_all b spans = Inr b' \<Longrightarrow> spans_in p spans hi \<Longrightarrow> hi \<le> length b \<Longrightarrow> length b < 2 ^ 53 \<Longrightarrow>
     length b' = length b \<and> (\<forall>i. \<not> in_spans spans i \<longrightarrow> byte_at b' i = byte_at b i) \<and> (\<forall>(s, e)\<in>set spans. void_at b' s e)"
proof (induction b spans arbitrary: p rule: void_all.induct)
  case (2 b s e rest)
  obtain b1 where b1: "voidInPlace b s e = Inr b1" and b': "void_all b1 rest = Inr b'"
    using "2.prems"(1) by auto
  have span: "s \<le> e" "spans_in e rest hi" "e \<le> hi" using "2.prems"(2) spans_in_le by auto
  note one = voidInPlace_effect [OF b1 span(1)]
  have lens: "e \<le> length b" "e < 2 ^ 53" using span "2.prems"(3,4) by simp_all
  have rest: "length b' = length b1" "\<forall>i. \<not> in_spans rest i \<longrightarrow> byte_at b' i = byte_at b1 i"
      "\<forall>(s, e)\<in>set rest. void_at b' s e"
    using "2.IH" [OF b1 b' span(2)] one(1) [OF lens] "2.prems"(3,4) by auto
  have "same_bytes b1 b' s e" using rest(2) spans_in_bounds [OF span(2)] by (fastforce simp: same_bytes_def)
  then have "void_at b' s e" by (rule void_at_same [OF one(4) [OF lens]])
  moreover have "byte_at b' i = byte_at b i" if "\<not> in_spans ((s, e) # rest) i" for i
  proof (cases "i < s")
    case True
    then show ?thesis using that rest(2) one(2) [OF lens] by (simp add: same_bytes_def)
  next
    case False
    then show ?thesis using that rest(2) one(3) [OF lens, of "Suc i"] by (simp add: same_bytes_def)
  qed
  ultimately show ?case using rest one(1) [OF lens] by auto
qed simp

text \<open>
  What voiding the children of a master promises, element by element: \<open>b'\<close> has the elements of \<open>b\<close> at the same
  places, an unwanted one is a \<open>Void\<close> of zeros, a master the walk enters keeps its header and is voided itself,
  and every other one keeps its bytes. A CRC-32 stays only in a master nothing was voided in.
\<close>

definition element_voided ::
  "(octets \<Rightarrow> ebml \<Rightarrow> nat \<Rightarrow> bool strip) \<Rightarrow> nat list \<Rightarrow> octets \<Rightarrow> octets \<Rightarrow> ebml \<Rightarrow> nat \<Rightarrow> bool \<Rightarrow> bool \<Rightarrow> bool"
where
  "element_voided unwanted into b b' c e changed inner \<longleftrightarrow>
     (if el_id c = MKV_CRC32 then (if changed then void_at b' (el_start c) e else same_bytes b b' (el_start c) e)
      else if unwanted b c e = Inr True then changed \<and> void_at b' (el_start c) e
      else if el_id c \<in> set into then same_bytes b b' (el_start c) (el_data c) \<and> inner
      else same_bytes b b' (el_start c) e)"

function voided ::
  "(octets \<Rightarrow> ebml \<Rightarrow> nat \<Rightarrow> bool strip) \<Rightarrow> nat list \<Rightarrow> octets \<Rightarrow> octets \<Rightarrow> nat \<Rightarrow> nat \<Rightarrow> bool \<Rightarrow> bool"
where
  "voided unwanted into b b' p stop changed \<longleftrightarrow>
     (if \<not> p < stop then True
      else case parseEbml b p stop 0 of
        Inl _ \<Rightarrow> False
      | Inr c \<Rightarrow> (case el_size c of
            None \<Rightarrow> False
          | Some n \<Rightarrow>
              (if stop < el_data c + n then False
               else element_voided unwanted into b b' c (el_data c + n) changed
                   (voided unwanted into b b' (el_data c) (el_data c + n) False
                    \<or> (if changed then voided unwanted into b b' (el_data c) (el_data c + n) True else False))
                 \<and> voided unwanted into b b' (el_data c + n) stop changed)))"
  by auto
termination
  by (relation "measure (\<lambda>(unwanted, into, b, b', p, stop, changed). stop - p)")
    (fastforce dest!: parseEbml_data)+

declare voided.simps [simp del]

definition local_test :: "(octets \<Rightarrow> ebml \<Rightarrow> nat \<Rightarrow> bool strip) \<Rightarrow> bool" where
  "local_test unwanted \<longleftrightarrow>
     (\<forall>b b' c e u. same_bytes b b' (el_start c) e \<longrightarrow> el_start c \<le> el_data c \<longrightarrow>
        unwanted b c e = Inr u \<longrightarrow> unwanted b' c e = Inr u)"

lemma parseEbml_start: "parseEbml b p limit base = Inr c \<Longrightarrow> el_start c = base + p"
  by (auto simp: parseEbml_def Let_def split: if_splits option.splits)

lemma parseEbml_0_data: "parseEbml b p limit 0 = Inr c \<Longrightarrow> p < el_data c \<and> el_data c \<le> limit"
  using parseEbml_data [of b p limit 0 c] by simp

lemma voided_step:
  assumes "p < stop"
  shows "voided unwanted into b b' p stop ch \<longleftrightarrow>
    (\<exists>c n. parseEbml b p stop 0 = Inr c \<and> el_size c = Some n \<and> el_data c + n \<le> stop
       \<and> element_voided unwanted into b b' c (el_data c + n) ch
           (voided unwanted into b b' (el_data c) (el_data c + n) False
            \<or> ch \<and> voided unwanted into b b' (el_data c) (el_data c + n) True)
       \<and> voided unwanted into b b' (el_data c + n) stop ch)"
  unfolding voided.simps [of unwanted into b b' p stop ch]
  using assms by (cases ch) (auto simp: not_less split: sum.splits option.splits)

text \<open>The promise looks at nothing outside the master.\<close>

lemma element_voided_same:
  assumes "element_voided unwanted into b b' c e ch inner" "local_test unwanted" "el_start c \<le> el_data c" "el_data c \<le> e"
    and "same_bytes b b1 (el_start c) e" "same_bytes b' b1' (el_start c) e" "inner \<Longrightarrow> inner'"
  shows "element_voided unwanted into b1 b1' c e ch inner'"
proof -
  have "unwanted b1 c e = Inr True \<longleftrightarrow> unwanted b c e = Inr True"
    using assms(2,3,5) same_bytes_sym [OF assms(5)] unfolding local_test_def by blast
  moreover have "same_bytes b1 b1' (el_start c) j" if "same_bytes b b' (el_start c) j" "j \<le> e" for j
    using that assms(5,6) by (simp add: same_bytes_def)
  ultimately show ?thesis
    using assms void_at_same [OF _ assms(6)] unfolding element_voided_def by (simp split: if_splits)
qed

lemma voided_same:
  "voided unwanted into b b' p stop ch \<Longrightarrow> local_test unwanted \<Longrightarrow> same_bytes b b1 p stop \<Longrightarrow> same_bytes b' b1' p stop \<Longrightarrow>
     voided unwanted into b1 b1' p stop ch"
proof (induction "stop - p" arbitrary: p stop ch rule: less_induct)
  case less
  show ?case
  proof (cases "p < stop")
    case True
    obtain c n where c: "parseEbml b p stop 0 = Inr c" "el_size c = Some n" "el_data c + n \<le> stop"
        and here: "element_voided unwanted into b b' c (el_data c + n) ch
           (voided unwanted into b b' (el_data c) (el_data c + n) False
            \<or> ch \<and> voided unwanted into b b' (el_data c) (el_data c + n) True)"
        and rest: "voided unwanted into b b' (el_data c + n) stop ch"
      using less.prems(1) unfolding voided_step [OF True] by blast
    note d = parseEbml_0_data [OF c(1)] parseEbml_start [OF c(1)]
    have sub: "same_bytes b b1 i j" "same_bytes b' b1' i j" if "p \<le> i" "j \<le> stop" for i j
      using same_bytes_sub that less.prems(3,4) by blast+
    have IH: "voided unwanted into b1 b1' q r x" if "voided unwanted into b b' q r x" "p < q" "r \<le> stop" for q r x
      using less.hyps [of r q x] less.prems(2) that sub True by simp
    have "parseEbml b1 p stop 0 = Inr c"
      using parseEbml_same [OF c(1) _ order_refl] sub(1) [of p "el_data c"] d by simp
    moreover have "element_voided unwanted into b1 b1' c (el_data c + n) ch
           (voided unwanted into b1 b1' (el_data c) (el_data c + n) False
            \<or> ch \<and> voided unwanted into b1 b1' (el_data c) (el_data c + n) True)"
      by (rule element_voided_same [OF here less.prems(2)]) (use sub IH d c(3) in auto)
    moreover have "voided unwanted into b1 b1' (el_data c + n) stop ch" using IH [OF rest] d by simp
    ultimately show ?thesis unfolding voided_step [OF True] using c(2,3) by blast
  qed (simp add: voided.simps)
qed


text \<open>One step of the loop, and what the loop from \<open>p\<close> on has done when it returns.\<close>

lemma voidChildren_step:
  assumes "p < stop" "voidChildren unwanted into b p stop ch crcs = Inr r"
  obtains c n where "parseEbml b p stop 0 = Inr c" "el_size c = Some n" "el_data c + n \<le> stop"
    "el_id c = MKV_CRC32" "voidChildren unwanted into b (el_data c + n) stop ch (crcs @ [(p, el_data c + n)]) = Inr r"
  | c n b1 where "parseEbml b p stop 0 = Inr c" "el_size c = Some n" "el_data c + n \<le> stop"
    "el_id c \<noteq> MKV_CRC32" "unwanted b c (el_data c + n) = Inr True" "voidInPlace b p (el_data c + n) = Inr b1"
    "voidChildren unwanted into b1 (el_data c + n) stop True crcs = Inr r"
  | c n b1 ch1 where "parseEbml b p stop 0 = Inr c" "el_size c = Some n" "el_data c + n \<le> stop"
    "el_id c \<noteq> MKV_CRC32" "unwanted b c (el_data c + n) = Inr False" "el_id c \<in> set into"
    "voidChildren unwanted into b (el_data c) (el_data c + n) False [] = Inr (b1, ch1)"
    "voidChildren unwanted into b1 (el_data c + n) stop (ch \<or> ch1) crcs = Inr r"
  | c n where "parseEbml b p stop 0 = Inr c" "el_size c = Some n" "el_data c + n \<le> stop"
    "el_id c \<noteq> MKV_CRC32" "unwanted b c (el_data c + n) = Inr False" "el_id c \<notin> set into"
    "voidChildren unwanted into b (el_data c + n) stop ch crcs = Inr r"
proof -
  obtain c where c: "parseEbml b p stop 0 = Inr c"
    using assms(2) unfolding voidChildren.simps [of unwanted into b p stop ch crcs] using assms(1) by auto
  then have "el_start c = p" using parseEbml_start by fastforce
  then show thesis
    using assms(2) that c unfolding voidChildren.simps [of unwanted into b p stop ch crcs]
    by (auto simp: Let_def assms(1) not_less split: option.splits if_splits bool.splits)
qed

definition voiding_post ::
  "(octets \<Rightarrow> ebml \<Rightarrow> nat \<Rightarrow> bool strip) \<Rightarrow> nat list \<Rightarrow> octets \<Rightarrow> nat \<Rightarrow> nat \<Rightarrow> bool \<Rightarrow> (nat \<times> nat) list \<Rightarrow> octets \<times> bool \<Rightarrow> bool"
where
  "voiding_post unwanted into b p stop ch crcs r \<longleftrightarrow>
     (let (b', ch') = r
      in length b' = length b \<and> (\<forall>i. i < p \<and> \<not> in_spans crcs i \<or> stop \<le> i \<longrightarrow> byte_at b' i = byte_at b i)
         \<and> (ch \<longrightarrow> ch') \<and> (\<not> ch' \<longrightarrow> b' = b) \<and> (ch' \<longrightarrow> (\<forall>(s, e)\<in>set crcs. void_at b' s e))
         \<and> voided unwanted into b b' p stop ch')"

lemma voiding_post_step:
  assumes "voiding_post unwanted into b1 e stop ch1 crcs1 (b', ch')" "local_test unwanted" "p < stop"
    and "parseEbml b p stop 0 = Inr c" "el_size c = Some n" "e = el_data c + n" "e \<le> stop"
    and "length b1 = length b" "\<forall>i. i < p \<or> e \<le> i \<longrightarrow> byte_at b1 i = byte_at b i" "\<not> ch1 \<Longrightarrow> b1 = b" "ch \<Longrightarrow> ch1"
    and "set crcs \<subseteq> set crcs1" "\<forall>i. in_spans crcs1 i \<longrightarrow> in_spans crcs i \<or> p \<le> i"
    and "element_voided unwanted into b b' c e ch'
      (voided unwanted into b b' (el_data c) e False \<or> ch' \<and> voided unwanted into b b' (el_data c) e True)"
  shows "voiding_post unwanted into b p stop ch crcs (b', ch')"
proof -
  have post: "length b' = length b1" "\<forall>i. i < e \<and> \<not> in_spans crcs1 i \<or> stop \<le> i \<longrightarrow> byte_at b' i = byte_at b1 i"
      "ch1 \<longrightarrow> ch'" "\<not> ch' \<longrightarrow> b' = b1" "ch' \<longrightarrow> (\<forall>(s, e)\<in>set crcs1. void_at b' s e)" "voided unwanted into b1 b' e stop ch'"
    using assms(1) by (simp_all add: voiding_post_def)
  have "same_bytes b1 b e stop" using assms(9) by (simp add: same_bytes_def)
  then have "voided unwanted into b b' e stop ch'" using voided_same [OF post(6) assms(2)] by simp
  then have "voided unwanted into b b' p stop ch'"
    unfolding voided_step [OF assms(3)] using assms(4-7,14) by blast
  moreover have "p \<le> e" using parseEbml_0_data [OF assms(4)] assms(6) by simp
  moreover have "\<forall>i. i < p \<and> \<not> in_spans crcs i \<or> stop \<le> i \<longrightarrow> byte_at b' i = byte_at b i"
  proof (intro allI impI)
    fix i
    assume that: "i < p \<and> \<not> in_spans crcs i \<or> stop \<le> i"
    have "i < e \<and> \<not> in_spans crcs1 i \<or> stop \<le> i" "i < p \<or> e \<le> i"
      using that assms(7,13) \<open>p \<le> e\<close> by auto
    then show "byte_at b' i = byte_at b i" using post(2) assms(9) by metis
  qed
  moreover have "\<not> ch' \<longrightarrow> b' = b" using post(3,4) assms(10) by blast
  ultimately show ?thesis
    unfolding voiding_post_def Let_def prod.case using post(1,3,5) assms(8,11,12) by auto
qed

lemma voidChildren_post:
  "voidChildren unwanted into b p stop ch crcs = Inr r \<Longrightarrow> local_test unwanted \<Longrightarrow> spans_in lo crcs p \<Longrightarrow> p \<le> stop \<Longrightarrow>
     stop \<le> length b \<Longrightarrow> length b < 2 ^ 53 \<Longrightarrow> voiding_post unwanted into b p stop ch crcs r"
proof (induction "stop - p" arbitrary: b p stop ch crcs lo r rule: less_induct)
  case less
  obtain b' ch' where r: "r = (b', ch')" by (cases r)
  show ?case
  proof (cases "p < stop")
    case False
    then show ?thesis
      using less.prems(1) void_all_effect [OF _ less.prems(3), of b] spans_in_bounds [OF less.prems(3)] less.prems(4-6)
      by (fastforce simp: voidChildren.simps voiding_post_def voided.simps split: if_splits)
  next
    case True
    have same: "same_bytes b1 b' p e" if "voiding_post unwanted into b1 e stop ch1 crcs (b', ch')" for b1 e ch1
      using that spans_in_bounds [OF less.prems(3)] by (fastforce simp: voiding_post_def same_bytes_def)
    note IH = less.hyps [OF _ _ less.prems(2)]
    show ?thesis
      using True less.prems(1)
    proof (cases rule: voidChildren_step)
      case (1 c n)
      let ?e = "el_data c + n"
      note d = parseEbml_0_data [OF 1(1)] parseEbml_start [OF 1(1)]
      have post: "voiding_post unwanted into b ?e stop ch (crcs @ [(p, ?e)]) (b', ch')"
        using IH [OF _ 1(5) spans_in_snoc [OF less.prems(3)]] d 1(3) True less.prems(5,6) r by simp
      show ?thesis
        unfolding r by (rule voiding_post_step [OF post less.prems(2) True 1(1,2) refl 1(3)])
          (use post in \<open>auto simp: element_voided_def voiding_post_def 1(4) d same_bytes_def\<close>)
    next
      case (2 c n b1)
      let ?e = "el_data c + n"
      note d = parseEbml_0_data [OF 2(1)] parseEbml_start [OF 2(1)]
      have lens: "p \<le> ?e" "?e \<le> length b" "?e < 2 ^ 53" using d 2(3) less.prems(5,6) by simp_all
      note eff = voidInPlace_effect [OF 2(6) lens]
      have post: "voiding_post unwanted into b1 ?e stop True crcs (b', ch')"
        using IH [OF _ 2(7) spans_in_extend [OF less.prems(3)]] d 2(3) True less.prems(5,6) r eff(1) by simp
      have "void_at b' p ?e" by (rule void_at_same [OF eff(4) same [OF post]])
      moreover have "ch'" using post by (simp add: voiding_post_def)
      ultimately show ?thesis
        unfolding r using eff(1,2) eff(3) [of "Suc i" for i]
        by (intro voiding_post_step [OF post less.prems(2) True 2(1,2) refl 2(3)])
          (auto simp: element_voided_def 2(4,5) d same_bytes_def)
    next
      case (3 c n b1 ch1)
      let ?e = "el_data c + n"
      note d = parseEbml_0_data [OF 3(1)] parseEbml_start [OF 3(1)]
      have inner: "voiding_post unwanted into b (el_data c) ?e False [] (b1, ch1)"
        using IH [OF _ 3(7), of 0] d 3(3) True less.prems(5,6) by simp
      have post: "voiding_post unwanted into b1 ?e stop (ch \<or> ch1) crcs (b', ch')"
        using IH [OF _ 3(8) spans_in_extend [OF less.prems(3)]] d 3(3) True less.prems(5,6) r inner
        by (simp add: voiding_post_def)
      have "same_bytes b1 b' (el_data c) ?e" using same_bytes_sub [OF same [OF post]] d by simp
      then have "voided unwanted into b b' (el_data c) ?e ch1"
        using voided_same [of unwanted into b b1 "el_data c" ?e ch1 b b'] inner less.prems(2) by (simp add: voiding_post_def)
      moreover have "same_bytes b b' p (el_data c)"
        using same [OF post] inner d by (auto simp: voiding_post_def same_bytes_def)
      moreover have "ch1 \<longrightarrow> ch'" using post by (simp add: voiding_post_def)
      ultimately have "element_voided unwanted into b b' c ?e ch'
          (voided unwanted into b b' (el_data c) ?e False \<or> ch' \<and> voided unwanted into b b' (el_data c) ?e True)"
        by (cases ch1) (auto simp: element_voided_def 3(4-6) d)
      then show ?thesis
        unfolding r using inner d
        by (intro voiding_post_step [OF post less.prems(2) True 3(1,2) refl 3(3)]) (auto simp: voiding_post_def)
    next
      case (4 c n)
      let ?e = "el_data c + n"
      note d = parseEbml_0_data [OF 4(1)] parseEbml_start [OF 4(1)]
      have post: "voiding_post unwanted into b ?e stop ch crcs (b', ch')"
        using IH [OF _ 4(7) spans_in_extend [OF less.prems(3)]] d 4(3) True less.prems(5,6) r by simp
      show ?thesis
        unfolding r using same [OF post]
        by (intro voiding_post_step [OF post less.prems(2) True 4(1,2) refl 4(3)])
          (auto simp: element_voided_def 4(4-6) d)
    qed
  qed
qed


lemma seekTarget_same:
  "seekTarget b p stop = Inr t \<Longrightarrow> same_bytes b b' p stop \<Longrightarrow> seekTarget b' p stop = Inr t"
proof (induction b p stop rule: seekTarget.induct)
  case (1 b p stop)
  show ?case
  proof (cases "p < stop")
    case True
    then obtain g where g: "parseEbml b p stop 0 = Inr g"
      using "1.prems"(1) unfolding seekTarget.simps [of b p stop] by auto
    note d = parseEbml_0_data [OF g]
    have g': "parseEbml b' p stop 0 = Inr g"
      using parseEbml_same [OF g _ order_refl, of b'] same_bytes_sub [OF "1.prems"(2), of p "el_data g"] d by simp
    have bytes: "bytes_from b' (el_data g) n = bytes_from b (el_data g) n" if "el_data g + n \<le> stop" for n
      using "1.prems"(2) that d by (simp add: bytes_from_def same_bytes_def)
    have rest: "same_bytes b b' (el_data g + n) stop" for n
      using same_bytes_sub [OF "1.prems"(2)] d by simp
    show ?thesis
      using "1.prems"(1) "1.IH" [OF _ g _ _ _ _ rest] True bytes
      unfolding seekTarget.simps [of b p stop] seekTarget.simps [of b' p stop]
      by (auto simp: g g' split: option.splits if_splits)
  qed (use "1.prems"(1) in \<open>simp add: seekTarget.simps\<close>)
qed

lemma local_test_mkv: "local_test (mkv_unwanted master)"
proof -
  have "seekTarget b' (el_data c) e = Inr t"
    if "seekTarget b (el_data c) e = Inr t" "same_bytes b b' (el_start c) e" "el_start c \<le> el_data c" for b b' c e t
    using seekTarget_same [OF that(1)] same_bytes_sub [OF that(2,3)] by simp
  then show ?thesis by (fastforce simp: local_test_def mkv_unwanted_def)
qed

text \<open>
  What is stripped from a Matroska master. When the walk over an Info, Tracks or SeekHead element returns,
  its replacement has the same length and the same header, its children stand where they stood, every child that
  carries a date, a title, an application or track name, or a link to dropped data is a \<open>Void\<close> element of zeros,
  and every other child (of a track too) keeps its bytes; nothing is written when nothing had to be voided.
\<close>

theorem mkv_master_stripped:
  assumes "stripMkvMaster f el stop = Inr edits" "el_id el \<in> {MKV_Info, MKV_Tracks, MKV_SeekHead}"
    and "el_start el \<le> el_data el" "el_data el \<le> stop" "stop \<le> length f"
  shows "\<exists>b changed. edits = (if changed then [Bytes (el_start el) b] else [])
    \<and> (\<not> changed \<longrightarrow> b = slice f (el_start el) stop)
    \<and> length b = stop - el_start el \<and> same_bytes (drop (el_start el) f) b 0 (el_data el - el_start el)
    \<and> voided (mkv_unwanted (el_id el)) (mkv_into (el_id el)) (slice f (el_start el) stop) b
        (el_data el - el_start el) (stop - el_start el) changed"
proof -
  let ?buf = "slice f (el_start el) stop" and ?p = "el_data el - el_start el" and ?n = "stop - el_start el"
  obtain b ch where v: "voidChildren (mkv_unwanted (el_id el)) (mkv_into (el_id el)) ?buf ?p ?n False [] = Inr (b, ch)"
      and edits: "edits = (if ch then [Bytes (el_start el) b] else [])" and small: "?n \<le> MAX_MKV_MASTER_BYTES"
    using assms by (auto simp: stripMkvMaster_def Let_def readAt_Inr split: if_splits)
  have len: "length ?buf = ?n" using assms(5) by simp
  have post: "voiding_post (mkv_unwanted (el_id el)) (mkv_into (el_id el)) ?buf ?p ?n False [] (b, ch)"
    by (rule voidChildren_post [OF v local_test_mkv, of 0])
      (use small assms(3-5) len in \<open>simp_all add: MAX_MKV_MASTER_BYTES_def\<close>)
  have "byte_at ?buf i = byte_at (drop (el_start el) f) i" if "i < ?n" for i
  proof -
    have "i < length f - el_start el" using that assms(5) by linarith
    then show ?thesis using that by (simp add: slice_nth byte_at_def)
  qed
  moreover have "byte_at b i = byte_at ?buf i" if "i < ?p" for i using post that by (simp add: voiding_post_def)
  moreover have "?p \<le> ?n" using assms(4) by simp
  ultimately have "same_bytes (drop (el_start el) f) b 0 ?p" by (simp add: same_bytes_def)
  moreover have "\<not> ch \<longrightarrow> b = ?buf" "length b = ?n" "voided (mkv_unwanted (el_id el)) (mkv_into (el_id el)) ?buf b ?p ?n ch"
    using post len by (simp_all add: voiding_post_def)
  ultimately show ?thesis using edits by blast
qed

section \<open>A stripped file\<close>

text \<open>A dropped element, laid over the file.\<close>

lemma drop_edits_void:
  assumes "drop_edits p e = Inr ds" "p \<le> e" "e \<le> length f" "length f < 2 ^ 53"
  shows "in_order p e ds" and "length g = length f \<Longrightarrow> laid ds f g p e \<Longrightarrow> void_at g p e"
proof -
  obtain h where h: "voidHeader (e - p) = Inr h" and ds: "ds = [Bytes p h, Zeros (p + length h) (e - p - length h)]"
    using assms(1) by (auto simp: drop_edits_def)
  have len: "length h \<le> e - p" using void_header_parses [OF h, of "[]" "length h" "[]" 0] assms(2-4) by simp
  then show "in_order p e ds" using assms(2) by (simp add: ds edit_end_def)
  define f' where "f' = take p f @ h @ replicate (e - p - length h) 0 @ drop e f"
  have f': "voidInPlace f p e = Inr f'" by (simp add: voidInPlace_def h f'_def)
  show "void_at g p e" if "length g = length f" "laid ds f g p e"
  proof (rule void_at_same)
    show "void_at f' p e" using voidInPlace_effect(4) [OF f' assms(2,3)] assms(3,4) by simp
    have "covered ds i x \<longleftrightarrow> x = f' ! i" if "p \<le> i" "i < e" for i x
      using that len assms(2,3) unfolding ds f'_def covered_simps by (auto simp: edit_end_def nth_append)
    then have "g ! i = f' ! i" if "p \<le> i" "i < e" for i
      using \<open>laid ds f g p e\<close> that unfolding laid_def by blast
    then show "same_bytes f' g p e"
      using voidInPlace_effect(1) [OF f' assms(2,3)] assms(3,4) that(1) by (simp add: same_bytes_def byte_at_def)
  qed
qed

lemma readEbml_start: "readEbml f pos limit = Inr c \<Longrightarrow> el_start c = pos"
  by (auto simp: readEbml_def Let_def dest!: parseEbml_start split: if_splits)

lemma ebmlEnd_Inr: "ebmlEnd c limit = Inr e \<longleftrightarrow> (\<exists>n. el_size c = Some n \<and> e = el_data c + n \<and> e \<le> limit)"
  by (auto simp: ebmlEnd_def split: option.splits)

lemma cluster_end_le: "cluster_end f pos segEnd = Inr q \<Longrightarrow> pos \<le> segEnd \<Longrightarrow> q \<le> segEnd"
proof (induction f pos segEnd rule: cluster_end.induct)
  case (1 f pos segEnd)
  then show ?case
    unfolding cluster_end.simps [of f pos segEnd] by (auto simp: ebmlEnd_Inr split: if_splits)
qed

text \<open>What stripping promises of the children of a Segment.\<close>

definition child_stripped :: "octets \<Rightarrow> octets \<Rightarrow> ebml \<Rightarrow> nat \<Rightarrow> bool" where
  "child_stripped f g el e \<longleftrightarrow>
     (if el_id el \<in> set MKV_DROP then void_at g (el_start el) e
      else if el_id el \<in> {MKV_Info, MKV_Tracks, MKV_SeekHead} then
        same_bytes f g (el_start el) (el_data el)
        \<and> (\<exists>changed. voided (mkv_unwanted (el_id el)) (mkv_into (el_id el)) (slice f (el_start el) e) (slice g (el_start el) e)
              (el_data el - el_start el) (e - el_start el) changed)
      else same_bytes f g (el_start el) e)"

lemma child_edits:
  assumes "(if el_id el \<in> set MKV_DROP then drop_edits (el_start el) e
            else if el_id el \<in> {MKV_Info, MKV_Tracks, MKV_SeekHead} then stripMkvMaster f el e else Inr []) = Inr ds"
    and "el_start el \<le> el_data el" "el_data el \<le> e" "e \<le> length f" "length f < 2 ^ 53"
  shows "in_order (el_start el) e ds \<and> (\<forall>g. length g = length f \<longrightarrow> laid ds f g (el_start el) e \<longrightarrow> child_stripped f g el e)"
proof -
  have le: "el_start el \<le> e" using assms(2,3) by simp
  consider (drop) "el_id el \<in> set MKV_DROP"
    | (master) "el_id el \<notin> set MKV_DROP" "el_id el \<in> {MKV_Info, MKV_Tracks, MKV_SeekHead}"
    | (other) "el_id el \<notin> set MKV_DROP" "el_id el \<notin> {MKV_Info, MKV_Tracks, MKV_SeekHead}" by blast
  then show ?thesis
  proof cases
    case drop
    then show ?thesis using drop_edits_void [OF _ le assms(4,5)] assms(1) by (auto simp: child_stripped_def)
  next
    case master
    then have "stripMkvMaster f el e = Inr ds" using assms(1) by simp
    then obtain b ch where b: "ds = (if ch then [Bytes (el_start el) b] else [])"
        "\<not> ch \<longrightarrow> b = slice f (el_start el) e" "length b = e - el_start el"
        "same_bytes (List.drop (el_start el) f) b 0 (el_data el - el_start el)"
        "voided (mkv_unwanted (el_id el)) (mkv_into (el_id el)) (slice f (el_start el) e) b
           (el_data el - el_start el) (e - el_start el) ch"
      using mkv_master_stripped [OF _ master(2) assms(2-4)] by blast
    have "in_order (el_start el) e ds" using b(1,3) le by (simp add: edit_end_def)
    moreover have "child_stripped f g el e" if g: "length g = length f" "laid ds f g (el_start el) e" for g
    proof -
      have sl: "slice g (el_start el) e = b"
      proof (cases ch)
        case True
        then show ?thesis using laid_Bytes [OF _ b(3)] g b(1) assms(4) by simp
      next
        case False
        have "slice g (el_start el) e = slice f (el_start el) e"
          using g b(1) False assms(4) by (intro nth_equalityI) (auto simp: slice_nth laid_def)
        then show ?thesis using b(2) False by simp
      qed
      have "byte_at g i = byte_at f i" if i: "el_start el \<le> i" "i < el_data el" for i
      proof -
        have "byte_at g i = byte_at b (i - el_start el)"
          using byte_at_slice [of "i - el_start el" e "el_start el" g] i g(1) assms(3,4) by (simp add: sl)
        also have "\<dots> = byte_at (List.drop (el_start el) f) (i - el_start el)" using b(4) i by (simp add: same_bytes_def)
        also have "\<dots> = byte_at f i"
        proof -
          have "i < length f" using i assms(3,4) by linarith
          then show ?thesis using i by (simp add: byte_at_def diff_less_mono)
        qed
        finally show ?thesis .
      qed
      then show ?thesis using b(5) master sl unfolding child_stripped_def same_bytes_def by auto
    qed
    ultimately show ?thesis by blast
  next
    case other
    then show ?thesis using assms(1,4) le laid_Nil by (auto simp: child_stripped_def)
  qed
qed

function segment_stripped :: "octets \<Rightarrow> octets \<Rightarrow> nat \<Rightarrow> nat \<Rightarrow> bool" where
  "segment_stripped f g pos segEnd \<longleftrightarrow>
     (if \<not> pos < segEnd then True
      else case readEbml f pos segEnd of
        Inl _ \<Rightarrow> False
      | Inr el \<Rightarrow> (case el_size el of
            None \<Rightarrow> (case cluster_end f (el_data el) segEnd of
                Inl _ \<Rightarrow> False
              | Inr q \<Rightarrow> el_id el = MKV_Cluster \<and> same_bytes f g pos q \<and> segment_stripped f g q segEnd)
          | Some n \<Rightarrow> (if segEnd < el_data el + n then False
              else child_stripped f g el (el_data el + n) \<and> segment_stripped f g (el_data el + n) segEnd)))"
  by auto
termination
proof (relation "measure (\<lambda>(f, g, pos, segEnd). segEnd - pos)", goal_cases)
  case (2 f g pos segEnd el q)
  then show ?case using readEbml_data cluster_end_ge by fastforce
next
  case (3 f g pos segEnd el n)
  then show ?case using readEbml_data by fastforce
qed simp

declare segment_stripped.simps [simp del]

lemma segment_edits_stripped:
  "segment_edits f pos segEnd = Inr ds \<Longrightarrow> pos \<le> segEnd \<Longrightarrow> segEnd \<le> length f \<Longrightarrow> length f < 2 ^ 53 \<Longrightarrow>
     in_order pos segEnd ds
     \<and> (\<forall>g. length g = length f \<longrightarrow> laid ds f g pos segEnd \<longrightarrow> segment_stripped f g pos segEnd)"
proof (induction f pos segEnd arbitrary: ds rule: segment_edits.induct)
  case (1 f pos segEnd)
  show ?case
  proof (cases "pos < segEnd")
    case False
    then show ?thesis using "1.prems" by (auto simp: segment_edits.simps segment_stripped.simps)
  next
    case True
    then obtain el where el: "readEbml f pos segEnd = Inr el"
      using "1.prems"(1) unfolding segment_edits.simps [of f pos segEnd] by auto
    note d = readEbml_data [OF el] readEbml_start [OF el]
    show ?thesis
    proof (cases "el_size el")
      case None
      then obtain q where q: "el_id el = MKV_Cluster" "cluster_end f (el_data el) segEnd = Inr q"
          "segment_edits f q segEnd = Inr ds"
        using "1.prems"(1) True el unfolding segment_edits.simps [of f pos segEnd] by (auto split: if_splits)
      have le: "pos \<le> q" "q \<le> segEnd" using cluster_end_ge [OF q(2)] cluster_end_le [OF q(2)] d by simp_all
      have IH: "in_order q segEnd ds" "\<forall>g. length g = length f \<longrightarrow> laid ds f g q segEnd \<longrightarrow> segment_stripped f g q segEnd"
        using "1.IH"(1) [OF _ el None _ q(2,3) le(2)] True q(1) "1.prems"(3,4) by auto
      have "segment_stripped f g pos segEnd" if "length g = length f" "laid ds f g pos segEnd" for g
      proof -
        have "laid [] f g pos q" "laid ds f g q segEnd"
          using laid_append [of "[]" ds f g pos segEnd q] that(2) IH(1) le by simp_all
        then show ?thesis
          unfolding segment_stripped.simps [of f g pos segEnd]
          using True IH(2) el None q laid_Nil that(1) le "1.prems"(3) by simp
      qed
      then show ?thesis using IH(1) in_order_weaken le(1) by blast
    next
      case (Some n)
      let ?e = "el_data el + n"
      obtain here rest where e: "?e \<le> segEnd" and here: "(if el_id el \<in> set MKV_DROP then drop_edits (el_start el) ?e
            else if el_id el \<in> {MKV_Info, MKV_Tracks, MKV_SeekHead} then stripMkvMaster f el ?e else Inr []) = Inr here"
          and rest: "segment_edits f ?e segEnd = Inr rest" and ds: "ds = here @ rest"
        using "1.prems"(1) True el Some unfolding segment_edits.simps [of f pos segEnd]
        by (auto simp: ebmlEnd_Inr)
      have end': "ebmlEnd el segEnd = Inr ?e" using e Some by (simp add: ebmlEnd_Inr)
      have IH: "in_order ?e segEnd rest"
          "\<forall>g. length g = length f \<longrightarrow> laid rest f g ?e segEnd \<longrightarrow> segment_stripped f g ?e segEnd"
        using "1.IH"(2) [OF _ el Some end' here rest e] True "1.prems"(3,4) by auto
      have this': "in_order pos ?e here" "\<forall>g. length g = length f \<longrightarrow> laid here f g pos ?e \<longrightarrow> child_stripped f g el ?e"
        using child_edits [OF here] d e "1.prems"(3,4) by auto
      have "segment_stripped f g pos segEnd" if "length g = length f" "laid ds f g pos segEnd" for g
        unfolding segment_stripped.simps [of f g pos segEnd]
        using laid_append [OF that(2) [unfolded ds] this'(1) IH(1)] True IH(2) this'(2) el Some e that(1) by simp
      then show ?thesis using in_order_append [OF this'(1) IH(1)] ds by blast
    qed
  qed
qed


text \<open>The one Segment of the file, where it ends, and what became of it.\<close>

definition segment_of :: "octets \<Rightarrow> ebml \<Rightarrow> nat \<Rightarrow> bool" where
  "segment_of f sg segEnd \<longleftrightarrow>
     readEbml f (el_start sg) (length f) = Inr sg \<and> el_id sg = MKV_Segment
     \<and> segEnd = (case el_size sg of None \<Rightarrow> length f | Some n \<Rightarrow> el_data sg + n) \<and> segEnd \<le> length f"

definition matroska_stripped :: "octets \<Rightarrow> octets \<Rightarrow> nat \<Rightarrow> bool" where
  "matroska_stripped f g p \<longleftrightarrow>
     (\<exists>sg segEnd. segment_of f sg segEnd \<and> same_bytes f g p (el_data sg)
        \<and> segment_stripped f g (el_data sg) segEnd \<and> same_bytes f g segEnd (length f))"

lemma matroska_stripped_from: "matroska_stripped f g e \<Longrightarrow> same_bytes f g p e \<Longrightarrow> matroska_stripped f g p"
  unfolding matroska_stripped_def using same_bytes_join by blast

lemma top_edits_stripped:
  "top_edits f p = Inr (ds, n) \<Longrightarrow> p \<le> length f \<Longrightarrow> length f < 2 ^ 53 \<Longrightarrow>
     in_order p (length f) ds \<and> (n = 0 \<longrightarrow> ds = [])
     \<and> (\<forall>g. n = 1 \<longrightarrow> length g = length f \<longrightarrow> laid ds f g p (length f) \<longrightarrow> matroska_stripped f g p)"
proof (induction f p arbitrary: ds n rule: top_edits.induct)
  case (1 f p)
  show ?case
  proof (cases "p < length f")
    case False
    then show ?thesis using "1.prems" by (auto simp: top_edits.simps)
  next
    case True
    then obtain sg where sg: "readEbml f p (length f) = Inr sg"
      using "1.prems"(1) unfolding top_edits.simps [of f p] by auto
    note d = readEbml_data [OF sg] readEbml_start [OF sg]
    show ?thesis
    proof (cases "el_id sg = MKV_Void")
      case void: True
      then obtain e where e: "ebmlEnd sg (length f) = Inr e" "top_edits f e = Inr (ds, n)"
        using "1.prems"(1) True sg unfolding top_edits.simps [of f p] by auto
      have le: "p \<le> e" "e \<le> length f" using e(1) d by (auto simp: ebmlEnd_Inr)
      have IH: "in_order e (length f) ds" "n = 0 \<longrightarrow> ds = []"
          "\<forall>g. n = 1 \<longrightarrow> length g = length f \<longrightarrow> laid ds f g e (length f) \<longrightarrow> matroska_stripped f g e"
        using "1.IH"(1) [OF _ sg void e le(2)] True "1.prems"(3) by auto
      have "matroska_stripped f g p" if "n = 1" "length g = length f" "laid ds f g p (length f)" for g
      proof -
        have "laid [] f g p e" "laid ds f g e (length f)"
          using laid_append [of "[]" ds f g p "length f" e] that(3) IH(1) le by simp_all
        then show ?thesis using matroska_stripped_from IH(3) that(1,2) laid_Nil le by blast
      qed
      then show ?thesis using IH(1,2) in_order_weaken le(1) by blast
    next
      case False
      obtain segEnd edits rest k where seg: "el_id sg = MKV_Segment"
          and segEnd: "(if el_size sg = None then Inr (length f) else ebmlEnd sg (length f)) = Inr segEnd"
          and edits: "segment_edits f (el_data sg) segEnd = Inr edits" and rest: "top_edits f segEnd = Inr (rest, k)"
          and ds: "ds = edits @ rest" and n: "n = Suc k"
        using "1.prems"(1) True sg False unfolding top_edits.simps [of f p]
        by (auto split: if_splits)
      have le: "el_data sg \<le> segEnd" "segEnd \<le> length f"
        using segEnd d by (auto simp: ebmlEnd_Inr split: if_splits)
      have so: "segment_of f sg segEnd"
        using segEnd d sg seg le(2) by (auto simp: segment_of_def ebmlEnd_Inr split: if_splits)
      have IH: "in_order segEnd (length f) rest" "k = 0 \<longrightarrow> rest = []"
        using "1.IH"(2) [OF _ sg False _ segEnd edits rest le(2)] True seg "1.prems"(3) by auto
      have here: "in_order (el_data sg) segEnd edits"
          "\<forall>g. length g = length f \<longrightarrow> laid edits f g (el_data sg) segEnd \<longrightarrow> segment_stripped f g (el_data sg) segEnd"
        using segment_edits_stripped [OF edits le "1.prems"(3)] by blast+
      have from_p: "in_order p segEnd edits" using in_order_weaken [OF here(1)] d by simp
      have "matroska_stripped f g p" if g: "n = 1" "length g = length f" "laid ds f g p (length f)" for g
      proof -
        have l: "laid edits f g p segEnd" "laid rest f g segEnd (length f)"
          using laid_append [OF g(3) [unfolded ds] from_p IH(1)] by blast+
        then have "laid [] f g p (el_data sg)" "laid edits f g (el_data sg) segEnd"
          using laid_append [of "[]" edits f g p segEnd "el_data sg"] here(1) d by simp_all
        then have "same_bytes f g p (el_data sg)" "segment_stripped f g (el_data sg) segEnd" "same_bytes f g segEnd (length f)"
          using here(2) laid_Nil l(2) IH(2) g(1,2) n d by auto
        then show ?thesis unfolding matroska_stripped_def using so by blast
      qed
      then show ?thesis using in_order_append [OF from_p IH(1)] ds n by blast
    qed
  qed
qed

text \<open>
  (C17) Stripping a Matroska or WebM file. What \<open>stripMatroska\<close> returns has the length of the file; outside the
  one Segment, and in its header, every byte is the original's; inside it, tags, attachments and chapters are
  \<open>Void\<close> elements of zeros, Info, Tracks and SeekHead are voided child by child, and every other element (the
  clusters with the media) keeps its bytes where it stood.
\<close>

theorem matroska_file_stripped:
  assumes "stripMatroska f = Inr g" "length f < 2 ^ 53"
  shows "length g = length f \<and> matroska_stripped f g 0"
proof -
  obtain header p edits where header: "readEbml f 0 (length f) = Inr header" "ebmlEnd header (length f) = Inr p"
      and edits: "top_edits f p = Inr (edits, 1)" and g: "assemble f edits 0 (length f) = Inr g"
    using assms(1) by (auto simp: stripMatroska_def split: if_splits)
  have le: "p \<le> length f" using header(2) by (auto simp: ebmlEnd_Inr)
  have len: "length g = length f" using assemble_pointwise(1) [OF g] by simp
  have laid: "laid edits f g 0 (length f)"
    using assemble_pointwise(2) [OF g] by (simp add: laid_def)
  have sg: "in_order p (length f) edits" "laid edits f g p (length f) \<Longrightarrow> matroska_stripped f g p"
    using top_edits_stripped [OF edits le assms(2)] len by blast+
  have "laid [] f g 0 p" "laid edits f g p (length f)"
    using laid_append [of "[]" edits f g 0 "length f" p] laid sg(1) by simp_all
  then have "matroska_stripped f g 0"
    using matroska_stripped_from [OF sg(2)] laid_Nil len le by blast
  with len show ?thesis by simp
qed


text \<open>A file with two tag bytes before an empty Cluster.\<close>

definition tiny_mkv :: octets where
  "tiny_mkv = [0x1a, 0x45, 0xdf, 0xa3, 0x80, 0x18, 0x53, 0x80, 0x67, 0x8c,
     0x12, 0x54, 0xc3, 0x67, 0x82, 7, 9, 0x1f, 0x43, 0xb6, 0x75, 0x80]"

definition tiny_mkv_stripped :: octets where
  "tiny_mkv_stripped = [0x1a, 0x45, 0xdf, 0xa3, 0x80, 0x18, 0x53, 0x80, 0x67, 0x8c,
     0xec, 0x85, 0, 0, 0, 0, 0, 0x1f, 0x43, 0xb6, 0x75, 0x80]"

lemma tiny_mkv_elements:
  "readEbml tiny_mkv 0 22 = Inr \<lparr>el_id = MKV_EBML, el_start = 0, el_data = 5, el_size = Some 0\<rparr>"
  "readEbml tiny_mkv 5 22 = Inr \<lparr>el_id = MKV_Segment, el_start = 5, el_data = 10, el_size = Some 12\<rparr>"
  "readEbml tiny_mkv 10 22 = Inr \<lparr>el_id = MKV_Tags, el_start = 10, el_data = 15, el_size = Some 2\<rparr>"
  "readEbml tiny_mkv 17 22 = Inr \<lparr>el_id = MKV_Cluster, el_start = 17, el_data = 22, el_size = Some 0\<rparr>"
  by (simp_all add: readEbml_def read_bytes_def tiny_mkv_def slice_def parseEbml_def Let_def id_len_def size_len_def
      be_value_def bytes_from_def byte_at_def upt_rec MKV_EBML_def MKV_Segment_def MKV_Tags_def MKV_Cluster_def)

lemma tiny_mkv_strips: "stripMatroska tiny_mkv = Inr tiny_mkv_stripped"
proof -
  have len: "length tiny_mkv = 22" by (simp add: tiny_mkv_def)
  have void: "drop_edits 10 17 = Inr [Bytes 10 [0xec, 0x85], Zeros 12 5]" by code_simp
  have seg: "segment_edits tiny_mkv 10 22 = Inr [Bytes 10 [0xec, 0x85], Zeros 12 5]"
    by (simp add: segment_edits.simps [of _ 10] segment_edits.simps [of _ 17] segment_edits.simps [of _ 22]
        tiny_mkv_elements void ebmlEnd_def MKV_DROP_def MKV_Tags_def MKV_Cluster_def MKV_Attachments_def
        MKV_Chapters_def MKV_Info_def MKV_Tracks_def MKV_SeekHead_def)
  have edits: "top_edits tiny_mkv 5 = Inr ([Bytes 10 [0xec, 0x85], Zeros 12 5], 1)"
    by (simp add: top_edits.simps [of _ 5] top_edits.simps [of _ 22] tiny_mkv_elements seg len ebmlEnd_def
        MKV_Void_def MKV_Segment_def)
  have "assemble tiny_mkv [Bytes 10 [0xec, 0x85], Zeros 12 5] 0 22 = Inr tiny_mkv_stripped"
    by (subst assemble_in_order) (simp_all add: edit_end_def slice_def tiny_mkv_def tiny_mkv_stripped_def numeral_eq_Suc)
  then show ?thesis
    by (simp add: stripMatroska_def len tiny_mkv_elements edits ebmlEnd_def MKV_EBML_def)
qed

lemma matroska_file_stripped_witness:
  "stripMatroska tiny_mkv = Inr tiny_mkv_stripped \<and> length tiny_mkv_stripped = length tiny_mkv
    \<and> matroska_stripped tiny_mkv tiny_mkv_stripped 0"
  using tiny_mkv_strips matroska_file_stripped [OF tiny_mkv_strips] by (simp add: tiny_mkv_def)

lemma void_header_parses_witness:
  "voidHeader 7 = Inr [0xec, 0x85] \<and> parseEbml [1, 0xec, 0x85, 0] 1 4 0 =
     Inr \<lparr>el_id = MKV_Void, el_start = 1, el_data = 3, el_size = Some 5\<rparr>"
proof -
  have h: "voidHeader 7 = Inr [0xec, 0x85]" by code_simp
  show ?thesis using h void_header_parses [OF h, of "[1]" 4 "[0]" 0] by simp
qed

end
