(* ===== verification/Strip_Isobmff.thy ===== *)
theory Strip_Isobmff
  imports Strip_Base
begin

text \<open>
  ISO base media files (mp4, m4a, mov, 3gp) in the media metadata stripper
  (\<open>packages/app/src/lib/media/strip-metadata.ts\<close>): box headers, the sample tables of a track, the in-place
  walk over \<open>moov\<close> and the walk over the file. The buffer \<open>moov\<close> is read into is state passed along. Sums of sizes the
  code computes in floating point are exact here: one above \<open>2 ^ 53\<close> leaves every \<open>mdat\<close> and is refused either way.

  The relation \<open>moov_stripped\<close> is the promise for \<open>moov\<close>: same boxes, same places, metadata boxes and dropped tracks
  freed and zeroed, times zeroed, the rest untouched. \<open>iso_file_stripped\<close> is the promise for the file.
\<close>

section \<open>Boxes\<close>

definition ISO_META_BOXES :: "string list" where
  "ISO_META_BOXES = [''udta'', ''meta'', ''uuid'']"

definition ISO_TOP_EXTRA :: "string list" where
  "ISO_TOP_EXTRA = [''prft'', ''free'', ''skip'', ''wide'']"

definition ISO_AV_HANDLERS :: "string list" where
  "ISO_AV_HANDLERS = [''vide'', ''soun'']"

definition MAX_MOOV_BYTES :: nat where "MAX_MOOV_BYTES = 64 * 1024 * 1024"

record box =
  bx_type :: string
  bx_start :: nat
  bx_header :: nat
  bx_end :: nat

definition bx_body :: "box \<Rightarrow> nat" where
  "bx_body c = bx_start c + bx_header c"

definition parseBox :: "octets \<Rightarrow> nat \<Rightarrow> nat \<Rightarrow> nat \<Rightarrow> box strip" where
  "parseBox b p limit base =
     (if limit < p + 8 then Inl ''truncated box header''
      else let size32 = u32be b p; type = ascii b (p + 4) 4
           in and_then
                (if size32 = 1 then
                   (if limit < p + 16 then Inl ''truncated largesize''
                    else and_then (u64be b (p + 8)) (\<lambda>size. Inr (size, 16)))
                 else if size32 = 0 then Inr (limit - p, 8) else Inr (size32, 8))
                (\<lambda>(size, headerLen).
                  if size < headerLen \<or> limit < p + size then Inl (''bad size for box '' @ type)
                  else Inr \<lparr>bx_type = type, bx_start = base + p, bx_header = headerLen, bx_end = base + p + size\<rparr>))"

text \<open>One turn of the generator \<open>isoChildren\<close>: the box at \<open>p\<close>, or the end of the parent.\<close>

definition isoChildren :: "octets \<Rightarrow> nat \<Rightarrow> nat \<Rightarrow> box option strip" where
  "isoChildren b p stop =
     (if \<not> p < stop then Inr None
      else if stop - p < 8 then
        (if stop - p = 4 \<and> u32be b p = 0 then Inr None else Inl ''trailing bytes in box'')
      else and_then (parseBox b p stop 0) (\<lambda>c. Inr (Some c)))"

lemma parseBox_place:
  "parseBox b p limit base = Inr c \<Longrightarrow>
     bx_start c = base + p \<and> 8 \<le> bx_header c \<and> bx_body c \<le> bx_end c \<and> bx_end c \<le> base + limit"
  by (auto simp: parseBox_def Let_def bx_body_def split: if_splits)

lemma isoChildren_place:
  "isoChildren b p stop = Inr (Some c) \<Longrightarrow>
     bx_start c = p \<and> p + 8 \<le> bx_body c \<and> bx_body c \<le> bx_end c \<and> bx_end c \<le> stop"
  by (auto simp: isoChildren_def bx_body_def dest!: parseBox_place split: if_splits)

definition overwrite :: "octets \<Rightarrow> nat \<Rightarrow> octets \<Rightarrow> octets" where
  "overwrite b p xs = take p b @ xs @ drop (p + length xs) b"

text \<open>The four bytes of \<open>free\<close>.\<close>

definition free_type :: octets where "free_type = [0x66, 0x72, 0x65, 0x65]"

definition freeBoxInPlace :: "octets \<Rightarrow> box \<Rightarrow> octets" where
  "freeBoxInPlace b c =
     overwrite (overwrite b (bx_start c + 4) free_type) (bx_body c) (replicate (bx_end c - bx_body c) 0)"

definition zeroTimes :: "octets \<Rightarrow> box \<Rightarrow> octets strip" where
  "zeroTimes b c =
     (let p = bx_body c
      in if bx_end c < p + 4 then Inl (''truncated '' @ bx_type c)
         else and_then (if byte_at b p = 1 then Inr 16 else if byte_at b p = 0 then Inr 8
                        else Inl (''unknown version: '' @ bx_type c))
           (\<lambda>len. if bx_end c < p + 4 + len then Inl (''truncated '' @ bx_type c)
                  else Inr (overwrite b (p + 4) (replicate len 0))))"

section \<open>Tracks\<close>

function find_from :: "octets \<Rightarrow> nat \<Rightarrow> nat \<Rightarrow> string \<Rightarrow> box option strip" where
  "find_from b p stop type =
     and_then (isoChildren b p stop) (\<lambda>next'. case next' of
         None \<Rightarrow> Inr None
       | Some c \<Rightarrow> if bx_type c = type then Inr (Some c) else find_from b (bx_end c) stop type)"
  by auto
termination
  by (relation "measure (\<lambda>(b, p, stop, type). stop - p)") (auto dest!: isoChildren_place)

declare find_from.simps [simp del]

definition findChild :: "octets \<Rightarrow> box \<Rightarrow> string \<Rightarrow> box option strip" where
  "findChild b parent type = find_from b (bx_body parent) (bx_end parent) type"

definition or_fail :: "'a option strip \<Rightarrow> string \<Rightarrow> 'a strip" where
  "or_fail m why = and_then m (\<lambda>x. case x of None \<Rightarrow> Inl why | Some y \<Rightarrow> Inr y)"

definition trackHandler :: "octets \<Rightarrow> box \<Rightarrow> string strip" where
  "trackHandler b trak =
     and_then (or_fail (findChild b trak ''mdia'') ''track without mdia'') (\<lambda>mdia.
       and_then (or_fail (findChild b mdia ''hdlr'') ''track without hdlr'') (\<lambda>hdlr.
         let p = bx_body hdlr
         in if bx_end hdlr < p + 12 then Inl ''truncated hdlr'' else Inr (ascii b (p + 8) 4)))"

text \<open>
  The sample tables: \<open>sizes\<close>, \<open>sampleCount\<close>, \<open>offsets\<close> and \<open>stsc\<close>. The closure \<open>sizes\<close> is the list of its values
  below \<open>sampleCount\<close>, which is where the loop calls it.
\<close>

record tables =
  t_sizes :: "nat list option"
  t_count :: nat
  t_offsets :: "nat list option"
  t_stsc :: "(nat \<times> nat) list"

definition no_tables :: tables where
  "no_tables = \<lparr>t_sizes = None, t_count = 0, t_offsets = None, t_stsc = []\<rparr>"

definition need :: "box \<Rightarrow> nat \<Rightarrow> nat \<Rightarrow> unit strip" where
  "need c p n = ensure (p + n \<le> bx_end c) (''truncated '' @ bx_type c)"

definition stz2_size :: "octets \<Rightarrow> nat \<Rightarrow> nat \<Rightarrow> nat \<Rightarrow> nat" where
  "stz2_size b q field i =
     (if field = 16 then byte_at b (q + i * 2) * 256 + byte_at b (q + i * 2 + 1)
      else if field = 8 then byte_at b (q + i)
      else if i mod 2 = 0 then byte_at b (q + i div 2) div 16 else byte_at b (q + i div 2) mod 16)"

fun read_offsets :: "octets \<Rightarrow> nat \<Rightarrow> nat \<Rightarrow> nat \<Rightarrow> nat list strip" where
  "read_offsets b w q 0 = Inr []"
| "read_offsets b w q (Suc n) =
     and_then (if w = 8 then u64be b q else Inr (u32be b q)) (\<lambda>x.
       and_then (read_offsets b w (q + w) n) (\<lambda>xs. Inr (x # xs)))"

definition read_table :: "octets \<Rightarrow> box \<Rightarrow> tables \<Rightarrow> tables strip" where
  "read_table b c t =
     (let p = bx_body c + 4
      in if bx_type c = ''stsz'' then
           and_then (need c p 8) (\<lambda>_.
             let fixed = u32be b p; count = u32be b (p + 4)
             in and_then (if fixed = 0 then need c p (8 + count * 4) else Inr ()) (\<lambda>_.
                  Inr (t\<lparr>t_count := count,
                         t_sizes := Some (if fixed \<noteq> 0 then replicate count fixed
                                        else map (\<lambda>i. u32be b (p + 8 + i * 4)) [0..<count])\<rparr>)))
         else if bx_type c = ''stz2'' then
           and_then (need c p 8) (\<lambda>_.
             let field = byte_at b (p + 3); count = u32be b (p + 4)
             in if field \<notin> {4, 8, 16} then Inl ''bad stz2 field size''
                else and_then (need c p (8 + (count * field + 7) div 8)) (\<lambda>_.
                  Inr (t\<lparr>t_count := count, t_sizes := Some (map (stz2_size b (p + 8) field) [0..<count])\<rparr>)))
         else if bx_type c = ''stco'' \<or> bx_type c = ''co64'' then
           and_then (need c p 4) (\<lambda>_.
             let n = u32be b p; w = (if bx_type c = ''co64'' then 8 else 4)
             in and_then (need c p (4 + n * w)) (\<lambda>_.
                  and_then (read_offsets b w (p + 4) n) (\<lambda>xs. Inr (t\<lparr>t_offsets := Some xs\<rparr>))))
         else if bx_type c = ''stsc'' then
           and_then (need c p 4) (\<lambda>_.
             let n = u32be b p
             in and_then (need c p (4 + n * 12)) (\<lambda>_.
                  Inr (t\<lparr>t_stsc := t_stsc t @ map (\<lambda>i. (u32be b (p + 4 + i * 12), u32be b (p + 8 + i * 12))) [0..<n]\<rparr>)))
         else Inr t)"

function read_tables :: "octets \<Rightarrow> nat \<Rightarrow> nat \<Rightarrow> tables \<Rightarrow> tables strip" where
  "read_tables b p stop t =
     and_then (isoChildren b p stop) (\<lambda>next'. case next' of
         None \<Rightarrow> Inr t
       | Some c \<Rightarrow> and_then (read_table b c t) (\<lambda>t'. read_tables b (bx_end c) stop t'))"
  by auto
termination
  by (relation "measure (\<lambda>(b, p, stop, t). stop - p)") (auto dest!: isoChildren_place)

declare read_tables.simps [simp del]

text \<open>The loop over the chunks; \<open>stsc\<close> is the entry the loop stands at and those after it, \<open>ranges\<close> its last element first.\<close>

fun next_entry :: "nat \<Rightarrow> (nat \<times> nat) list \<Rightarrow> (nat \<times> nat) list" where
  "next_entry chunk (e # e' # rest) = (if fst e' \<le> chunk then next_entry chunk (e' # rest) else e # e' # rest)"
| "next_entry chunk es = es"

definition add_range :: "nat \<Rightarrow> nat \<Rightarrow> (nat \<times> nat) list \<Rightarrow> (nat \<times> nat) list" where
  "add_range off len ranges =
     (case ranges of
        (s, e) # rest \<Rightarrow> if e = off then (s, off + len) # rest else if 0 < len then (off, off + len) # ranges else ranges
      | [] \<Rightarrow> if 0 < len then [(off, off + len)] else [])"

fun chunk_ranges ::
  "nat list \<Rightarrow> nat \<Rightarrow> nat \<Rightarrow> nat list \<Rightarrow> (nat \<times> nat) list \<Rightarrow> nat \<Rightarrow> (nat \<times> nat) list \<Rightarrow> nat \<times> (nat \<times> nat) list"
where
  "chunk_ranges sizes samples chunk [] stsc sample ranges = (sample, ranges)"
| "chunk_ranges sizes samples chunk (off # offs) stsc sample ranges =
     (if \<not> sample < samples then (sample, ranges)
      else let stsc' = next_entry chunk stsc;
               n = min (snd (hd stsc')) (samples - sample);
               len = sum_list (take n (drop sample sizes))
           in chunk_ranges sizes samples (chunk + 1) offs stsc' (sample + n) (add_range off len ranges))"

definition trackSampleRanges :: "octets \<Rightarrow> box \<Rightarrow> (nat \<times> nat) list strip" where
  "trackSampleRanges b trak =
     and_then (or_fail (findChild b trak ''mdia'') ''track without mdia'') (\<lambda>mdia.
       and_then (or_fail (findChild b mdia ''minf'') ''track without minf'') (\<lambda>minf.
         and_then (or_fail (findChild b minf ''stbl'') ''track without stbl'') (\<lambda>stbl.
           and_then (read_tables b (bx_body stbl) (bx_end stbl) no_tables) (\<lambda>t.
             if t_count t = 0 then Inr []
             else (case (t_sizes t, t_offsets t) of
                 (Some sizes, Some offsets) \<Rightarrow>
                   if t_stsc t = [] then Inl ''incomplete sample tables''
                   else let (sample, ranges) = chunk_ranges sizes (t_count t) 1 offsets (t_stsc t) 0 []
                        in if sample \<noteq> t_count t then Inl ''sample tables disagree'' else Inr (rev ranges)
               | _ \<Rightarrow> Inl ''incomplete sample tables'')))))"

section \<open>The walk over \<open>moov\<close>\<close>

definition ISO_TIMES :: "string list" where "ISO_TIMES = [''mvhd'', ''tkhd'', ''mdhd'']"

definition ISO_INTO :: "string list" where "ISO_INTO = [''mdia'', ''minf'', ''edts'', ''mvex'']"

function walk_moov :: "bool \<Rightarrow> octets \<Rightarrow> nat \<Rightarrow> nat \<Rightarrow> (octets \<times> (nat \<times> nat) list) strip" where
  "walk_moov fragmented b p stop =
     and_then (isoChildren b p stop) (\<lambda>next'. case next' of
         None \<Rightarrow> Inr (b, [])
       | Some c \<Rightarrow>
           and_then
             (if bx_type c \<in> set ISO_META_BOXES then Inr (freeBoxInPlace b c, [])
              else if bx_type c \<in> set ISO_TIMES then and_then (zeroTimes b c) (\<lambda>b'. Inr (b', []))
              else if bx_type c = ''trak'' then
                and_then (trackHandler b c) (\<lambda>h.
                  if h \<notin> set ISO_AV_HANDLERS then
                    (if fragmented then Inl ''non-audio/video track in a fragmented file''
                     else and_then (trackSampleRanges b c) (\<lambda>z. Inr (freeBoxInPlace b c, z)))
                  else walk_moov fragmented b (bx_body c) (bx_end c))
              else if bx_type c \<in> set ISO_INTO then walk_moov fragmented b (bx_body c) (bx_end c)
              else Inr (b, []))
             (\<lambda>(b1, z). and_then (walk_moov fragmented b1 (bx_end c) stop) (\<lambda>(b2, zs). Inr (b2, z @ zs))))"
  by auto
termination
  by (relation "measure (\<lambda>(fragmented, b, p, stop). stop - p)") (auto dest!: isoChildren_place)

declare walk_moov.simps [simp del]

definition stripMoov :: "octets \<Rightarrow> box \<Rightarrow> bool \<Rightarrow> (octets \<times> (nat \<times> nat) list) strip" where
  "stripMoov b moov fragmented = walk_moov fragmented b (bx_body moov) (bx_end moov)"

section \<open>The file\<close>

record iso_state =
  is_moov :: "box option"
  is_mdats :: "(nat \<times> nat) list"
  is_fragmented :: bool
  is_edits :: "edit list"

definition iso_start :: iso_state where
  "iso_start = \<lparr>is_moov = None, is_mdats = [], is_fragmented = False, is_edits = []\<rparr>"

definition free_edits :: "octets \<Rightarrow> box \<Rightarrow> edit list" where
  "free_edits head c =
     [Bytes (bx_start c) (overwrite (take (bx_header c) head) 4 free_type),
      Zeros (bx_body c) (bx_end c - bx_body c)]"

definition top_box :: "octets \<Rightarrow> box \<Rightarrow> iso_state \<Rightarrow> iso_state strip" where
  "top_box head c st =
     (if bx_type c = ''moov'' then
        (if is_moov st \<noteq> None then Inl ''two moov boxes'' else Inr (st\<lparr>is_moov := Some c\<rparr>))
      else if bx_type c = ''mdat'' then Inr (st\<lparr>is_mdats := is_mdats st @ [(bx_body c, bx_end c)]\<rparr>)
      else if bx_type c = ''moof'' then Inr (st\<lparr>is_fragmented := True\<rparr>)
      else if bx_type c \<in> set ISO_META_BOXES \<or> bx_type c \<in> set ISO_TOP_EXTRA then
        Inr (st\<lparr>is_edits := is_edits st @ free_edits head c\<rparr>)
      else Inr st)"

text \<open>The box of the file at \<open>p\<close>, with the bytes read for its header.\<close>

definition file_box :: "octets \<Rightarrow> nat \<Rightarrow> (octets \<times> box) strip" where
  "file_box file p =
     and_then (readAt file p (min 16 (length file - p))) (\<lambda>head.
       and_then (parseBox head 0 (length file - p) p) (\<lambda>c. Inr (head, c)))"

lemma file_box_place:
  "file_box f p = Inr (head, c) \<Longrightarrow> p \<le> length f \<Longrightarrow>
     bx_start c = p \<and> p + 8 \<le> bx_body c \<and> bx_body c \<le> bx_end c \<and> bx_end c \<le> length f"
  by (auto simp: file_box_def bx_body_def dest!: parseBox_place)

function top_boxes :: "octets \<Rightarrow> nat \<Rightarrow> iso_state \<Rightarrow> iso_state strip" where
  "top_boxes file p st =
     (if \<not> p < length file then Inr st
      else and_then (file_box file p) (\<lambda>(head, c). and_then (top_box head c st) (\<lambda>st'. top_boxes file (bx_end c) st')))"
  by auto
termination
  by (relation "measure (\<lambda>(file, p, st). length file - p)") (auto dest!: file_box_place)

declare top_boxes.simps [simp del]

definition stripIsoBmff :: "octets \<Rightarrow> octets strip" where
  "stripIsoBmff file =
     and_then (top_boxes file 0 iso_start) (\<lambda>st. case is_moov st of
         None \<Rightarrow> Inl ''no moov box''
       | Some moov \<Rightarrow>
           (let moovLen = bx_end moov - bx_start moov
            in if MAX_MOOV_BYTES < moovLen then Inl ''moov too large''
               else and_then (readAt file (bx_start moov) moovLen) (\<lambda>buf.
                 and_then (stripMoov buf (moov\<lparr>bx_start := 0, bx_end := moovLen\<rparr>) (is_fragmented st)) (\<lambda>(buf', dropped).
                   and_then
                     (ensure (list_all (\<lambda>(s, e). list_ex (\<lambda>(ms, me). ms \<le> s \<and> e \<le> me) (is_mdats st)) dropped)
                        ''track samples outside mdat'')
                     (\<lambda>_. assemble file
                        (is_edits st @ [Bytes (bx_start moov) buf'] @ map (\<lambda>(s, e). Zeros s (e - s)) dropped)
                        0 (length file))))))"

section \<open>Reading looks only at the box it reads\<close>

lemma u32be_same: "same_bytes b b' p stop \<Longrightarrow> p \<le> q \<Longrightarrow> q + 4 \<le> stop \<Longrightarrow> u32be b' q = u32be b q"
  by (simp add: u32be_def same_bytes_def)

lemma u64be_same: "same_bytes b b' p stop \<Longrightarrow> p \<le> q \<Longrightarrow> q + 8 \<le> stop \<Longrightarrow> u64be b' q = u64be b q"
  by (simp add: u64be_def u32be_same)

lemma ascii_same: "same_bytes b b' p stop \<Longrightarrow> p \<le> q \<Longrightarrow> q + n \<le> stop \<Longrightarrow> ascii b' q n = ascii b q n"
  by (simp add: ascii_def same_bytes_def)

lemma parseBox_same:
  assumes "same_bytes b b' p limit"
  shows "parseBox b' p limit base = parseBox b p limit base"
proof (cases "limit < p + 8")
  case False
  have "u32be b' p = u32be b p" "ascii b' (p + 4) 4 = ascii b (p + 4) 4"
    using False u32be_same [OF assms, of p] ascii_same [OF assms, of "p + 4" 4] by simp_all
  moreover have "\<not> limit < p + 16 \<Longrightarrow> u64be b' (p + 8) = u64be b (p + 8)" using u64be_same [OF assms, of "p + 8"] by simp
  ultimately show ?thesis by (simp add: parseBox_def Let_def)
qed (simp add: parseBox_def)

lemma isoChildren_same: "same_bytes b b' p stop \<Longrightarrow> isoChildren b' p stop = isoChildren b p stop"
  using u32be_same [of b b' p stop p] by (simp add: isoChildren_def parseBox_same)

lemma find_from_same: "same_bytes b b' p stop \<Longrightarrow> find_from b' p stop type = find_from b p stop type"
proof (induction b p stop type rule: find_from.induct)
  case (1 b p stop type)
  have rest: "find_from b' (bx_end c) stop type = find_from b (bx_end c) stop type"
    if "isoChildren b p stop = Inr (Some c)" "bx_type c \<noteq> type" for c
    using "1.IH" [OF that(1) refl that(2)] same_bytes_sub [OF "1.prems"] isoChildren_place [OF that(1)] by simp
  show ?case
    unfolding find_from.simps [of b' p] find_from.simps [of b p] isoChildren_same [OF "1.prems"]
    by (cases "isoChildren b p stop") (auto simp: rest split: option.splits)
qed

definition in_box :: "box \<Rightarrow> box \<Rightarrow> bool" where
  "in_box c parent \<longleftrightarrow> bx_start parent \<le> bx_start c \<and> bx_start c \<le> bx_body c \<and> bx_end c \<le> bx_end parent"

lemma find_from_place:
  "find_from b p stop type = Inr (Some c) \<Longrightarrow> p \<le> bx_start c \<and> bx_end c \<le> stop"
proof (induction b p stop type rule: find_from.induct)
  case (1 b p stop type)
  then show ?case
    unfolding find_from.simps [of b p]
    by (fastforce dest: isoChildren_place split: option.splits if_splits)
qed

lemma findChild_place: "findChild b parent type = Inr (Some c) \<Longrightarrow> in_box c parent"
  using find_from_place by (fastforce simp: findChild_def in_box_def bx_body_def)

lemma findChild_same:
  "same_bytes b b' (bx_start parent) (bx_end parent) \<Longrightarrow> findChild b' parent type = findChild b parent type"
  by (simp add: findChild_def bx_body_def find_from_same same_bytes_sub)

lemma same_in_box: "same_bytes b b' (bx_start parent) (bx_end parent) \<Longrightarrow> in_box c parent \<Longrightarrow>
    same_bytes b b' (bx_start c) (bx_end c)"
  using same_bytes_sub by (fastforce simp: in_box_def)

lemma or_fail_Inr: "or_fail m why = Inr x \<longleftrightarrow> m = Inr (Some x)"
  by (cases m) (auto simp: or_fail_def split: option.splits)

lemma and_then_same: "m' = m \<Longrightarrow> (\<And>x. m = Inr x \<Longrightarrow> k' x = k x) \<Longrightarrow> and_then m' k' = and_then m k"
  by (cases m) simp_all

text \<open>A child found in a box that did not change is found again, and did not change.\<close>

lemma child_same:
  assumes "same_bytes b b' (bx_start parent) (bx_end parent)"
    and "\<And>c. same_bytes b b' (bx_start c) (bx_end c) \<Longrightarrow> k' c = k c"
  shows "and_then (or_fail (findChild b' parent type) why) k' = and_then (or_fail (findChild b parent type) why) k"
  by (rule and_then_same)
    (use assms findChild_same [OF assms(1)] in \<open>auto simp: or_fail_Inr dest!: findChild_place intro: same_in_box\<close>)

lemma box_same:
  assumes "same_bytes b b' (bx_start c) (bx_end c)" "bx_body c \<le> q"
  shows "q + n \<le> bx_end c \<Longrightarrow> ascii b' q n = ascii b q n"
    and "q + 4 \<le> bx_end c \<Longrightarrow> u32be b' q = u32be b q"
    and "q < bx_end c \<Longrightarrow> byte_at b' q = byte_at b q"
  using assms ascii_same [OF assms(1), of q n] u32be_same [OF assms(1), of q]
  by (simp_all add: bx_body_def same_bytes_def)

lemma trackHandler_same:
  assumes "same_bytes b b' (bx_start trak) (bx_end trak)"
  shows "trackHandler b' trak = trackHandler b trak"
  unfolding trackHandler_def
  by (intro child_same [OF assms] child_same) (auto simp: Let_def box_same)

lemma read_offsets_same:
  "same_bytes b b' p stop \<Longrightarrow> p \<le> q \<Longrightarrow> q + n * w \<le> stop \<Longrightarrow> w \<in> {4, 8} \<Longrightarrow> read_offsets b' w q n = read_offsets b w q n"
proof (induction b w q n rule: read_offsets.induct)
  case (2 b w q n)
  then show ?case using u32be_same [OF "2.prems"(1)] u64be_same [OF "2.prems"(1)] by (auto intro!: and_then_same)
qed simp

lemma stz2_size_same:
  assumes "same_bytes b b' p stop" "p \<le> q" "q + (n * field + 7) div 8 \<le> stop" "i < n" "field \<in> {4, 8, 16}"
  shows "stz2_size b' q field i = stz2_size b q field i"
proof -
  have "(n * 4 + 7) div 8 = (n + 1) div 2" by simp
  then have "i div 2 < (n * 4 + 7) div 8" using assms(4) by simp
  then show ?thesis using assms by (auto simp: stz2_size_def same_bytes_def)
qed

lemma need_Inr [simp]: "need c p n = Inr u \<longleftrightarrow> p + n \<le> bx_end c"
  by (simp add: need_def)

lemma read_table_same:
  assumes "same_bytes b b' (bx_start c) (bx_end c)"
  shows "read_table b' c t = read_table b c t"
proof -
  have q: "bx_start c \<le> q" if "bx_body c \<le> q" for q using that by (simp add: bx_body_def)
  have stz2: "map (stz2_size b' r field) [0..<n] = map (stz2_size b r field) [0..<n]"
    if "bx_body c \<le> r" "r + (n * field + 7) div 8 \<le> bx_end c" "field \<in> {4, 8, 16}" for r n field
    using stz2_size_same [OF assms q [OF that(1)] that(2) _ that(3)] by simp
  show ?thesis
    unfolding read_table_def Let_def
    by (intro if_cong refl and_then_same)
      (auto simp: box_same [OF assms] q stz2 intro!: read_offsets_same [OF assms])
qed

lemma read_tables_same: "same_bytes b b' p stop \<Longrightarrow> read_tables b' p stop t = read_tables b p stop t"
proof (induction b p stop t rule: read_tables.induct)
  case (1 b p stop t)
  have step: "read_table b' c t = read_table b c t"
    "read_table b c t = Inr t' \<Longrightarrow> read_tables b' (bx_end c) stop t' = read_tables b (bx_end c) stop t'"
    if "isoChildren b p stop = Inr (Some c)" for c t'
    using "1.IH" [OF that refl] same_bytes_sub [OF "1.prems"] isoChildren_place [OF that]
    by (auto intro!: read_table_same)
  show ?case
    unfolding read_tables.simps [of b' p] read_tables.simps [of b p] isoChildren_same [OF "1.prems"]
    by (intro and_then_same refl) (auto simp: step split: option.splits intro!: and_then_same)
qed

lemma trackSampleRanges_same:
  assumes "same_bytes b b' (bx_start trak) (bx_end trak)"
  shows "trackSampleRanges b' trak = trackSampleRanges b trak"
proof -
  have "read_tables b' (bx_body c) (bx_end c) t = read_tables b (bx_body c) (bx_end c) t"
    if "same_bytes b b' (bx_start c) (bx_end c)" for c t
    using read_tables_same [OF same_bytes_sub [OF that]] by (simp add: bx_body_def)
  then show ?thesis
    unfolding trackSampleRanges_def
    by (intro child_same [OF assms] child_same) simp_all
qed

section \<open>A stripped \<open>moov\<close>\<close>

lemma byte_at_overwrite:
  "p + length xs \<le> length b \<Longrightarrow>
     byte_at (overwrite b p xs) i = (if p \<le> i \<and> i < p + length xs then byte_at xs (i - p) else byte_at b i)"
  by (auto simp: overwrite_def byte_at_def nth_append)

lemma length_overwrite: "p + length xs \<le> length b \<Longrightarrow> length (overwrite b p xs) = length b"
  by (simp add: overwrite_def)

text \<open>The box \<open>c\<close> of \<open>b\<close> is a \<open>free\<close> box of the same size in \<open>b'\<close>, its payload zeros.\<close>

definition freed :: "octets \<Rightarrow> octets \<Rightarrow> box \<Rightarrow> bool" where
  "freed b b' c \<longleftrightarrow>
     (\<forall>i. bx_start c \<le> i \<and> i < bx_end c \<longrightarrow>
        byte_at b' i =
          (if bx_start c + 4 \<le> i \<and> i < bx_start c + 8 then byte_at free_type (i - (bx_start c + 4))
           else if i < bx_body c then byte_at b i else 0))"

definition times_zeroed :: "octets \<Rightarrow> octets \<Rightarrow> box \<Rightarrow> bool" where
  "times_zeroed b b' c \<longleftrightarrow>
     (\<exists>len. (byte_at b (bx_body c), len) \<in> {(0, 8), (1, 16)} \<and> bx_body c + 4 + len \<le> bx_end c
        \<and> (\<forall>i. bx_start c \<le> i \<and> i < bx_end c \<longrightarrow>
            byte_at b' i = (if bx_body c + 4 \<le> i \<and> i < bx_body c + 4 + len then 0 else byte_at b i)))"

lemma freeBoxInPlace_effect:
  assumes "bx_start c + 8 \<le> bx_body c" "bx_body c \<le> bx_end c" "bx_end c \<le> length b"
  shows "length (freeBoxInPlace b c) = length b" and "freed b (freeBoxInPlace b c) c"
    and "i < bx_start c \<or> bx_end c \<le> i \<Longrightarrow> byte_at (freeBoxInPlace b c) i = byte_at b i"
proof -
  have four: "length free_type = 4" by (simp add: free_type_def)
  have len: "length (overwrite b (bx_start c + 4) free_type) = length b"
    using assms by (simp add: length_overwrite four)
  then show "length (freeBoxInPlace b c) = length b"
    using assms by (simp add: freeBoxInPlace_def length_overwrite)
  have "byte_at (freeBoxInPlace b c) i =
      (if bx_body c \<le> i \<and> i < bx_end c then 0
       else if bx_start c + 4 \<le> i \<and> i < bx_start c + 8 then byte_at free_type (i - (bx_start c + 4)) else byte_at b i)" for i
    using assms len by (simp add: freeBoxInPlace_def byte_at_overwrite four) (simp add: byte_at_def)
  then show "freed b (freeBoxInPlace b c) c"
    and "i < bx_start c \<or> bx_end c \<le> i \<Longrightarrow> byte_at (freeBoxInPlace b c) i = byte_at b i"
    using assms by (auto simp: freed_def)
qed

lemma zeroTimes_effect:
  assumes "zeroTimes b c = Inr b'" "bx_end c \<le> length b" "bx_start c \<le> bx_body c"
  shows "length b' = length b" and "times_zeroed b b' c"
    and "i < bx_start c \<or> bx_end c \<le> i \<Longrightarrow> byte_at b' i = byte_at b i"
proof -
  obtain len where len: "(byte_at b (bx_body c), len) \<in> {(0, 8), (1, 16)}" "bx_body c + 4 + len \<le> bx_end c"
      and b': "b' = overwrite b (bx_body c + 4) (replicate len 0)"
    using assms(1) by (auto simp: zeroTimes_def Let_def split: if_splits)
  show "length b' = length b" using assms(2) len(2) by (simp add: b' length_overwrite)
  have at': "byte_at b' i = (if bx_body c + 4 \<le> i \<and> i < bx_body c + 4 + len then 0 else byte_at b i)" for i
    using assms(2) len(2) by (simp add: b' byte_at_overwrite) (simp add: byte_at_def)
  then show "times_zeroed b b' c" using len unfolding times_zeroed_def by blast
  show "i < bx_start c \<or> bx_end c \<le> i \<Longrightarrow> byte_at b' i = byte_at b i" using at' len(2) assms(3) by auto
qed

text \<open>A box the walk does not enter, and one it does.\<close>

definition leaf_stripped :: "octets \<Rightarrow> octets \<Rightarrow> box \<Rightarrow> (nat \<times> nat) list \<Rightarrow> bool" where
  "leaf_stripped b b' c z \<longleftrightarrow>
     (if bx_type c \<in> set ISO_META_BOXES then freed b b' c \<and> z = []
      else if bx_type c \<in> set ISO_TIMES then times_zeroed b b' c \<and> z = []
      else if bx_type c = ''trak'' then
        (\<exists>h. trackHandler b c = Inr h \<and> h \<notin> set ISO_AV_HANDLERS) \<and> trackSampleRanges b c = Inr z \<and> freed b b' c
      else bx_type c \<notin> set ISO_INTO \<and> same_bytes b b' (bx_start c) (bx_end c) \<and> z = [])"

definition entered :: "octets \<Rightarrow> box \<Rightarrow> bool" where
  "entered b c \<longleftrightarrow>
     bx_type c \<notin> set ISO_META_BOXES \<and> bx_type c \<notin> set ISO_TIMES
     \<and> (if bx_type c = ''trak'' then \<exists>h\<in>set ISO_AV_HANDLERS. trackHandler b c = Inr h else bx_type c \<in> set ISO_INTO)"

text \<open>\<open>zs\<close> are the file ranges of the samples of the tracks that are dropped.\<close>

inductive moov_stripped :: "octets \<Rightarrow> octets \<Rightarrow> nat \<Rightarrow> nat \<Rightarrow> (nat \<times> nat) list \<Rightarrow> bool" where
  last: "isoChildren b p stop = Inr None \<Longrightarrow> same_bytes b b' p stop \<Longrightarrow> moov_stripped b b' p stop []"
| leaf: "isoChildren b p stop = Inr (Some c) \<Longrightarrow> leaf_stripped b b' c z \<Longrightarrow>
    moov_stripped b b' (bx_end c) stop zs \<Longrightarrow> moov_stripped b b' p stop (z @ zs)"
| enter: "isoChildren b p stop = Inr (Some c) \<Longrightarrow> entered b c \<Longrightarrow> same_bytes b b' p (bx_body c) \<Longrightarrow>
    moov_stripped b b' (bx_body c) (bx_end c) z \<Longrightarrow>
    moov_stripped b b' (bx_end c) stop zs \<Longrightarrow> moov_stripped b b' p stop (z @ zs)"

lemma leaf_stripped_same:
  assumes "leaf_stripped b b' c z" "bx_start c \<le> bx_body c" "bx_body c \<le> bx_end c"
    and "same_bytes b b1 (bx_start c) (bx_end c)" "same_bytes b' b1' (bx_start c) (bx_end c)"
  shows "leaf_stripped b1 b1' c z"
proof -
  have freed: "freed b b' c \<Longrightarrow> freed b1 b1' c"
    using assms(2-5) by (auto simp: freed_def same_bytes_def)
  have times: "times_zeroed b b' c \<Longrightarrow> times_zeroed b1 b1' c"
    using assms(2-5) unfolding times_zeroed_def same_bytes_def by (elim exE) (rule exI, auto)
  have "same_bytes b b' (bx_start c) (bx_end c) \<Longrightarrow> same_bytes b1 b1' (bx_start c) (bx_end c)"
    using assms(4,5) by (simp add: same_bytes_def)
  then show ?thesis
    using assms(1) freed times trackHandler_same [OF assms(4)] trackSampleRanges_same [OF assms(4)]
    by (simp add: leaf_stripped_def split: if_splits)
qed

lemma moov_stripped_same:
  "moov_stripped b b' p stop zs \<Longrightarrow> same_bytes b b1 p stop \<Longrightarrow> same_bytes b' b1' p stop \<Longrightarrow> moov_stripped b1 b1' p stop zs"
proof (induction rule: moov_stripped.induct)
  case (last b p stop b')
  then show ?case
    using isoChildren_same [of b b1] by (intro moov_stripped.last) (simp_all add: same_bytes_def)
next
  case (leaf b p stop c b' z zs)
  note d = isoChildren_place [OF leaf.hyps(1)]
  have sub: "same_bytes b b1 i j" "same_bytes b' b1' i j" if "p \<le> i" "j \<le> stop" for i j
    using same_bytes_sub that leaf.prems by blast+
  show ?case
  proof (rule moov_stripped.leaf)
    show "isoChildren b1 p stop = Inr (Some c)" using isoChildren_same leaf.prems(1) leaf.hyps(1) by simp
    show "leaf_stripped b1 b1' c z" by (rule leaf_stripped_same [OF leaf.hyps(2)]) (use d sub in auto)
    show "moov_stripped b1 b1' (bx_end c) stop zs" by (rule leaf.IH) (use d sub in auto)
  qed
next
  case (enter b p stop c b' z zs)
  note d = isoChildren_place [OF enter.hyps(1)]
  have sub: "same_bytes b b1 i j" "same_bytes b' b1' i j" if "p \<le> i" "j \<le> stop" for i j
    using same_bytes_sub that enter.prems by blast+
  show ?case
  proof (rule moov_stripped.enter)
    show "isoChildren b1 p stop = Inr (Some c)" using isoChildren_same enter.prems(1) enter.hyps(1) by simp
    show "entered b1 c" using enter.hyps(2) trackHandler_same [of b b1 c] sub d by (auto simp: entered_def)
    show "same_bytes b1 b1' p (bx_body c)"
      using enter.hyps(3) sub [of p "bx_body c"] d by (simp add: same_bytes_def)
    show "moov_stripped b1 b1' (bx_body c) (bx_end c) z" by (rule enter.IH(1)) (use d sub in auto)
    show "moov_stripped b1 b1' (bx_end c) stop zs" by (rule enter.IH(2)) (use d sub in auto)
  qed
qed

text \<open>One turn of the walk.\<close>

definition walk_box :: "bool \<Rightarrow> octets \<Rightarrow> box \<Rightarrow> (octets \<times> (nat \<times> nat) list) strip" where
  "walk_box fragmented b c =
     (if bx_type c \<in> set ISO_META_BOXES then Inr (freeBoxInPlace b c, [])
      else if bx_type c \<in> set ISO_TIMES then and_then (zeroTimes b c) (\<lambda>b'. Inr (b', []))
      else if bx_type c = ''trak'' then
        and_then (trackHandler b c) (\<lambda>h.
          if h \<notin> set ISO_AV_HANDLERS then
            (if fragmented then Inl ''non-audio/video track in a fragmented file''
             else and_then (trackSampleRanges b c) (\<lambda>z. Inr (freeBoxInPlace b c, z)))
          else walk_moov fragmented b (bx_body c) (bx_end c))
      else if bx_type c \<in> set ISO_INTO then walk_moov fragmented b (bx_body c) (bx_end c)
      else Inr (b, []))"

lemma walk_moov_step:
  "walk_moov fragmented b p stop =
     and_then (isoChildren b p stop) (\<lambda>next'. case next' of
         None \<Rightarrow> Inr (b, [])
       | Some c \<Rightarrow> and_then (walk_box fragmented b c)
           (\<lambda>(b1, z). and_then (walk_moov fragmented b1 (bx_end c) stop) (\<lambda>(b2, zs). Inr (b2, z @ zs))))"
  unfolding walk_moov.simps [of fragmented b p stop] walk_box_def by simp

text \<open>A box the walk does not enter.\<close>

lemma walk_leaf:
  assumes "walk_box fragmented b c = Inr (b1, z)" "\<not> entered b c"
    and "bx_start c + 8 \<le> bx_body c" "bx_body c \<le> bx_end c" "bx_end c \<le> length b"
  shows "length b1 = length b \<and> leaf_stripped b b1 c z
    \<and> (\<forall>i. i < bx_start c \<or> bx_end c \<le> i \<longrightarrow> byte_at b1 i = byte_at b i)"
proof -
  note free' = freeBoxInPlace_effect [OF assms(3-5)]
  consider (meta) "bx_type c \<in> set ISO_META_BOXES"
    | (times) "bx_type c \<notin> set ISO_META_BOXES" "bx_type c \<in> set ISO_TIMES"
    | (trak) "bx_type c \<notin> set ISO_META_BOXES" "bx_type c \<notin> set ISO_TIMES" "bx_type c = ''trak''"
    | (other) "bx_type c \<notin> set ISO_META_BOXES" "bx_type c \<notin> set ISO_TIMES" "bx_type c \<noteq> ''trak''" by blast
  then show ?thesis
  proof cases
    case meta
    then show ?thesis using assms(1) free' by (auto simp: walk_box_def leaf_stripped_def)
  next
    case times
    then have z: "zeroTimes b c = Inr b1" "z = []" using assms(1) by (auto simp: walk_box_def)
    show ?thesis
      using zeroTimes_effect [OF z(1) assms(5)] assms(3) times z(2) by (simp add: leaf_stripped_def)
  next
    case trak
    then obtain h where h: "trackHandler b c = Inr h" using assms(1) by (auto simp: walk_box_def)
    then have "h \<notin> set ISO_AV_HANDLERS" using assms(2) trak unfolding entered_def by auto
    then show ?thesis
      using assms(1) trak h free' by (auto simp: walk_box_def leaf_stripped_def split: if_splits)
  next
    case other
    then have "bx_type c \<notin> set ISO_INTO" using assms(2) by (simp add: entered_def)
    then show ?thesis using other assms(1) by (simp add: walk_box_def leaf_stripped_def)
  qed
qed

lemma walk_entered: "entered b c \<Longrightarrow> walk_box fragmented b c = walk_moov fragmented b (bx_body c) (bx_end c)"
  by (auto simp: entered_def walk_box_def split: if_splits)

lemma walk_moov_strips:
  "walk_moov fragmented b p stop = Inr (b', zs) \<Longrightarrow> stop \<le> length b \<Longrightarrow>
     length b' = length b \<and> moov_stripped b b' p stop zs
     \<and> (\<forall>i. i < p \<or> stop \<le> i \<longrightarrow> byte_at b' i = byte_at b i)"
proof (induction "stop - p" arbitrary: b p stop b' zs rule: less_induct)
  case less
  consider (1) "isoChildren b p stop = Inr None" "b' = b" "zs = []"
    | (2) c b1 z rest where "isoChildren b p stop = Inr (Some c)" "walk_box fragmented b c = Inr (b1, z)"
        "walk_moov fragmented b1 (bx_end c) stop = Inr (b', rest)" "zs = z @ rest"
    using less.prems(1) unfolding walk_moov_step [of fragmented b p] by (fastforce split: option.splits)
  then show ?case
  proof cases
    case 1
    then show ?thesis using moov_stripped.last [of b p stop b] by simp
  next
    case (2 c b1 z rest)
    note d = isoChildren_place [OF 2(1)]
    have p: "p < bx_end c" "p < bx_body c" "p < stop" using d by simp_all
    have one: "length b1 = length b \<and> (\<forall>i. i < p \<or> bx_end c \<le> i \<longrightarrow> byte_at b1 i = byte_at b i)
      \<and> (if entered b c then same_bytes b b1 p (bx_body c) \<and> moov_stripped b b1 (bx_body c) (bx_end c) z
         else leaf_stripped b b1 c z)"
    proof (cases "entered b c")
      case True
      have "walk_moov fragmented b (bx_body c) (bx_end c) = Inr (b1, z)" using 2(2) walk_entered [OF True] by simp
      then have "length b1 = length b \<and> moov_stripped b b1 (bx_body c) (bx_end c) z
          \<and> (\<forall>i. i < bx_body c \<or> bx_end c \<le> i \<longrightarrow> byte_at b1 i = byte_at b i)"
        by (intro less.hyps) (use d p less.prems(2) in auto)
      then show ?thesis using True p by (auto simp: same_bytes_def)
    next
      case False
      show ?thesis using walk_leaf [OF 2(2) False] d False less.prems(2) by auto
    qed
    have two: "length b' = length b1 \<and> moov_stripped b1 b' (bx_end c) stop rest
        \<and> (\<forall>i. i < bx_end c \<or> stop \<le> i \<longrightarrow> byte_at b' i = byte_at b1 i)"
      by (intro less.hyps) (use d p less.prems(2) 2(3) one in auto)
    have rest: "moov_stripped b b' (bx_end c) stop rest"
      by (rule moov_stripped_same [where b = b1 and b' = b']) (use two one in \<open>auto simp: same_bytes_def\<close>)
    have same2: "same_bytes b1 b' p (bx_end c)" using two by (simp add: same_bytes_def)
    have "moov_stripped b b' p stop (z @ rest)"
    proof (cases "entered b c")
      case True
      have "moov_stripped b b' (bx_body c) (bx_end c) z"
        by (rule moov_stripped_same [where b = b and b' = b1])
          (use one True same2 p in \<open>auto intro: same_bytes_sub\<close>)
      then show ?thesis
        using moov_stripped.enter [OF 2(1) True] rest one True same2 p d by (auto simp: same_bytes_def)
    next
      case False
      have "leaf_stripped b b' c z"
        by (rule leaf_stripped_same [where b = b and b' = b1]) (use one False same2 d in auto)
      then show ?thesis by (rule moov_stripped.leaf [OF 2(1) _ rest])
    qed
    moreover have "byte_at b' i = byte_at b i" if "i < p \<or> stop \<le> i" for i
      using that one two d p by auto
    ultimately show ?thesis using one two 2(4) by simp
  qed
qed

section \<open>A stripped file\<close>

definition iso_unwanted :: "box \<Rightarrow> bool" where
  "iso_unwanted c \<longleftrightarrow> bx_type c \<in> set ISO_META_BOXES \<or> bx_type c \<in> set ISO_TOP_EXTRA"

text \<open>The boxes of the file, from a position on.\<close>

fun iso_tiles :: "octets \<Rightarrow> nat \<Rightarrow> box list \<Rightarrow> bool" where
  "iso_tiles f p [] \<longleftrightarrow> length f \<le> p"
| "iso_tiles f p (c # cs) \<longleftrightarrow>
     p < length f \<and> file_box f p = Inr (slice f p (p + 16), c) \<and> iso_tiles f (bx_end c) cs"

text \<open>What became of one of them; \<open>zs\<close> are the samples of the dropped tracks.\<close>

definition iso_box_stripped :: "octets \<Rightarrow> octets \<Rightarrow> (nat \<times> nat) list \<Rightarrow> box \<Rightarrow> bool" where
  "iso_box_stripped f g zs c \<longleftrightarrow>
     (if iso_unwanted c then freed f g c
      else if bx_type c = ''moov'' then
        same_bytes f g (bx_start c) (bx_body c)
        \<and> moov_stripped (slice f (bx_start c) (bx_end c)) (slice g (bx_start c) (bx_end c)) (bx_header c)
            (bx_end c - bx_start c) zs
      else \<forall>i. bx_start c \<le> i \<and> i < bx_end c \<longrightarrow>
        byte_at g i = (if bx_type c = ''mdat'' \<and> in_spans zs i then 0 else byte_at f i))"

lemma file_box_head: "file_box f p = Inr (head, c) \<Longrightarrow> head = slice f p (p + 16)"
  by (auto simp: file_box_def readAt_Inr slice_def min_def)

lemma iso_tiles_place:
  "iso_tiles f p cs \<Longrightarrow> c \<in> set cs \<Longrightarrow>
     p \<le> bx_start c \<and> bx_start c + 8 \<le> bx_body c \<and> bx_body c \<le> bx_end c \<and> bx_end c \<le> length f
     \<and> file_box f (bx_start c) = Inr (slice f (bx_start c) (bx_start c + 16), c)"
proof (induction cs arbitrary: p)
  case (Cons c' cs)
  have "file_box f p = Inr (slice f p (p + 16), c')" "p < length f" using Cons.prems(1) by simp_all
  then show ?case
    using Cons.IH [of "bx_end c'"] Cons.prems file_box_place [of f p _ c'] by fastforce
qed simp

lemma iso_tiles_disjoint:
  "iso_tiles f p cs \<Longrightarrow> c \<in> set cs \<Longrightarrow> d \<in> set cs \<Longrightarrow> bx_start c \<le> i \<Longrightarrow> i < bx_end c \<Longrightarrow> bx_start d \<le> i \<Longrightarrow>
     i < bx_end d \<Longrightarrow> c = d"
proof (induction cs arbitrary: p)
  case (Cons c' cs)
  have later: "bx_end c' \<le> bx_start e" if "e \<in> set cs" for e using iso_tiles_place [of f _ cs e] Cons.prems(1) that by auto
  show ?case
    using Cons.IH [of "bx_end c'"] Cons.prems later [of c] later [of d] by auto
qed simp

lemma top_box_notes:
  assumes "top_box head c st = Inr st'"
  shows "is_edits st' = is_edits st @ (if iso_unwanted c then free_edits head c else [])"
    and "is_mdats st' = is_mdats st @ (if bx_type c = ''mdat'' then [(bx_body c, bx_end c)] else [])"
    and "if bx_type c = ''moov'' then is_moov st = None \<and> is_moov st' = Some c else is_moov st' = is_moov st"
proof -
  consider "bx_type c = ''moov''" | "bx_type c = ''mdat''" | "bx_type c = ''moof''"
    | "bx_type c \<noteq> ''moov''" "bx_type c \<noteq> ''mdat''" "bx_type c \<noteq> ''moof''" by blast
  then show "is_edits st' = is_edits st @ (if iso_unwanted c then free_edits head c else [])"
    and "is_mdats st' = is_mdats st @ (if bx_type c = ''mdat'' then [(bx_body c, bx_end c)] else [])"
    and "if bx_type c = ''moov'' then is_moov st = None \<and> is_moov st' = Some c else is_moov st' = is_moov st"
    by (cases; use assms in \<open>force simp: top_box_def iso_unwanted_def ISO_META_BOXES_def ISO_TOP_EXTRA_def split: if_splits\<close>)+
qed

lemma top_boxes_tiles:
  "top_boxes f p st = Inr st' \<Longrightarrow>
     \<exists>cs. iso_tiles f p cs
       \<and> is_edits st' = is_edits st @ concat (map (\<lambda>c. free_edits (slice f (bx_start c) (bx_start c + 16)) c) (filter iso_unwanted cs))
       \<and> is_mdats st' = is_mdats st @ map (\<lambda>c. (bx_body c, bx_end c)) (filter (\<lambda>c. bx_type c = ''mdat'') cs)
       \<and> (case is_moov st of
            Some m \<Rightarrow> is_moov st' = Some m \<and> filter (\<lambda>c. bx_type c = ''moov'') cs = []
          | None \<Rightarrow> filter (\<lambda>c. bx_type c = ''moov'') cs = (case is_moov st' of None \<Rightarrow> [] | Some m \<Rightarrow> [m]))"
proof (induction f p st rule: top_boxes.induct)
  case (1 f p st)
  show ?case
  proof (cases "p < length f")
    case False
    then show ?thesis using "1.prems" by (intro exI [of _ "[]"]) (simp add: top_boxes.simps split: option.splits)
  next
    case True
    obtain head c st1 where c: "file_box f p = Inr (head, c)" and st1: "top_box head c st = Inr st1"
        and rest: "top_boxes f (bx_end c) st1 = Inr st'"
      using "1.prems" True unfolding top_boxes.simps [of f p] by auto
    have head: "head = slice f (bx_start c) (bx_start c + 16)" "bx_start c = p"
      using file_box_head [OF c] file_box_place [OF c] True by simp_all
    obtain cs where cs: "iso_tiles f (bx_end c) cs"
        "is_edits st' = is_edits st1 @ concat (map (\<lambda>c. free_edits (slice f (bx_start c) (bx_start c + 16)) c) (filter iso_unwanted cs))"
        "is_mdats st' = is_mdats st1 @ map (\<lambda>c. (bx_body c, bx_end c)) (filter (\<lambda>c. bx_type c = ''mdat'') cs)"
        "case is_moov st1 of
            Some m \<Rightarrow> is_moov st' = Some m \<and> filter (\<lambda>c. bx_type c = ''moov'') cs = []
          | None \<Rightarrow> filter (\<lambda>c. bx_type c = ''moov'') cs = (case is_moov st' of None \<Rightarrow> [] | Some m \<Rightarrow> [m])"
      using "1.IH" [OF _ c refl st1 rest] True by auto
    have "iso_tiles f p (c # cs)" using True c head cs(1) by simp
    then show ?thesis
      using cs(2-4) top_box_notes [OF st1] head(1)
      by (intro exI [of _ "c # cs"]) (cases "is_moov st"; auto split: if_splits)
  qed
qed

lemma parseBox_header: "parseBox b p limit base = Inr c \<Longrightarrow> bx_header c \<le> 16"
  by (auto simp: parseBox_def Let_def split: if_splits)

lemma free_edits_covered:
  assumes "file_box f p = Inr (head, c)" "p < length f"
  shows "covered (free_edits head c) i x \<longleftrightarrow> bx_start c \<le> i \<and> i < bx_end c \<and>
    unat x = (if bx_start c + 4 \<le> i \<and> i < bx_start c + 8 then byte_at free_type (i - (bx_start c + 4))
              else if i < bx_body c then byte_at f i else 0)"
proof -
  let ?xs = "overwrite (take (bx_header c) head) 4 free_type"
  have pl: "bx_start c = p" "p + 8 \<le> bx_body c" "bx_body c \<le> bx_end c" "bx_end c \<le> length f"
    using file_box_place [OF assms(1)] assms(2) by simp_all
  have h16: "bx_header c \<le> 16" "8 \<le> bx_header c"
    using assms(1) pl(1,2) by (auto simp: file_box_def bx_body_def dest: parseBox_header)
  have hd': "length (take (bx_header c) head) = bx_header c" "length free_type = 4"
    using file_box_head [OF assms(1)] pl h16 by (simp_all add: bx_body_def free_type_def)
  then have len: "length ?xs = bx_header c" using h16 by (simp add: length_overwrite)
  have byte: "byte_at (take (bx_header c) head) j = byte_at f (p + j)" if "j < bx_header c" for j
    using that h16(1) pl file_box_head [OF assms(1)] by (simp add: byte_at_def bx_body_def slice_nth)
  have x: "x = ?xs ! j \<longleftrightarrow> unat x = (if 4 \<le> j \<and> j < 8 then byte_at free_type (j - 4) else byte_at f (p + j))"
    if "j < bx_header c" for j
  proof -
    have "unat (?xs ! j) = byte_at ?xs j" using that len by (simp add: byte_at_def)
    also have "\<dots> = (if 4 \<le> j \<and> j < 8 then byte_at free_type (j - 4) else byte_at f (p + j))"
      using that h16(2) hd' byte by (simp add: byte_at_overwrite)
    finally show ?thesis by (metis word_unat_eq_iff)
  qed
  consider "i < p" | j where "i = p + j" "j < bx_header c" | "bx_body c \<le> i"
    by (metis bx_body_def le_add_diff_inverse nat_add_left_cancel_less not_le pl(1))
  then show ?thesis
    by cases
      (use x len pl h16 in \<open>auto simp: free_edits_def edit_end_def bx_body_def unat_eq_zero\<close>)
qed

lemma covered_concat: "covered (concat (map F cs)) i x \<longleftrightarrow> (\<exists>c\<in>set cs. covered (F c) i x)"
  by (induction cs) auto

lemma covered_zero_map: "covered (map (\<lambda>(s, e). Zeros s (e - s)) zs) i x \<longleftrightarrow> in_spans zs i \<and> x = 0"
  by (induction zs) (auto simp: edit_end_def)

text \<open>Which edit lays the bytes of a box of the file.\<close>

lemma iso_edits_covered:
  assumes "iso_tiles f 0 cs" "filter (\<lambda>c. bx_type c = ''moov'') cs = [m]" "length buf = bx_end m - bx_start m"
    and "\<forall>(s, e)\<in>set zs. \<exists>d\<in>set cs. bx_type d = ''mdat'' \<and> bx_body d \<le> s \<and> e \<le> bx_end d"
    and "c \<in> set cs" "bx_start c \<le> i" "i < bx_end c"
  shows "covered (concat (map (\<lambda>c. free_edits (slice f (bx_start c) (bx_start c + 16)) c) (filter iso_unwanted cs))
        @ [Bytes (bx_start m) buf] @ map (\<lambda>(s, e). Zeros s (e - s)) zs) i x \<longleftrightarrow>
      iso_unwanted c \<and> covered (free_edits (slice f (bx_start c) (bx_start c + 16)) c) i x
      \<or> c = m \<and> x = buf ! (i - bx_start m)
      \<or> bx_type c = ''mdat'' \<and> in_spans zs i \<and> x = 0"
proof -
  have here: "d = c" if "d \<in> set cs" "bx_start d \<le> i" "i < bx_end d" for d
    using iso_tiles_disjoint [OF assms(1) that(1) assms(5)] that assms(6,7) by blast
  have m: "m \<in> set cs" "bx_start m \<le> bx_end m"
    using assms(2) iso_tiles_place [OF assms(1), of m] by (auto dest: filter_eq_ConsD)
  have A: "(\<exists>d\<in>set (filter iso_unwanted cs). covered (free_edits (slice f (bx_start d) (bx_start d + 16)) d) i x)
      \<longleftrightarrow> iso_unwanted c \<and> covered (free_edits (slice f (bx_start c) (bx_start c + 16)) c) i x"
  proof -
    have "d = c" if "d \<in> set cs" "covered (free_edits (slice f (bx_start d) (bx_start d + 16)) d) i x" for d
    proof (rule here [OF that(1)])
      show "bx_start d \<le> i" "i < bx_end d"
        using iso_tiles_place [OF assms(1) that(1)] free_edits_covered [of f "bx_start d" _ d i x] that(2) by simp_all
    qed
    then show ?thesis using assms(5) unfolding set_filter by blast
  qed
  have B: "covered [Bytes (bx_start m) buf] i x \<longleftrightarrow> c = m \<and> x = buf ! (i - bx_start m)"
    using here [OF m(1)] m(2) assms(3,6,7) by (auto simp: edit_end_def)
  have C: "bx_type c = ''mdat''" if sp: "in_spans zs i"
  proof -
    obtain d where "d \<in> set cs" "bx_type d = ''mdat''" "bx_body d \<le> i" "i < bx_end d"
      using sp assms(4) by (fastforce simp: in_spans_def)
    then show ?thesis using here [of d] by (simp add: bx_body_def)
  qed
  show ?thesis
    unfolding covered_simps(3) covered_concat covered_zero_map A B using C by auto
qed

text \<open>The parts of a run that returns.\<close>

lemma stripIsoBmff_parts:
  assumes "stripIsoBmff f = Inr g"
  obtains cs m frag buf zs where "iso_tiles f 0 cs" "filter (\<lambda>c. bx_type c = ''moov'') cs = [m]"
    "stripMoov (slice f (bx_start m) (bx_end m)) (m\<lparr>bx_start := 0, bx_end := bx_end m - bx_start m\<rparr>) frag = Inr (buf, zs)"
    "\<forall>(s, e)\<in>set zs. \<exists>d\<in>set cs. bx_type d = ''mdat'' \<and> bx_body d \<le> s \<and> e \<le> bx_end d"
    "assemble f (concat (map (\<lambda>c. free_edits (slice f (bx_start c) (bx_start c + 16)) c) (filter iso_unwanted cs))
       @ [Bytes (bx_start m) buf] @ map (\<lambda>(s, e). Zeros s (e - s)) zs) 0 (length f) = Inr g"
proof -
  obtain st where st: "top_boxes f 0 iso_start = Inr st"
    using assms by (cases "top_boxes f 0 iso_start") (simp_all add: stripIsoBmff_def)
  obtain m where m: "is_moov st = Some m"
    using assms st by (cases "is_moov st") (simp_all add: stripIsoBmff_def)
  obtain buf zs where buf: "stripMoov (slice f (bx_start m) (bx_start m + (bx_end m - bx_start m)))
        (m\<lparr>bx_start := 0, bx_end := bx_end m - bx_start m\<rparr>) (is_fragmented st) = Inr (buf, zs)"
      and inside: "list_all (\<lambda>(s, e). list_ex (\<lambda>(ms, me). ms \<le> s \<and> e \<le> me) (is_mdats st)) zs"
      and g: "assemble f (is_edits st @ [Bytes (bx_start m) buf] @ map (\<lambda>(s, e). Zeros s (e - s)) zs) 0 (length f) = Inr g"
    using assms st m by (auto simp: stripIsoBmff_def Let_def readAt_Inr split: if_splits)
  obtain cs where cs: "iso_tiles f 0 cs"
      "is_edits st = concat (map (\<lambda>c. free_edits (slice f (bx_start c) (bx_start c + 16)) c) (filter iso_unwanted cs))"
      "is_mdats st = map (\<lambda>c. (bx_body c, bx_end c)) (filter (\<lambda>c. bx_type c = ''mdat'') cs)"
      "filter (\<lambda>c. bx_type c = ''moov'') cs = [m]"
    using top_boxes_tiles [OF st] m by (auto simp: iso_start_def)
  have "\<forall>(s, e)\<in>set zs. \<exists>d\<in>set cs. bx_type d = ''mdat'' \<and> bx_body d \<le> s \<and> e \<le> bx_end d"
    using inside cs(3) by (fastforce simp: list_all_iff list_ex_iff)
  moreover have "m \<in> set cs" using cs(4) by (auto dest: filter_eq_ConsD)
  then have "bx_start m + (bx_end m - bx_start m) = bx_end m" using iso_tiles_place [OF cs(1), of m] by simp
  ultimately show thesis using that cs buf g by simp
qed

text \<open>What is laid over a box makes it a stripped one.\<close>

lemma iso_box_laid:
  assumes place: "bx_start c + 8 \<le> bx_body c" "bx_body c \<le> bx_end c" "bx_end c \<le> length f" "length g = length f"
      "file_box f (bx_start c) = Inr (head, c)"
    and laid: "\<And>i. bx_start c \<le> i \<Longrightarrow> i < bx_end c \<Longrightarrow> P i (g ! i) \<or> (\<nexists>x. P i x) \<and> g ! i = f ! i"
    and P: "\<And>i x. bx_start c \<le> i \<Longrightarrow> i < bx_end c \<Longrightarrow> P i x \<longleftrightarrow> iso_unwanted c \<and> covered (free_edits head c) i x
      \<or> bx_type c = ''moov'' \<and> x = buf ! (i - bx_start c) \<or> bx_type c = ''mdat'' \<and> in_spans zs i \<and> x = 0"
    and moov: "bx_type c = ''moov'' \<Longrightarrow> length buf = bx_end c - bx_start c
      \<and> moov_stripped (slice f (bx_start c) (bx_end c)) buf (bx_header c) (bx_end c - bx_start c) zs
      \<and> (\<forall>i < bx_header c. byte_at buf i = byte_at (slice f (bx_start c) (bx_end c)) i)"
  shows "iso_box_stripped f g zs c"
proof -
  have byte: "byte_at g i = unat (g ! i)" "byte_at f i = unat (f ! i)" if "i < bx_end c" for i
    using that place by (simp_all add: byte_at_def)
  consider (bad) "iso_unwanted c" | (moov) "\<not> iso_unwanted c" "bx_type c = ''moov''"
    | (other) "\<not> iso_unwanted c" "bx_type c \<noteq> ''moov''" by blast
  then show ?thesis
  proof cases
    case bad
    then have ty: "bx_type c \<noteq> ''moov''" "bx_type c \<noteq> ''mdat''"
      by (auto simp: iso_unwanted_def ISO_META_BOXES_def ISO_TOP_EXTRA_def)
    have "byte_at g i = (if bx_start c + 4 \<le> i \<and> i < bx_start c + 8 then byte_at free_type (i - (bx_start c + 4))
        else if i < bx_body c then byte_at f i else 0)" (is "_ = ?v") if i: "bx_start c \<le> i" "i < bx_end c" for i
    proof -
      have P': "P i x \<longleftrightarrow> unat x = ?v" for x
        using P [OF i] free_edits_covered [OF place(5), of i x] bad ty place i by simp
      have "P i (octet_of ?v)" unfolding P' by simp
      then have "P i (g ! i)" using laid [OF i] by blast
      then show ?thesis using P' byte(1) [OF i(2)] by simp
    qed
    then show ?thesis using bad by (simp add: iso_box_stripped_def freed_def)
  next
    case moov
    note m = assms(8) [OF moov(2)]
    have at': "g ! i = buf ! (i - bx_start c)" if i: "bx_start c \<le> i" "i < bx_end c" for i
      using laid [OF i] P [OF i] moov by auto
    have "slice g (bx_start c) (bx_end c) = buf"
      using m place at' by (intro nth_equalityI) (auto simp: slice_nth)
    moreover have "byte_at g i = byte_at f i" if i: "bx_start c \<le> i" "i < bx_body c" for i
    proof -
      have lt: "i < bx_end c" using i place by simp
      have "byte_at g i = byte_at buf (i - bx_start c)" using at' [OF i(1) lt] byte(1) [OF lt] m i lt
        by (simp add: byte_at_def [of buf] diff_less_mono)
      also have "\<dots> = byte_at (slice f (bx_start c) (bx_end c)) (i - bx_start c)"
        using m i by (simp add: bx_body_def less_diff_conv2)
      also have "\<dots> = byte_at f i" using byte_at_slice [of "i - bx_start c" "bx_end c" "bx_start c" f] i lt place by simp
      finally show ?thesis .
    qed
    ultimately show ?thesis using moov m by (simp add: iso_box_stripped_def same_bytes_def)
  next
    case other
    have "g ! i = (if bx_type c = ''mdat'' \<and> in_spans zs i then 0 else f ! i)" if i: "bx_start c \<le> i" "i < bx_end c" for i
      using laid [OF i] P [OF i] other by auto
    then show ?thesis using other byte by (simp add: iso_box_stripped_def)
  qed
qed

text \<open>
  (C16) Stripping an mp4, m4a or mov file. What \<open>stripIsoBmff\<close> returns has the length of the file and the same boxes at the
  same places. A metadata or padding box is a \<open>free\<close> box of zeros; inside the one \<open>moov\<close>, metadata boxes and tracks that
  are neither video nor sound are freed, times are zeroed and every other box is unchanged; the samples of the freed tracks,
  which all lie in an \<open>mdat\<close>, are zeros, and every other byte of the media is the original's.
\<close>

theorem iso_file_stripped:
  assumes "stripIsoBmff f = Inr g"
  shows "length g = length f \<and> (\<exists>cs zs. iso_tiles f 0 cs \<and> length (filter (\<lambda>c. bx_type c = ''moov'') cs) = 1
    \<and> list_all (iso_box_stripped f g zs) cs
    \<and> (\<forall>(s, e)\<in>set zs. \<exists>d\<in>set cs. bx_type d = ''mdat'' \<and> bx_body d \<le> s \<and> e \<le> bx_end d))"
proof -
  obtain cs m frag buf zs where cs: "iso_tiles f 0 cs" "filter (\<lambda>c. bx_type c = ''moov'') cs = [m]"
      and buf: "stripMoov (slice f (bx_start m) (bx_end m)) (m\<lparr>bx_start := 0, bx_end := bx_end m - bx_start m\<rparr>) frag
        = Inr (buf, zs)"
      and mdats: "\<forall>(s, e)\<in>set zs. \<exists>d\<in>set cs. bx_type d = ''mdat'' \<and> bx_body d \<le> s \<and> e \<le> bx_end d"
      and g: "assemble f (concat (map (\<lambda>c. free_edits (slice f (bx_start c) (bx_start c + 16)) c) (filter iso_unwanted cs))
        @ [Bytes (bx_start m) buf] @ map (\<lambda>(s, e). Zeros s (e - s)) zs) 0 (length f) = Inr g"
    using stripIsoBmff_parts [OF assms] by blast
  define E where "E = concat (map (\<lambda>c. free_edits (slice f (bx_start c) (bx_start c + 16)) c) (filter iso_unwanted cs))
        @ [Bytes (bx_start m) buf] @ map (\<lambda>(s, e). Zeros s (e - s)) zs"
  have "m \<in> set cs" using cs(2) by (auto dest: filter_eq_ConsD)
  note pm = iso_tiles_place [OF cs(1) this]
  have n: "length (slice f (bx_start m) (bx_end m)) = bx_end m - bx_start m" "length g = length f"
    using pm assemble_pointwise(1) [OF g] by (simp_all add: min_absorb1 diff_le_mono)
  have walk: "length buf = bx_end m - bx_start m"
      "moov_stripped (slice f (bx_start m) (bx_end m)) buf (bx_header m) (bx_end m - bx_start m) zs"
      "\<forall>i < bx_header m. byte_at buf i = byte_at (slice f (bx_start m) (bx_end m)) i"
    using walk_moov_strips [OF buf [unfolded stripMoov_def]] n by (simp_all add: bx_body_def)
  have "iso_box_stripped f g zs c" if c: "c \<in> set cs" for c
  proof -
    note pc = iso_tiles_place [OF cs(1) c]
    have "c \<in> set (filter (\<lambda>c. bx_type c = ''moov'') cs) \<longleftrightarrow> bx_type c = ''moov''" using c by simp
    then have m: "bx_type c = ''moov'' \<longleftrightarrow> c = m" unfolding cs(2) by simp
    have lay: "covered E i (g ! i) \<or> (\<nexists>x. covered E i x) \<and> g ! i = f ! i"
      if "bx_start c \<le> i" "i < bx_end c" for i
      using assemble_pointwise(2) [OF g, of i] that pc unfolding E_def by simp
    have cov: "covered E i x \<longleftrightarrow> iso_unwanted c \<and> covered (free_edits (slice f (bx_start c) (bx_start c + 16)) c) i x
        \<or> bx_type c = ''moov'' \<and> x = buf ! (i - bx_start c) \<or> bx_type c = ''mdat'' \<and> in_spans zs i \<and> x = 0"
      if "bx_start c \<le> i" "i < bx_end c" for i x
      using iso_edits_covered [OF cs walk(1) mdats c that, of x] m unfolding E_def by auto
    show ?thesis
      by (rule iso_box_laid [OF _ _ _ n(2) _ lay cov]) (use pc m walk in auto)
  qed
  then show ?thesis
    using cs mdats n(2) by (intro conjI exI [of _ cs] exI [of _ zs]) (simp_all add: list_all_iff)
qed

text \<open>A file whose \<open>moov\<close> holds a \<open>udta\<close> of one byte, before an \<open>mdat\<close> of one byte.\<close>

definition tiny_mp4 :: octets where
  "tiny_mp4 = [0, 0, 0, 17, 0x6d, 0x6f, 0x6f, 0x76, 0, 0, 0, 9, 0x75, 0x64, 0x74, 0x61, 7,
     0, 0, 0, 9, 0x6d, 0x64, 0x61, 0x74, 5]"

definition tiny_mp4_stripped :: octets where
  "tiny_mp4_stripped = [0, 0, 0, 17, 0x6d, 0x6f, 0x6f, 0x76, 0, 0, 0, 9, 0x66, 0x72, 0x65, 0x65, 0,
     0, 0, 0, 9, 0x6d, 0x64, 0x61, 0x74, 5]"

lemma tiny_mp4_boxes:
  "file_box tiny_mp4 0 = Inr (take 16 tiny_mp4, \<lparr>bx_type = ''moov'', bx_start = 0, bx_header = 8, bx_end = 17\<rparr>)"
  "file_box tiny_mp4 17 = Inr (drop 17 tiny_mp4, \<lparr>bx_type = ''mdat'', bx_start = 17, bx_header = 8, bx_end = 26\<rparr>)"
  "isoChildren (take 17 tiny_mp4) 8 17 = Inr (Some \<lparr>bx_type = ''udta'', bx_start = 8, bx_header = 8, bx_end = 17\<rparr>)"
  by (simp_all add: file_box_def isoChildren_def readAt_def parseBox_def Let_def slice_def ascii_def byte_at_def u32be_def
      tiny_mp4_def upt_rec char_of_def bit_Suc_0_iff)

lemma tiny_mp4_strips: "stripIsoBmff tiny_mp4 = Inr tiny_mp4_stripped"
proof -
  let ?moov = "\<lparr>bx_type = ''moov'', bx_start = 0, bx_header = 8, bx_end = 17\<rparr>"
  let ?udta = "\<lparr>bx_type = ''udta'', bx_start = 8, bx_header = 8, bx_end = 17\<rparr>"
  let ?buf = "take 17 tiny_mp4_stripped"
  have len: "length tiny_mp4 = 26" by (simp add: tiny_mp4_def)
  have top: "top_boxes tiny_mp4 0 iso_start
      = Inr \<lparr>is_moov = Some ?moov, is_mdats = [(25, 26)], is_fragmented = False, is_edits = []\<rparr>"
    by (simp add: top_boxes.simps [of _ 0] top_boxes.simps [of _ 17] top_boxes.simps [of _ 26] tiny_mp4_boxes top_box_def
        iso_start_def len bx_body_def)
  have freed: "freeBoxInPlace (take 17 tiny_mp4) ?udta = ?buf"
    by (simp add: freeBoxInPlace_def overwrite_def bx_body_def free_type_def tiny_mp4_def tiny_mp4_stripped_def)
  have "walk_moov False (take 17 tiny_mp4) 8 17 = Inr (?buf, [])"
    by (simp add: walk_moov.simps [of _ _ 8] walk_moov.simps [of _ _ 17] tiny_mp4_boxes ISO_META_BOXES_def freed)
      (simp add: isoChildren_def)
  moreover have "assemble tiny_mp4 [Bytes 0 ?buf] 0 26 = Inr tiny_mp4_stripped"
    by (subst assemble_in_order)
      (simp_all add: edit_end_def slice_def tiny_mp4_def tiny_mp4_stripped_def)
  ultimately show ?thesis
    by (simp add: stripIsoBmff_def top len readAt_def slice_def MAX_MOOV_BYTES_def stripMoov_def bx_body_def Let_def)
qed

lemma iso_file_stripped_witness:
  "length tiny_mp4_stripped = length tiny_mp4
    \<and> (\<exists>cs zs. iso_tiles tiny_mp4 0 cs \<and> length (filter (\<lambda>c. bx_type c = ''moov'') cs) = 1
    \<and> list_all (iso_box_stripped tiny_mp4 tiny_mp4_stripped zs) cs
    \<and> (\<forall>(s, e)\<in>set zs. \<exists>d\<in>set cs. bx_type d = ''mdat'' \<and> bx_body d \<le> s \<and> e \<le> bx_end d))"
  by (rule iso_file_stripped [OF tiny_mp4_strips])

end
