(* ===== verification/Fencing.thy ===== *)
theory Fencing
  imports Prelude
begin

text \<open>
  The fence around attendee-authored text in a prompt (\<open>packages/coordinator/src/pipeline/fencing.ts\<close>).

  A text is the list of its UTF-16 code units, as the regular expressions and \<open>slice\<close> of the language see it;
  \<open>units\<close> turns an ASCII literal into one. The lemmas say what a fenced text cannot contain
  (\<open>fenced_has_no_structure\<close>), that fencing twice is fencing once, and that plain text passes unchanged. Two headings
  the reverse scoring prompt itself uses pass the fence (\<open>reverse_headings_pass\<close>).
\<close>

section \<open>Texts\<close>

type_synonym utext = "nat list"

definition units :: "string \<Rightarrow> utext" where
  "units s = map of_char s"

definition newline :: nat where "newline = 10"

text \<open>\<open>\s\<close> and the characters \<open>trim\<close> removes.\<close>

definition is_space :: "nat \<Rightarrow> bool" where
  "is_space u \<longleftrightarrow> 9 \<le> u \<and> u \<le> 13 \<or> 8192 \<le> u \<and> u \<le> 8202 \<or> u \<in> {32, 160, 5760, 8232, 8233, 8239, 8287, 12288, 65279}"

definition is_unit_digit :: "nat \<Rightarrow> bool" where
  "is_unit_digit u \<longleftrightarrow> 48 \<le> u \<and> u \<le> 57"

definition text_trim :: "utext \<Rightarrow> utext" where
  "text_trim t = rev (dropWhile is_space (rev (dropWhile is_space t)))"

definition upper_unit :: "nat \<Rightarrow> nat" where
  "upper_unit u = (if 97 \<le> u \<and> u \<le> 122 then u - 32 else u)"

fun split_on :: "nat \<Rightarrow> utext \<Rightarrow> utext list" where
  "split_on x [] = [[]]"
| "split_on x (u # us) =
     (if u = x then [] # split_on x us
      else (case split_on x us of l # ls \<Rightarrow> (u # l) # ls | [] \<Rightarrow> [[u]]))"

fun join_with :: "utext \<Rightarrow> utext list \<Rightarrow> utext" where
  "join_with sep [] = []"
| "join_with sep [l] = l"
| "join_with sep (l # m # ms) = l @ sep @ join_with sep (m # ms)"

lemma split_on_ne [simp]: "split_on x t \<noteq> []"
  by (induction t) (auto split: list.splits)

lemma split_on_no: "l \<in> set (split_on x t) \<Longrightarrow> x \<notin> set l"
  by (induction t arbitrary: l) (auto split: list.splits if_splits)

lemma split_on_set: "l \<in> set (split_on x t) \<Longrightarrow> set l \<subseteq> set t"
  by (induction t arbitrary: l) (fastforce split: list.splits if_splits)+

lemma split_on_single: "x \<notin> set l \<Longrightarrow> split_on x l = [l]"
  by (induction l) auto

lemma split_on_append: "x \<notin> set l \<Longrightarrow> split_on x (l @ x # t) = l # split_on x t"
  by (induction l) auto

lemma split_join [simp]:
  "ls \<noteq> [] \<Longrightarrow> (\<forall>l\<in>set ls. x \<notin> set l) \<Longrightarrow> split_on x (join_with [x] ls) = ls"
  by (induction "[x]" ls rule: join_with.induct) (auto simp: split_on_single split_on_append)

lemma join_split [simp]: "join_with [x] (split_on x t) = t"
proof (induction t)
  case (Cons u us)
  obtain l ls where "split_on x us = l # ls" using split_on_ne by (metis neq_Nil_conv)
  then show ?case using Cons by (cases ls) auto
qed simp

section \<open>The fence\<close>

definition STRUCTURAL_HEADERS :: "utext list" where
  "STRUCTURAL_HEADERS = map units
     [''TARGET ATTENDEE'', ''TARGET'', ''SHARED CANDIDATE'', ''CANDIDATES'', ''CANDIDATE'', ''INTRO/TALK TRANSCRIPT'',
      ''SELF-DESCRIBED PROFILE'', ''PUBLIC NOSTR ACTIVITY'', ''EVENT'', ''SYSTEM'', ''ASSISTANT'', ''USER'', ''INSTRUCTIONS'']"

text \<open>\<open>HEADER_RE\<close>: the parts of the pattern are disjoint, so a greedy read is the only one.\<close>

definition header_tail :: "utext \<Rightarrow> bool" where
  "header_tail t \<longleftrightarrow>
     (case dropWhile is_space (dropWhile is_unit_digit (dropWhile is_space t)) of u # _ \<Rightarrow> u = 58 | [] \<Rightarrow> False)"

definition header_line :: "utext \<Rightarrow> bool" where
  "header_line l \<longleftrightarrow>
     (let t = dropWhile is_space l
      in list_ex (\<lambda>h. map upper_unit (take (length h) t) = h \<and> header_tail (drop (length h) t)) STRUCTURAL_HEADERS)"

text \<open>\<open>RULE_RE\<close>, and the replacement of a run by its characters with spaces between.\<close>

definition is_rule :: "nat \<Rightarrow> bool" where
  "is_rule u \<longleftrightarrow> u \<in> {45, 95, 61}"

definition spaced :: "utext \<Rightarrow> utext" where
  "spaced r = join_with [32] (map (\<lambda>u. [u]) r)"

function defuse_rules :: "utext \<Rightarrow> utext" where
  "defuse_rules t =
     (case t of [] \<Rightarrow> []
      | u # us \<Rightarrow>
          (let r = takeWhile is_rule t
           in if r = [] then u # defuse_rules us
              else (if 3 \<le> length r then spaced r else r) @ defuse_rules (drop (length r) t)))"
  by auto
termination
  by (relation "measure length") auto

declare defuse_rules.simps [simp del]

definition INVISIBLE_RANGES :: "(nat \<times> nat) list" where
  "INVISIBLE_RANGES =
     [(0x00, 0x08), (0x0b, 0x1f), (0x7f, 0x9f), (0x200b, 0x200f), (0x2028, 0x2029), (0x202a, 0x202e),
      (0x2060, 0x2064), (0x2066, 0x2069), (0xfeff, 0xfeff)]"

definition invisible :: "nat \<Rightarrow> bool" where
  "invisible u \<longleftrightarrow> list_ex (\<lambda>(a, b). a \<le> u \<and> u \<le> b) INVISIBLE_RANGES"

fun fold_returns :: "utext \<Rightarrow> utext" where
  "fold_returns [] = []"
| "fold_returns [u] = [if u = 13 then newline else u]"
| "fold_returns (u # v # us) =
     (if u = 13 then newline # fold_returns (if v = newline then us else v # us) else u # fold_returns (v # us))"

definition fence_line :: "utext \<Rightarrow> utext" where
  "fence_line l =
     (let defused = defuse_rules l
      in if header_line defused then units ''> '' @ dropWhile is_space defused else defused)"

definition fenceUntrusted :: "utext \<Rightarrow> utext" where
  "fenceUntrusted t =
     (if t = [] then t
      else let cleaned = filter (\<lambda>u. \<not> invisible u) (fold_returns t)
           in join_with [newline] (map fence_line (split_on newline cleaned)))"

section \<open>What a fenced text cannot contain\<close>

text \<open>No three rule characters in a row.\<close>

fun rule_free :: "utext \<Rightarrow> bool" where
  "rule_free (u # v # w # us) \<longleftrightarrow> \<not> (is_rule u \<and> is_rule v \<and> is_rule w) \<and> rule_free (v # w # us)"
| "rule_free _ \<longleftrightarrow> True"

lemma rule_free_Cons: "rule_free (u # t) \<Longrightarrow> rule_free t"
  by (cases "u # t" rule: rule_free.cases) auto

lemma rule_free_cons: "\<not> is_rule u \<Longrightarrow> rule_free t \<Longrightarrow> rule_free (u # t)"
  by (cases "u # t" rule: rule_free.cases) auto

lemma not_rule_space [simp]: "\<not> is_rule 32" "\<not> is_rule 62"
  by (simp_all add: is_rule_def)

lemma spaced_simps: "spaced [] = []" "spaced [u] = [u]" "spaced (u # v # r) = u # 32 # spaced (v # r)"
  by (simp_all add: spaced_def)

lemma rule_free_one: "rule_free t \<Longrightarrow> t = [] \<or> \<not> is_rule (hd t) \<Longrightarrow> rule_free (u # t)"
  by (cases "u # t" rule: rule_free.cases) auto

lemma rule_free_two: "rule_free t \<Longrightarrow> t = [] \<or> \<not> is_rule (hd t) \<Longrightarrow> rule_free (u # v # t)"
  using rule_free_one [of t v] by (cases t) simp_all

lemma rule_free_sep: "rule_free t \<Longrightarrow> rule_free (u # 32 # t)"
  using rule_free_cons [of 32 t] by (cases t) simp_all

lemma rule_free_spaced:
  "rule_free t \<Longrightarrow> t = [] \<or> \<not> is_rule (hd t) \<Longrightarrow> rule_free (spaced r @ t)"
proof (induction r rule: induct_list012)
  case (2 u)
  then show ?case using rule_free_one by (simp add: spaced_simps)
next
  case (3 u v r)
  then show ?case using rule_free_sep by (simp add: spaced_simps)
qed (simp add: spaced_simps)

lemma defuse_rules_free: "rule_free (defuse_rules t)"
proof (induction t rule: defuse_rules.induct)
  case (1 t)
  show ?case
  proof (cases t)
    case (Cons u us)
    let ?r = "takeWhile is_rule t"
    show ?thesis
    proof (cases "?r = []")
      case True
      then have "\<not> is_rule u" using Cons by (auto split: if_splits)
      then show ?thesis using "1.IH"(1) [OF Cons refl True] Cons True
        by (subst defuse_rules.simps) (simp add: Let_def rule_free_cons)
    next
      case False
      let ?t = "defuse_rules (drop (length ?r) t)"
      have rest: "rule_free ?t" using "1.IH"(2) [OF Cons refl False] .
      have start: "?t = [] \<or> \<not> is_rule (hd ?t)"
      proof (cases "dropWhile is_rule t")
        case Nil
        then show ?thesis by (simp add: dropWhile_eq_drop defuse_rules.simps)
      next
        case (Cons w ws)
        then have "\<not> is_rule w" by (simp add: dropWhile_eq_Cons_conv)
        then show ?thesis using Cons by (simp add: dropWhile_eq_drop defuse_rules.simps Let_def)
      qed
      have "rule_free (?r @ ?t)" if short: "length ?r < 3"
      proof -
        obtain v r' where v: "?r = v # r'" using False by (cases ?r) auto
        show ?thesis
        proof (cases r')
          case Nil
          then show ?thesis using v rule_free_one [OF rest start] by simp
        next
          case (Cons w r'')
          then have "r'' = []" using short v by (cases r'') auto
          then show ?thesis using v Cons rule_free_two [OF rest start] by simp
        qed
      qed
      then show ?thesis using rule_free_spaced [OF rest start] Cons False
        by (subst defuse_rules.simps) (auto simp: Let_def not_le)
    qed
  qed (simp add: defuse_rules.simps)
qed

lemma rule_free_dropWhile: "rule_free t \<Longrightarrow> rule_free (dropWhile P t)"
  by (induction t) (auto dest: rule_free_Cons)

lemma rule_free_run: "rule_free t \<Longrightarrow> length (takeWhile is_rule t) < 3"
  by (cases t rule: rule_free.cases) auto

lemma defuse_rules_id: "rule_free t \<Longrightarrow> defuse_rules t = t"
proof (induction t rule: defuse_rules.induct)
  case (1 t)
  show ?case
  proof (cases t)
    case (Cons u us)
    let ?r = "takeWhile is_rule t"
    have short: "length ?r < 3" using rule_free_run "1.prems" .
    show ?thesis
    proof (cases "?r = []")
      case True
      then show ?thesis using "1.IH"(1) [OF Cons refl True] rule_free_Cons "1.prems" Cons
        by (subst defuse_rules.simps) (auto simp: Let_def)
    next
      case False
      have "drop (length ?r) t = dropWhile is_rule t" by (simp add: dropWhile_eq_drop)
      then have "defuse_rules (drop (length ?r) t) = dropWhile is_rule t"
        using "1.IH"(2) [OF Cons refl False] rule_free_dropWhile [OF "1.prems"] by simp
      then show ?thesis using short False Cons by (subst defuse_rules.simps) (simp add: Let_def)
    qed
  qed (simp add: defuse_rules.simps)
qed

lemma set_spaced: "set (spaced r) \<subseteq> insert 32 (set r)"
  by (induction r rule: induct_list012) (auto simp: spaced_simps)

lemma set_defuse_rules: "set (defuse_rules t) \<subseteq> insert 32 (set t)"
proof (induction t rule: defuse_rules.induct)
  case (1 t)
  show ?case
  proof (cases t)
    case (Cons u us)
    show ?thesis
    proof (cases "takeWhile is_rule t = []")
      case True
      then show ?thesis using "1.IH"(1) [OF Cons refl True] Cons by (subst defuse_rules.simps) (auto simp: Let_def)
    next
      case False
      let ?r = "takeWhile is_rule t"
      have "set (if 3 \<le> length ?r then spaced ?r else ?r) \<subseteq> insert 32 (set t)"
        using set_spaced [of ?r] set_takeWhileD [of _ is_rule t] by (auto split: if_splits)
      moreover have "set (defuse_rules (drop (length ?r) t)) \<subseteq> insert 32 (set t)"
        using "1.IH"(2) [OF Cons refl False] set_drop_subset [of "length ?r" t] by blast
      moreover have "defuse_rules t = (if 3 \<le> length ?r then spaced ?r else ?r) @ defuse_rules (drop (length ?r) t)"
        using False Cons by (subst defuse_rules.simps) (simp add: Let_def)
      ultimately show ?thesis by simp
    qed
  qed (simp add: defuse_rules.simps)
qed

lemma set_fence_line: "set (fence_line l) \<subseteq> {32, 62} \<union> set l"
  using set_defuse_rules [of l] by (auto simp: fence_line_def Let_def units_def dest: set_dropWhileD)

lemma quoted_not_header: "\<not> header_line (units ''> '' @ t)"
  by (simp add: header_line_def Let_def STRUCTURAL_HEADERS_def units_def is_space_def upper_unit_def)

definition unstructured :: "utext \<Rightarrow> bool" where
  "unstructured l \<longleftrightarrow> \<not> header_line l \<and> rule_free l \<and> list_all (\<lambda>u. \<not> invisible u) l"

lemma fence_line_unstructured:
  assumes "list_all (\<lambda>u. \<not> invisible u) l"
  shows "unstructured (fence_line l)"
proof -
  have "\<not> invisible 32" "\<not> invisible 62" by (simp_all add: invisible_def INVISIBLE_RANGES_def)
  then have "list_all (\<lambda>u. \<not> invisible u) (fence_line l)"
    using set_fence_line [of l] assms by (auto simp: list_all_iff)
  moreover have "rule_free (fence_line l)"
    using defuse_rules_free [of l] rule_free_dropWhile [of "defuse_rules l" is_space]
    by (auto simp: fence_line_def Let_def units_def intro!: rule_free_cons)
  moreover have "\<not> header_line (fence_line l)"
    using quoted_not_header by (simp add: fence_line_def Let_def)
  ultimately show ?thesis by (simp add: unstructured_def)
qed

lemma newline_kept: "\<not> invisible newline"
  by (simp add: invisible_def INVISIBLE_RANGES_def newline_def)

lemma fence_line_no_newline: "newline \<notin> set l \<Longrightarrow> newline \<notin> set (fence_line l)"
  using set_fence_line [of l] by (auto simp: newline_def)

text \<open>
  (C99) What text fenced for a prompt cannot contain. Whatever an attendee writes, no line of the fenced text opens
  with one of the listed section headers, none contains three rule characters in a row, and none contains an
  invisible or control character.
\<close>

theorem fenced_has_no_structure: "list_all unstructured (split_on newline (fenceUntrusted t))"
proof (cases "t = []")
  case True
  then show ?thesis
    by (simp add: fenceUntrusted_def unstructured_def header_line_def STRUCTURAL_HEADERS_def units_def)
next
  case False
  let ?lines = "split_on newline (filter (\<lambda>u. \<not> invisible u) (fold_returns t))"
  have "unstructured (fence_line l)" if "l \<in> set ?lines" for l
    using split_on_set [OF that] by (intro fence_line_unstructured) (auto simp: list_all_iff)
  then have "list_all unstructured (map fence_line ?lines)" by (simp add: list_all_iff [of unstructured])
  moreover have "split_on newline (fenceUntrusted t) = map fence_line ?lines"
  proof -
    have "newline \<notin> set l" if "l \<in> set (map fence_line ?lines)" for l
      using that fence_line_no_newline split_on_no [of _ newline] by auto
    then have "split_on newline (join_with [newline] (map fence_line ?lines)) = map fence_line ?lines"
      by (intro split_join) (simp, blast)
    then show ?thesis using False by (simp only: fenceUntrusted_def Let_def if_False)
  qed
  ultimately show ?thesis by (simp only:)
qed

lemma fold_returns_id: "13 \<notin> set t \<Longrightarrow> fold_returns t = t"
  by (induction t rule: fold_returns.induct) auto

lemma fence_line_id: "unstructured l \<Longrightarrow> fence_line l = l"
  by (simp add: unstructured_def fence_line_def Let_def defuse_rules_id)

text \<open>A text with none of these shapes passes unchanged.\<close>

theorem plain_text_unchanged:
  assumes "list_all unstructured (split_on newline t)"
  shows "fenceUntrusted t = t"
proof -
  let ?ls = "split_on newline t"
  have ok: "l \<in> set ?ls \<Longrightarrow> unstructured l" for l using assms by (simp add: list_all_iff)
  have vis: "\<not> invisible u" if "u \<in> set t" for u
  proof -
    have "u \<in> set (join_with [newline] ?ls)" using that by simp
    moreover have "set (join_with [newline] ls) \<subseteq> insert newline (\<Union> (set ` set ls))" for ls
      by (induction "[newline]" ls rule: join_with.induct) auto
    ultimately have "u = newline \<or> (\<exists>l\<in>set ?ls. u \<in> set l)" by blast
    then show ?thesis using ok newline_kept by (auto simp: unstructured_def list_all_iff)
  qed
  have "invisible 13" by (simp add: invisible_def INVISIBLE_RANGES_def)
  then have "13 \<notin> set t" using vis by blast
  then have "fold_returns t = t" by (rule fold_returns_id)
  moreover have "filter (\<lambda>u. \<not> invisible u) t = t" using vis by (simp add: filter_id_conv)
  moreover have "map fence_line ?ls = ?ls" using ok fence_line_id by (simp add: map_idI)
  ultimately show ?thesis by (simp add: fenceUntrusted_def Let_def)
qed

text \<open>Fencing twice is fencing once.\<close>

lemma fence_idempotent: "fenceUntrusted (fenceUntrusted t) = fenceUntrusted t"
  using plain_text_unchanged [OF fenced_has_no_structure] .

text \<open>
  Two headings of the reverse scoring prompt (\<open>buildReverseBatchUserBlock\<close> in \<open>matching/scoring.ts\<close>) are not in the list and
  not matched by a shorter entry, so an attendee's text can open them.
\<close>

lemma reverse_headings_pass:
  "fenceUntrusted (units ''TARGET ATTENDEES: one numbered block per WRITER'')
     = units ''TARGET ATTENDEES: one numbered block per WRITER''"
  "fenceUntrusted (units ''SHARED PERSON (the one each target below would meet):'')
     = units ''SHARED PERSON (the one each target below would meet):''"
  by (rule plain_text_unchanged;
      simp add: unstructured_def header_line_def header_tail_def STRUCTURAL_HEADERS_def units_def is_space_def
        is_unit_digit_def upper_unit_def is_rule_def invisible_def INVISIBLE_RANGES_def newline_def)+

lemma headings_fenced:
  "fenceUntrusted (units ''--- CANDIDATE 2 ---'') = units ''- - - CANDIDATE 2 - - -''"
  "fenceUntrusted (units '' Target attendee 3 : me'') = units ''> Target attendee 3 : me''"
  by (simp_all add: fenceUntrusted_def fence_line_def header_line_def header_tail_def STRUCTURAL_HEADERS_def units_def
      is_space_def is_unit_digit_def upper_unit_def is_rule_def invisible_def INVISIBLE_RANGES_def newline_def
      defuse_rules.simps spaced_def Let_def)

definition fenceUntrustedList :: "utext list \<Rightarrow> utext list" where
  "fenceUntrustedList items = map fenceUntrusted items"

end
