(* ===== verification/Spec2Isabelle.thy ===== *)
theory Spec2Isabelle
  imports Ordering Coordinate Config Settings_Merge Job_Runner Roster Key_Backup Giftwrap Event_Store
    Entitlement Membership Commands Revocation Install Cache Monotonic Outbox Safe_Fetch Strip_Audio Strip_Matroska Strip_Isobmff
    Fencing
begin

text \<open>
  Nostrautica runs private event communities over Nostr. A \<^bold>\<open>protocol\<close> package
  (\<open>packages/protocol/src\<close>) fixes addresses, encodings and pure merge rules; a \<^bold>\<open>coordinator\<close> daemon
  (\<open>packages/coordinator/src\<close>) admits members, rotates keys and runs the processing jobs from a SQLite
  store; an \<^bold>\<open>app\<close> (\<open>packages/app/src/lib\<close>) publishes signed events through a durable outbox and keeps
  a persistent cache. They meet on relays, which lose, repeat and reorder messages, and every
  handler can be interrupted at an \<open>await\<close>: the theorems are about what survives that.

  \<^bold>\<open>How the code is modelled.\<close> A TypeScript interface is a \<open>record\<close>, a union a \<open>datatype\<close>, a table a list of
  rows, a \<open>Map\<close> an association list or a function to \<open>option\<close>, a thrown error a branch of a sum or an
  \<open>option\<close>. An asynchronous function is cut at its awaits: between two cuts an arbitrary environment step
  (other handlers, other tabs, the user) may change the shared state. Numbers that can come from outside are
  \<open>Js_Number\<close> values (\<open>NaN\<close>, infinities, rationals); counters and times are \<open>nat\<close> or \<open>int\<close>, as they stay below
  \<open>2 ^ 53\<close>; bytes and hextets are words. Code that is not in the repository is an argument of the definitions that
  use it: signatures, hashes, NIP-44 and NIP-19, the URL parser, \<open>Number\<close> on strings, DNS and servers,
  relays and the clock.

  \<^bold>\<open>Theories.\<close>
  \<^item> \<open>Prelude\<close>, \<open>Js_Number\<close>, \<open>Json\<close>: decimal printing, splitting, trimming, stable sorting, tables of rows,
    JavaScript numbers, \<open>JSON.stringify\<close>.
  \<^item> \<open>Stamps\<close>: the locale \<open>stamper\<close> of a counter of publication times, interpreted for the coordinator
    (\<open>Event_Store\<close>) and for the tabs of the app (\<open>Monotonic\<close>).
  \<^item> \<open>Ordering\<close> (\<open>protocol/src/ordering.ts\<close>, \<open>app/src/lib/nostr/dedupe.ts\<close>): the order of replaceable events, the locale
    \<open>latest_wins\<close> and its two interpretations; the latest event does not depend on arrival.
  \<^item> \<open>Coordinate\<close> (\<open>coordinate.ts\<close>, \<open>hierarchy.ts\<close>, the proofs of \<open>crypto.ts\<close>): parsing is the inverse of
    printing; no two claims hash the same message; a proof made verifies.
  \<^item> \<open>Config\<close> (\<open>config.ts\<close>): building and parsing the event config; a round trip, and the type invariant of
    everything parsed.
  \<^item> \<open>Settings_Merge\<close> (\<open>settings-merge.ts\<close>): the merge refines a join of per-key registers (locale
    \<open>join_merge\<close>), so devices converge and an edit survives.
  \<^item> \<open>Roster\<close> (\<open>roster.ts\<close>): pages carry the whole roster, split and merge are inverse.
  \<^item> \<open>Key_Backup\<close> (\<open>eck-identity.ts\<close>, \<open>keys-backup.ts\<close>): the merge of key backups loses no key.
  \<^item> \<open>Giftwrap\<close> (\<open>giftwrap.ts\<close>, \<open>kinds.ts\<close>): an accepted rumor is from the key that signed the seal; wrapping and unwrapping
    are inverse.
  \<^item> \<open>Job_Store\<close>, \<open>Job_Runner\<close> (\<open>store/db.ts\<close>, \<open>pipeline/jobs.ts\<close>): the job table with its leases (locale
    \<open>leases\<close>), one execution, the retry schedule, the lanes, the drain. A worker that lost its lease never writes;
    tries are bounded; a crash loop ends.
  \<^item> \<open>Event_Store\<close> (\<open>store/db.ts\<close>): the durable state of an event and every statement on it.
  \<^item> \<open>Entitlement\<close>, \<open>Membership\<close> (\<open>pipeline/entitlement.ts\<close>, the join handler of \<open>coordinator.ts\<close>): a join that is
    granted rests on what the policy asks for, under any interleaving.
  \<^item> \<open>Commands\<close> (the ordering gate of \<open>coordinator.ts\<close>): whatever the order of delivery, the newest
    command on a subject wins.
  \<^item> \<open>Revocation\<close> (\<open>handleAdmin\<close>, \<open>approveMember\<close>, \<open>revokeAttendee\<close>, the key rotation and the withdrawal in
    \<open>coordinator.ts\<close>): only the organizer's commands act, a revoked member stays out, one command mints one key.
  \<^item> \<open>Install\<close> (install, suspension, restore and detach in \<open>coordinator.ts\<close>): an install is
    authorized by the newest config, a detached event stays detached.
  \<^item> \<open>Cache\<close> (\<open>cache/persist.ts\<close>): tabs, their mirrors, the disk and the requests between them; later stamps
    win, a logout leaves nothing, the budget is enforced.
  \<^item> \<open>Monotonic\<close> (\<open>nostr/monotonic.ts\<close>, \<open>accepted-watermark.ts\<close>): one tab never reuses a time; two tabs can.
  \<^item> \<open>Outbox\<close> (\<open>nostr/publish-queue.ts\<close>, \<open>publishSigned\<close> of \<open>ndk.ts\<close>, the refusal classes of \<open>errors.ts\<close>): a queued
    event is stored until a relay takes it, five flushes settle it, a flush of the store is the flush of its rows.
  \<^item> \<open>Safe_Fetch\<close> (\<open>net/safe-fetch.ts\<close>): the address policy is a list of CIDR blocks; every connection is public.
  \<^item> \<open>Strip_Base\<close>, \<open>Strip_Audio\<close> (\<open>media/strip-metadata.ts\<close>): the edits of a file and their assembly, FLAC, WAV
    and MP3. A stripped file has the same blocks, blanked, and the same audio; a crafted MP3 never returns.

  \<^bold>\<open>Interaction.\<close> \<open>Install\<close> uses \<open>Config\<close>, \<open>Coordinate\<close>, \<open>Ordering\<close> and \<open>Event_Store\<close>; \<open>Membership\<close>
  uses \<open>Entitlement\<close>; \<open>Revocation\<close> composes \<open>Commands\<close>, \<open>Membership\<close> and \<open>Key_Backup\<close> over one daemon state, and its
  runs interleave joins, commands and withdrawals; \<open>Outbox\<close> writes through \<open>Monotonic\<close>, which stores its
  watermarks in the \<open>Cache\<close>.

  \<^bold>\<open>Bounds and fuel.\<close> \<open>strip_fuel\<close> takes the length of the string, as each round removes a prefix. The loops of the
  job drain and of the flush run over a list taken at their start. The redirect loop counts the allowed
  redirects down. The walks over a file move forward, which is their termination measure; the loop
  at the end of an MP3 can move backward and is a partial function. Runs of the concurrent parts are lists or
  reachable states of any length.

  \<^bold>\<open>Not modelled.\<close> The user interface, translations and routing (rendering); the relay clients, providers, blob client
  and remote signers (network input and output, whose results are the arguments of the handlers); the talk pipeline and the
  scoring (external models); both chats (they sequence a vendored MLS library whose guarantees are not in this
  repository); message schemas (declarative tables); configuration, command line and process life
  cycle; the Android app, which is a second implementation in Kotlin. Of \<open>coordinator.ts\<close> the subscriptions, timers and the effects
  of recompute, reprocess and the talk commands are parameters; of \<open>db.ts\<close> the tables of derived data are left out.
\<close>

end
